(* ===== verification/Prelude.thy ===== *)
theory Prelude
  imports Main
begin

text \<open>
  Shared material of the development: the byte type and the result type of every
  model, the list function \<open>chunks\<close> that describes a file cut by a buffer of fixed
  size, and the two locales every concurrent component is an instance of: a transition
  system with an invariant, and one that in addition always moves on towards a final
  state.  \<open>chunk_codec\<close> is the interface of the components that carry a file chunk by
  chunk through some medium.
\<close>

named_theorems lib_simps "equations on buffers and C strings shared by the components"

section \<open>Bytes, faults and results\<close>

text \<open>
  A byte is a \<open>char\<close> (256 values), so a buffer or a file is a \<open>string\<close> and string
  literals of the code are literals of the model.
\<close>

type_synonym byte = char
type_synonym bytes = "byte list"

abbreviation NUL :: byte where
  "NUL \<equiv> CHR 0x00"

text \<open>
  What can go wrong: an access outside an allocated block, a null pointer that is
  dereferenced, a length that is negative and turns into a huge \<open>size_t\<close>, a slot of
  a fresh heap block that is read before it is written, a failed system call, a wait
  that nobody will end, a value that its integer type cannot hold.
\<close>

datatype cerror =
    OutOfBounds
  | NullDeref
  | NegativeSize
  | ReadUndef
  | CallFailed
  | Blocked
  | Aborted
  | Overflow

type_synonym 'a result = "cerror + 'a"

definition bindS :: "'e + 'a \<Rightarrow> ('a \<Rightarrow> 'e + 'b) \<Rightarrow> 'e + 'b" where
  "bindS m f = (case m of Inl e \<Rightarrow> Inl e | Inr a \<Rightarrow> f a)"

lemma bindS_simps [simp]:
  "bindS (Inl e) f = Inl e"
  "bindS (Inr a) f = f a"
  by (simp_all add: bindS_def)

lemma bindS_eq_Inr_iff: "bindS m f = Inr b \<longleftrightarrow> (\<exists>a. m = Inr a \<and> f a = Inr b)"
  by (cases m) auto

section \<open>Cutting a file into chunks\<close>

function chunks :: "nat \<Rightarrow> 'a list \<Rightarrow> 'a list list" where
  "chunks n xs = (if n = 0 \<or> xs = [] then [] else take n xs # chunks n (drop n xs))"
  by pat_completeness auto
termination
  by (relation "measure (\<lambda>(n, xs). length xs)") auto

declare chunks.simps [simp del]

lemma chunks_Nil [simp]: "chunks n [] = []"
  by (simp add: chunks.simps)

lemma chunks_step: "0 < n \<Longrightarrow> xs \<noteq> [] \<Longrightarrow> chunks n xs = take n xs # chunks n (drop n xs)"
  by (subst chunks.simps) simp

lemma concat_chunks [simp]: "0 < n \<Longrightarrow> concat (chunks n xs) = xs"
proof (induction n xs rule: chunks.induct)
  case (1 n xs)
  then show ?case by (cases "xs = []") (simp_all add: chunks_step)
qed

lemma chunks_member: "c \<in> set (chunks n xs) \<Longrightarrow> c \<noteq> [] \<and> length c \<le> n"
proof (induction n xs rule: chunks.induct)
  case (1 n xs)
  then show ?case by (auto simp: chunks.simps [of n xs] split: if_splits)
qed

lemma set_chunks_subset: "c \<in> set (chunks n xs) \<Longrightarrow> set c \<subseteq> set xs"
proof (induction n xs rule: chunks.induct)
  case (1 n xs)
  then show ?case
    by (auto simp: chunks.simps [of n xs] split: if_splits dest: in_set_takeD in_set_dropD)
qed

lemma length_chunks: "0 < n \<Longrightarrow> length (chunks n xs) = (length xs + n - 1) div n"
proof (induction n xs rule: chunks.induct)
  case (1 n xs)
  show ?case
  proof (cases "xs = []")
    case True
    with "1.prems" show ?thesis by simp
  next
    case False
    with 1 have ih: "length (chunks n (drop n xs)) = (length xs - n + n - 1) div n" by simp
    show ?thesis
    proof (cases "n \<le> length xs")
      case True
      have eq: "length xs + n - 1 = (length xs - 1) + n"
        using False by (simp add: Suc_le_eq)
      have "(length xs + n - 1) div n = Suc ((length xs - 1) div n)"
        unfolding eq using "1.prems" by (simp add: div_add_self2)
      with ih True False "1.prems" show ?thesis by (simp add: chunks_step)
    next
      case short: False
      then have "(length xs + n - 1) div n = 1"
        using False by (intro div_nat_eqI) (cases xs; simp)+
      with short False "1.prems" show ?thesis by (simp add: chunks_step)
    qed
  qed
qed

lemma chunks_full_multiple:
  "0 < n \<Longrightarrow> n dvd length xs \<Longrightarrow> c \<in> set (chunks n xs) \<Longrightarrow> length c = n"
proof (induction n xs rule: chunks.induct)
  case (1 n xs)
  show ?case
  proof (cases "xs = []")
    case True
    with 1 show ?thesis by simp
  next
    case False
    with "1.prems" have le: "n \<le> length xs" by (auto intro: dvd_imp_le)
    with False 1 show ?thesis by (auto simp: chunks_step)
  qed
qed

lemma take_min_length [simp]: "take (min (length xs) n) xs = take n xs"
  by (simp add: min_def)

lemma take_splice_Suc:
  "length xs < length b \<Longrightarrow> take (length xs + 1) (xs @ drop (length xs) b) = xs @ [b ! length xs]"
  by (simp add: Cons_nth_drop_Suc [symmetric])

lemma take_drop_rank:
  "0 < n \<Longrightarrow> xs \<noteq> [] \<Longrightarrow> 3 * (length xs - n) + 2 * min (length xs) n < 3 * length xs"
  by (cases xs) (auto simp: min_def)

text \<open>
  A medium that carries one chunk at a time: what is decoded from an encoded chunk is
  the chunk.  Then the whole file arrives.
\<close>

locale chunk_codec =
  fixes size :: nat
    and enc :: "'a list \<Rightarrow> 'p"
    and dec :: "'p \<Rightarrow> 'a list"
  assumes size_pos: "0 < size"
    and dec_enc: "c \<noteq> [] \<Longrightarrow> length c \<le> size \<Longrightarrow> dec (enc c) = c"
begin

lemma decode_all: "concat (map (\<lambda>c. dec (enc c)) (chunks size xs)) = xs"
proof -
  have "map (\<lambda>c. dec (enc c)) (chunks size xs) = chunks size xs"
    by (rule map_idI) (metis chunks_member dec_enc)
  then show ?thesis by (simp add: size_pos)
qed

end

section \<open>Transition systems\<close>

locale trans_inv =
  fixes init :: "'s \<Rightarrow> bool"
    and step :: "'s \<Rightarrow> 's \<Rightarrow> bool"
    and inv :: "'s \<Rightarrow> bool"
  assumes init_inv: "init s \<Longrightarrow> inv s"
    and step_inv: "inv s \<Longrightarrow> step s t \<Longrightarrow> inv t"
begin

lemma steps_inv: "step\<^sup>*\<^sup>* s t \<Longrightarrow> inv s \<Longrightarrow> inv t"
  by (induction rule: rtranclp_induct) (auto intro: step_inv)

lemma reach_inv: "init s \<Longrightarrow> step\<^sup>*\<^sup>* s t \<Longrightarrow> inv t"
  by (rule steps_inv) (auto intro: init_inv)

end

locale live_inv = trans_inv +
  fixes final :: "'s \<Rightarrow> bool"
    and rank :: "'s \<Rightarrow> nat"
  assumes progress: "inv s \<Longrightarrow> \<not> final s \<Longrightarrow> \<exists>t. step s t"
    and decrease: "inv s \<Longrightarrow> step s t \<Longrightarrow> rank t < rank s"
begin

lemma finishes_from: "inv s \<Longrightarrow> \<exists>t. step\<^sup>*\<^sup>* s t \<and> final t"
proof (induction "rank s" arbitrary: s rule: less_induct)
  case less
  show ?case
  proof (cases "final s")
    case False
    then obtain t where t: "step s t" using less.prems progress by blast
    with less obtain u where "step\<^sup>*\<^sup>* t u" "final u"
      using decrease step_inv by blast
    with t show ?thesis by (meson converse_rtranclp_into_rtranclp)
  qed auto
qed

lemma finishes: "init s \<Longrightarrow> \<exists>t. step\<^sup>*\<^sup>* s t \<and> final t"
  by (rule finishes_from) (rule init_inv)

lemma no_deadlock: "init s \<Longrightarrow> step\<^sup>*\<^sup>* s t \<Longrightarrow> (\<nexists>u. step t u) \<Longrightarrow> final t"
  using reach_inv progress by blast

lemma run_length: "(step ^^ n) s t \<Longrightarrow> inv s \<Longrightarrow> n + rank t \<le> rank s"
proof (induction n arbitrary: t)
  case (Suc n)
  then obtain u where u: "(step ^^ n) s u" "step u t" by auto
  with Suc.prems have "inv u" by (meson relpowp_imp_rtranclp steps_inv)
  with Suc u show ?case using decrease by fastforce
qed simp

end

end
