(* ===== verification/CLib.thy ===== *)
theory CLib
  imports Prelude
begin

text \<open>
  The part of the C library the programs use, on explicit memory: a block is a
  \<open>bytes\<close> list whose length is its allocated size, a C string is the prefix of a block
  before its first NUL byte.  Every function that would leave the block returns
  \<open>Inl OutOfBounds\<close>.
\<close>

section \<open>Blocks and C strings\<close>

text \<open>\<open>memcpy(buf + off, xs, |xs|)\<close> and the single store \<open>buf[off] = c\<close>.\<close>

definition poke :: "bytes \<Rightarrow> nat \<Rightarrow> bytes \<Rightarrow> bytes result" where
  "poke buf off xs =
     (if off + length xs \<le> length buf
      then Inr (take off buf @ xs @ drop (off + length xs) buf)
      else Inl OutOfBounds)"

text \<open>What a read of \<open>n\<close> bytes from the start of a block yields.\<close>

definition peek :: "bytes \<Rightarrow> nat \<Rightarrow> bytes result" where
  "peek buf n = (if n \<le> length buf then Inr (take n buf) else Inl OutOfBounds)"

definition cstr :: "bytes \<Rightarrow> bytes" where
  "cstr buf = takeWhile (\<lambda>c. c \<noteq> NUL) buf"

definition strlen :: "bytes \<Rightarrow> nat result" where
  "strlen buf = (if NUL \<in> set buf then Inr (length (cstr buf)) else Inl OutOfBounds)"

text \<open>The text of a buffer, as \<open>printf\<close> with \<open>%s\<close> or \<open>write\<close> up to \<open>strlen\<close> take it.\<close>

definition format_s :: "bytes \<Rightarrow> bytes result" where
  "format_s buf = bindS (strlen buf) (\<lambda>n. Inr (take n buf))"

text \<open>\<open>strcmp(a, b) == 0\<close>, byte by byte up to the first difference or the common NUL.\<close>

fun strcmp_eq :: "bytes \<Rightarrow> bytes \<Rightarrow> bool result" where
  "strcmp_eq (a # as) (b # bs) =
     (if a \<noteq> b then Inr False else if a = NUL then Inr True else strcmp_eq as bs)"
| "strcmp_eq _ _ = Inl OutOfBounds"

text \<open>A string literal as the block the compiler allocates for it.\<close>

abbreviation lit :: "string \<Rightarrow> bytes" where
  "lit s \<equiv> s @ [NUL]"

text \<open>
  \<open>strncpy(dst, src, n)\<close>: the \<open>n\<close> bytes it stores, which are the string in \<open>src\<close> cut
  at \<open>n\<close> and padded with NUL bytes; it reads at most \<open>n\<close> bytes of \<open>src\<close>.
\<close>

definition strncpy_bytes :: "bytes \<Rightarrow> nat \<Rightarrow> bytes result" where
  "strncpy_bytes src n =
     (if n \<le> length src \<or> NUL \<in> set src
      then (let s = cstr (take n src) in Inr (s @ replicate (n - length s) NUL))
      else Inl OutOfBounds)"

lemma poke_ok [lib_simps]:
  "off + length xs \<le> length buf \<Longrightarrow>
   poke buf off xs = Inr (take off buf @ xs @ drop (off + length xs) buf)"
  by (simp add: poke_def)

lemma poke_length: "poke buf off xs = Inr buf' \<Longrightarrow> length buf' = length buf"
  by (auto simp: poke_def split: if_splits)

lemma poke_Inr: "poke buf 0 xs = Inr b \<longleftrightarrow> length xs \<le> length buf \<and> b = xs @ drop (length xs) buf"
  by (auto simp: poke_def)

lemma peek_Inr: "peek buf n = Inr xs \<longleftrightarrow> n \<le> length buf \<and> xs = take n buf"
  by (auto simp: peek_def)

lemma cstr_append_NUL [simp]: "NUL \<notin> set s \<Longrightarrow> cstr (s @ NUL # r) = s"
  by (induction s) (auto simp: cstr_def)

lemma cstr_append_in: "NUL \<in> set s \<Longrightarrow> cstr (s @ r) = cstr s"
  unfolding cstr_def by (rule takeWhile_append1 [of NUL]) simp_all

lemma cstr_take: "take (length (cstr s)) s = cstr s"
  unfolding cstr_def by (rule takeWhile_eq_take [symmetric])

lemma cstr_no_NUL [simp]: "NUL \<notin> set s \<Longrightarrow> cstr s = s"
  by (induction s) (auto simp: cstr_def)

lemma NUL_notin_cstr [simp]: "NUL \<notin> set (cstr s)"
  by (induction s) (auto simp: cstr_def)

lemma length_cstr_le: "length (cstr s) \<le> length s"
  by (simp add: cstr_def length_takeWhile_le)

lemma strlen_terminated [lib_simps]: "NUL \<notin> set s \<Longrightarrow> strlen (s @ NUL # r) = Inr (length s)"
  by (simp add: strlen_def)

lemma format_s_text: "NUL \<in> set buf \<Longrightarrow> format_s buf = Inr (cstr buf)"
  by (simp add: format_s_def strlen_def cstr_take)

lemma strcmp_eq_lit:
  "NUL \<notin> set s \<Longrightarrow> strcmp_eq buf (lit s) = Inr True \<longleftrightarrow> take (Suc (length s)) buf = lit s"
proof (induction s arbitrary: buf)
  case Nil
  then show ?case by (cases buf) auto
next
  case (Cons a s)
  then show ?case by (cases buf) auto
qed

lemma strcmp_eq_lit_total:
  "length s < length buf \<Longrightarrow> NUL \<notin> set s \<Longrightarrow>
   strcmp_eq buf (lit s) = Inr (take (Suc (length s)) buf = lit s)"
proof (induction s arbitrary: buf)
  case Nil
  then show ?case by (cases buf) auto
next
  case (Cons a s)
  then show ?case by (cases buf) auto
qed

lemma poke_quit: "5 \<le> length buf \<Longrightarrow> poke buf 0 (lit ''quit'') = Inr (lit ''quit'' @ drop 5 buf)"
  by (simp add: poke_def eval_nat_numeral)

lemma strcmp_quit: "5 \<le> length buf \<Longrightarrow> strcmp_eq buf (lit ''quit'') = Inr (take 5 buf = lit ''quit'')"
  using strcmp_eq_lit_total [of "''quit''" buf] by (simp add: eval_nat_numeral)

lemmas quit_simps = poke_quit [simplified] strcmp_quit [simplified]

lemma strncpy_bytes_no_NUL [lib_simps]:
  "n \<le> length src \<Longrightarrow> NUL \<notin> set (take n src) \<Longrightarrow> strncpy_bytes src n = Inr (take n src)"
  by (simp add: strncpy_bytes_def)

lemma strncpy_bytes_length: "strncpy_bytes src n = Inr xs \<Longrightarrow> length xs = n"
  using length_cstr_le [of "take n src"]
  by (auto simp: strncpy_bytes_def Let_def split: if_splits)

section \<open>Streams\<close>

text \<open>
  \<open>fread(buf, 1, n, f)\<close> on a regular file whose unread bytes are \<open>f\<close>: the bytes it
  delivers and what stays unread.  It stops short only at the end of the file.
\<close>

definition fread :: "nat \<Rightarrow> bytes \<Rightarrow> bytes \<times> bytes" where
  "fread n f = (take n f, drop n f)"

section \<open>Tokens\<close>

text \<open>
  \<open>strtok\<close> on the rest of the string it is working on: it skips delimiters, returns
  \<open>NULL\<close> when nothing is left, else the bytes up to the next delimiter, which it
  overwrites with NUL and skips.
\<close>

definition strtok :: "string \<Rightarrow> string \<Rightarrow> (string \<times> string) option" where
  "strtok delim s =
     (let s' = dropWhile (\<lambda>c. c \<in> set delim) s
      in if s' = [] then None
         else Some (takeWhile (\<lambda>c. c \<notin> set delim) s',
                    drop 1 (dropWhile (\<lambda>c. c \<notin> set delim) s')))"

lemma strtok_decreases: "strtok d s = Some (t, r) \<Longrightarrow> length r < length s"
proof -
  assume a: "strtok d s = Some (t, r)"
  let ?s = "dropWhile (\<lambda>c. c \<in> set d) s" and ?r = "dropWhile (\<lambda>c. c \<notin> set d)"
  from a have ne: "?s \<noteq> []" and r: "r = drop 1 (?r ?s)"
    by (auto simp: strtok_def Let_def split: if_splits)
  have "length (?r ?s) \<le> length ?s" by (rule length_dropWhile_le)
  moreover from ne have "0 < length ?s" by blast
  ultimately have "length r < length ?s"
    unfolding r length_drop by linarith
  also have "\<dots> \<le> length s" by (rule length_dropWhile_le)
  finally show ?thesis .
qed

lemma strtok_empty [simp]: "strtok d [] = None"
  by (simp add: strtok_def)

lemma strtok_delim [simp]: "c \<in> set d \<Longrightarrow> strtok d (c # s) = strtok d s"
  by (simp add: strtok_def)

lemma strtok_word:
  assumes "w \<noteq> []" "set w \<inter> set d = {}" "s = [] \<or> hd s \<in> set d"
  shows "strtok d (w @ s) = Some (w, drop 1 s)"
proof -
  have w: "\<And>x. x \<in> set w \<Longrightarrow> x \<notin> set d" using assms(2) by auto
  have "takeWhile (\<lambda>c. c \<notin> set d) s = []" "dropWhile (\<lambda>c. c \<notin> set d) s = s"
    using assms(3) by (cases s; simp)+
  moreover have "dropWhile (\<lambda>c. c \<in> set d) (w @ s) = w @ s"
    using assms(1) w by (cases w) auto
  ultimately show ?thesis
    using assms(1) w by (simp add: strtok_def takeWhile_append2 dropWhile_append2)
qed

text \<open>All tokens of a string: the reference for the loops that call \<open>strtok\<close>.\<close>

function tokens :: "string \<Rightarrow> string \<Rightarrow> string list" where
  "tokens d s = (case strtok d s of None \<Rightarrow> [] | Some (t, r) \<Rightarrow> t # tokens d r)"
  by pat_completeness auto
termination
  by (relation "measure (\<lambda>(d, s). length s)") (auto dest: strtok_decreases)

declare tokens.simps [simp del]

lemma tokens_Nil [simp]: "tokens d [] = []"
  by (simp add: tokens.simps strtok_def)

lemma tokens_None: "strtok d s = None \<Longrightarrow> tokens d s = []"
  by (subst tokens.simps) simp

lemma tokens_Some: "strtok d s = Some (t, r) \<Longrightarrow> tokens d s = t # tokens d r"
  by (subst tokens.simps) simp

lemma tokens_delim [simp]: "c \<in> set d \<Longrightarrow> tokens d (c # s) = tokens d s"
  using tokens.simps [of d "c # s"] tokens.simps [of d s] by simp

lemma tokens_word:
  "w \<noteq> [] \<Longrightarrow> set w \<inter> set d = {} \<Longrightarrow> s = [] \<or> hd s \<in> set d \<Longrightarrow>
   tokens d (w @ s) = w # tokens d s"
  by (cases s) (simp_all add: tokens_Some strtok_word strtok_word [where s = "[]", simplified])

lemma tokens_all_delim: "set s \<subseteq> set d \<Longrightarrow> tokens d s = []"
  by (induction s) auto

lemma length_tokens: "length (tokens d s) \<le> length s"
proof (induction d s rule: tokens.induct)
  case (1 d s)
  show ?case
  proof (cases "strtok d s")
    case (Some p)
    obtain t r where p: "p = (t, r)" by force
    with Some have "length r < length s" using strtok_decreases by blast
    moreover have "length (tokens d r) \<le> length r"
      using 1 Some p by blast
    ultimately show ?thesis using Some p by (simp add: tokens_Some)
  qed (simp add: tokens_None)
qed

end
