(* ===== verification/Channel.thy ===== *)
theory Channel
  imports Prelude
begin

text \<open>
  The abstract specification of every transfer of this development: a bounded channel.  The
  items that are to be sent lie in \<open>unsent\<close>, at most \<open>cap\<close> of them travel, and what has been
  taken out stands in \<open>arrived\<close>; both ends may move several items at a time.  The locale
  \<open>simulation\<close> says what it takes to refine a transition system, \<open>medium\<close> is the
  interface of the components that refine the channel, and its lemmas are what all of
  them promise: nothing is lost, doubled, reordered or made up, and never more than \<open>cap\<close>
  items are on their way.
\<close>

section \<open>The channel\<close>

record 'a channel =
  unsent :: "'a list"
  travelling :: "'a list"
  arrived :: "'a list"

inductive chan_step :: "nat \<Rightarrow> 'a channel \<Rightarrow> 'a channel \<Rightarrow> bool" for cap where
  send: "unsent c = xs @ ys \<Longrightarrow> xs \<noteq> [] \<Longrightarrow> length (travelling c) + length xs \<le> cap \<Longrightarrow>
     chan_step cap c (c\<lparr>unsent := ys, travelling := travelling c @ xs\<rparr>)"
| receive: "travelling c = xs @ ys \<Longrightarrow> xs \<noteq> [] \<Longrightarrow>
     chan_step cap c (c\<lparr>travelling := ys, arrived := arrived c @ xs\<rparr>)"

inductive_cases chan_stepE: "chan_step cap c d"

definition chan_start :: "'a list \<Rightarrow> 'a channel" where
  "chan_start xs = \<lparr>unsent = xs, travelling = [], arrived = []\<rparr>"

lemma chan_start_simps [simp]:
  "unsent (chan_start xs) = xs" "travelling (chan_start xs) = []" "arrived (chan_start xs) = []"
  by (simp_all add: chan_start_def)

text \<open>What one end does, on the three parts.\<close>

lemma chan_sends:
  "xs \<noteq> [] \<Longrightarrow> length q + length xs \<le> cap \<Longrightarrow>
   chan_step cap \<lparr>unsent = xs @ ys, travelling = q, arrived = a\<rparr>
     \<lparr>unsent = ys, travelling = q @ xs, arrived = a\<rparr>"
  using chan_step.send [of "\<lparr>unsent = xs @ ys, travelling = q, arrived = a\<rparr>" xs ys cap] by simp

lemma chan_receives:
  "xs \<noteq> [] \<Longrightarrow>
   chan_step cap \<lparr>unsent = u, travelling = xs @ ys, arrived = a\<rparr>
     \<lparr>unsent = u, travelling = ys, arrived = a @ xs\<rparr>"
  using chan_step.receive [of "\<lparr>unsent = u, travelling = xs @ ys, arrived = a\<rparr>" xs ys cap] by simp

definition chan_inv :: "nat \<Rightarrow> 'a list \<Rightarrow> 'a channel \<Rightarrow> bool" where
  "chan_inv cap xs c \<longleftrightarrow> arrived c @ travelling c @ unsent c = xs \<and> length (travelling c) \<le> cap"

interpretation chan: trans_inv "\<lambda>c. c = chan_start xs" "chan_step cap" "chan_inv cap xs" for cap xs
  by unfold_locales (auto simp: chan_inv_def elim!: chan_stepE)

section \<open>Refinement\<close>

text \<open>
  A system with an invariant simulates an abstract one: a step either is invisible or is
  one abstract step.
\<close>

locale simulation = trans_inv init step inv
  for init :: "'s \<Rightarrow> bool" and step :: "'s \<Rightarrow> 's \<Rightarrow> bool" and inv :: "'s \<Rightarrow> bool" +
  fixes ainit :: "'a \<Rightarrow> bool"
    and astep :: "'a \<Rightarrow> 'a \<Rightarrow> bool"
    and rel :: "'s \<Rightarrow> 'a \<Rightarrow> bool"
  assumes sim_init: "init s \<Longrightarrow> \<exists>a. ainit a \<and> rel s a"
    and sim_step: "inv s \<Longrightarrow> step s t \<Longrightarrow> rel s a \<Longrightarrow> rel t a \<or> (\<exists>b. astep a b \<and> rel t b)"
begin

lemma sim_steps: "step\<^sup>*\<^sup>* s t \<Longrightarrow> inv s \<Longrightarrow> rel s a \<Longrightarrow> \<exists>b. astep\<^sup>*\<^sup>* a b \<and> rel t b"
proof (induction rule: rtranclp_induct)
  case (step t u)
  then obtain b where b: "astep\<^sup>*\<^sup>* a b" "rel t b" by blast
  have "inv t" using step.hyps(1) step.prems(1) by (rule steps_inv)
  then have "rel u b \<or> (\<exists>c. astep b c \<and> rel u c)" using step.hyps(2) b(2) by (rule sim_step)
  with b(1) show ?case by (meson rtranclp.rtrancl_into_rtrancl)
qed auto

lemma simulated: "init s \<Longrightarrow> step\<^sup>*\<^sup>* s t \<Longrightarrow> \<exists>a b. ainit a \<and> astep\<^sup>*\<^sup>* a b \<and> rel t b"
  using sim_init sim_steps init_inv by meson

end

text \<open>A system that carries \<open>items\<close> from one end to the other.\<close>

locale medium = trans_inv init step inv
  for init :: "'s \<Rightarrow> bool" and step :: "'s \<Rightarrow> 's \<Rightarrow> bool" and inv :: "'s \<Rightarrow> bool" +
  fixes cap :: nat
    and items :: "'a list"
    and view :: "'s \<Rightarrow> 'a channel \<Rightarrow> bool"
  assumes view_init: "init s \<Longrightarrow> view s (chan_start items)"
    and view_step: "inv s \<Longrightarrow> step s t \<Longrightarrow> view s c \<Longrightarrow> view t c \<or> (\<exists>d. chan_step cap c d \<and> view t d)"

sublocale medium \<subseteq> simulation init step inv "\<lambda>c. c = chan_start items" "chan_step cap" view
  by unfold_locales (use view_init view_step in blast)+

context medium
begin

lemma refines: "init s \<Longrightarrow> step\<^sup>*\<^sup>* s t \<Longrightarrow> \<exists>c. (chan_step cap)\<^sup>*\<^sup>* (chan_start items) c \<and> view t c"
  using simulated by blast

lemma carries:
  "init s \<Longrightarrow> step\<^sup>*\<^sup>* s t \<Longrightarrow> \<exists>c. (chan_step cap)\<^sup>*\<^sup>* (chan_start items) c \<and> view t c \<and>
     arrived c @ travelling c @ unsent c = items \<and> length (travelling c) \<le> cap"
  using refines chan.reach_inv unfolding chan_inv_def by blast

end

end
