(* ===== verification/Kernel.thy ===== *)
theory Kernel
  imports CLib Channel
begin

text \<open>
  The kernel objects the programs share, as far as the programs rely on them: a
  process's descriptor table (a new descriptor is the lowest free number) and a pipe or
  FIFO (bytes come out in the order they went in; a read on an empty pipe waits while a
  write end is open and reports the end of file otherwise).  Each is used through a
  locale that states what its clients rely on, interpreted here on the definitions.
\<close>

section \<open>Descriptor tables\<close>

type_synonym 'h fdtab = "(nat \<times> 'h) list"

definition fd_used :: "'h fdtab \<Rightarrow> nat set" where
  "fd_used t = fst ` set t"

definition lowest_free :: "'h fdtab \<Rightarrow> nat" where
  "lowest_free t = hd (filter (\<lambda>n. n \<notin> fst ` set t) [0..<Suc (length t)])"

definition fd_open :: "'h fdtab \<Rightarrow> 'h \<Rightarrow> nat \<times> 'h fdtab" where
  "fd_open t h = (let n = lowest_free t in (n, (n, h) # t))"

definition fd_close :: "'h fdtab \<Rightarrow> nat \<Rightarrow> 'h fdtab" where
  "fd_close t n = filter (\<lambda>p. fst p \<noteq> n) t"

definition fd_get :: "'h fdtab \<Rightarrow> nat \<Rightarrow> 'h option" where
  "fd_get t n = map_of t n"

text \<open>\<open>dup2(old, new)\<close>: nothing happens when the two numbers are the same.\<close>

definition fd_dup2 :: "'h fdtab \<Rightarrow> nat \<Rightarrow> nat \<Rightarrow> 'h fdtab" where
  "fd_dup2 t old new =
     (case fd_get t old of
        None \<Rightarrow> t
      | Some h \<Rightarrow> if old = new then t else (new, h) # fd_close t new)"

lemma ex_free: "\<exists>n < Suc (length t). n \<notin> fst ` set (t :: 'h fdtab)"
proof (rule ccontr)
  assume "\<not> ?thesis"
  then have "{..<Suc (length t)} \<subseteq> fst ` set t" by auto
  then have "card {..<Suc (length t)} \<le> card (fst ` set t)"
    by (rule card_mono [rotated]) simp
  also have "\<dots> \<le> length t"
    using card_image_le [of "set t" fst] card_length [of t] by simp
  finally show False by simp
qed

lemma hd_filter_upt:
  "n < m \<Longrightarrow> P n \<Longrightarrow> (\<And>k. k < n \<Longrightarrow> \<not> P k) \<Longrightarrow> hd (filter P [0..<m]) = n"
proof -
  assume a: "n < m" "P n" "\<And>k. k < n \<Longrightarrow> \<not> P k"
  have "[0..<m] = [0..<n] @ n # [Suc n..<m]"
    using a(1) upt_add_eq_append [of 0 n "m - n"] upt_conv_Cons [of n m] by simp
  moreover have "filter P [0..<n] = []" using a(3) by (simp add: filter_empty_conv)
  ultimately show ?thesis using a(2) by simp
qed

lemma lowest_free_spec:
  "lowest_free t \<notin> fd_used t \<and> (\<forall>k < lowest_free t. k \<in> fd_used t)"
proof -
  let ?P = "\<lambda>n. n \<notin> fst ` set t"
  define n where "n = (LEAST n. ?P n)"
  obtain m where m: "m < Suc (length t)" "?P m" using ex_free by blast
  have n: "?P n" "\<And>k. k < n \<Longrightarrow> \<not> ?P k" "n \<le> m"
    unfolding n_def using m(2) LeastI [of ?P m] not_less_Least [of _ ?P] Least_le [of ?P m]
    by blast+
  with m have "lowest_free t = n"
    unfolding lowest_free_def by (intro hd_filter_upt) auto
  with n show ?thesis by (auto simp: fd_used_def)
qed

text \<open>
  What the users of a descriptor table rely on: a new descriptor was free, it is the
  lowest free one, and opening and closing change that one entry only.
\<close>

locale descriptor_table =
  fixes used :: "'t \<Rightarrow> nat set"
    and get :: "'t \<Rightarrow> nat \<Rightarrow> 'h option"
    and open_fd :: "'t \<Rightarrow> 'h \<Rightarrow> nat \<times> 't"
    and close_fd :: "'t \<Rightarrow> nat \<Rightarrow> 't"
  assumes open_fresh: "open_fd t h = (n, t') \<Longrightarrow> n \<notin> used t"
    and open_lowest: "open_fd t h = (n, t') \<Longrightarrow> k < n \<Longrightarrow> k \<in> used t"
    and used_open: "open_fd t h = (n, t') \<Longrightarrow> used t' = insert n (used t)"
    and get_open: "open_fd t h = (n, t') \<Longrightarrow> get t' m = (if m = n then Some h else get t m)"
    and used_close: "used (close_fd t n) = used t - {n}"
    and get_close: "get (close_fd t n) m = (if m = n then None else get t m)"
begin

lemma open_close: "open_fd t h = (n, t') \<Longrightarrow> used (close_fd t' n) = used t"
  using open_fresh used_open used_close by fastforce

lemma get_used_close_open:
  "open_fd t h = (n, t') \<Longrightarrow> m \<noteq> n \<Longrightarrow> get (close_fd t' n) m = get t m"
  by (simp add: get_close get_open)

text \<open>Two descriptors opened one after the other are different and increasing.\<close>

lemma open_increasing:
  "open_fd t h = (n, t') \<Longrightarrow> open_fd t' h' = (n', t'') \<Longrightarrow> n < n'"
proof -
  assume o: "open_fd t h = (n, t')" "open_fd t' h' = (n', t'')"
  have "n' \<notin> insert n (used t)" using o open_fresh used_open by blast
  then have "n' \<noteq> n" "n' \<notin> used t" by auto
  with o(1) show "n < n'" using open_lowest [of t h n t' n'] by (meson linorder_neqE_nat)
qed

end

interpretation fdt: descriptor_table fd_used fd_get fd_open fd_close
proof unfold_locales
  fix t t' :: "'h fdtab" and h n m k
  show "fd_used (fd_close t n) = fd_used t - {n}"
    by (auto simp: fd_used_def fd_close_def)
  show "fd_get (fd_close t n) m = (if m = n then None else fd_get t m)"
    by (induction t) (auto simp: fd_get_def fd_close_def)
  assume o: "fd_open t h = (n, t')"
  then have n: "n = lowest_free t" and t': "t' = (n, h) # t"
    by (auto simp: fd_open_def Let_def)
  show "n \<notin> fd_used t" using lowest_free_spec n by blast
  show "k < n \<Longrightarrow> k \<in> fd_used t" using lowest_free_spec [of t] n by blast
  show "fd_used t' = insert n (fd_used t)" by (simp add: t' fd_used_def)
  show "fd_get t' m = (if m = n then Some h else fd_get t m)" by (simp add: t' fd_get_def)
qed

lemma fd_get_used: "fd_get t n = None \<longleftrightarrow> n \<notin> fd_used t"
  by (simp add: fd_get_def fd_used_def map_of_eq_None_iff)

lemma fd_table_Cons [lib_simps]:
  "fd_used ((n, h) # t) = insert n (fd_used t)"
  "fd_close ((n, h) # t) m = (if n = m then fd_close t m else (n, h) # fd_close t m)"
  "fd_get ((n, h) # t) m = (if m = n then Some h else fd_get t m)"
  by (auto simp: fd_used_def fd_close_def fd_get_def)

lemma fd_close_unused: "n \<notin> fd_used t \<Longrightarrow> fd_close t n = t"
  by (force simp: fd_used_def fd_close_def filter_id_conv)

lemma fd_used_map: "set (map fst t) = fd_used t"
  by (simp add: fd_used_def)

section \<open>Pipes and FIFOs\<close>

text \<open>
  \<open>PIPE_CAP\<close> is the capacity of a Linux pipe, \<open>PIPE_BUF\<close> the largest write that is
  atomic: such a write waits until it fits and then enters the pipe as a whole.
\<close>

definition PIPE_CAP :: nat where
  "PIPE_CAP = 65536"

definition PIPE_BUF :: nat where
  "PIPE_BUF = 4096"

record kpipe =
  buffered :: bytes
  writers :: nat

text \<open>\<open>None\<close>: the call waits.\<close>

definition pipe_write :: "kpipe \<Rightarrow> bytes \<Rightarrow> kpipe option" where
  "pipe_write p xs =
     (if length (buffered p) + length xs \<le> PIPE_CAP
      then Some (p\<lparr>buffered := buffered p @ xs\<rparr>) else None)"

definition pipe_read :: "kpipe \<Rightarrow> nat \<Rightarrow> (bytes \<times> kpipe) option" where
  "pipe_read p n =
     (if buffered p = [] then (if writers p = 0 then Some ([], p) else None)
      else Some (take n (buffered p), p\<lparr>buffered := drop n (buffered p)\<rparr>))"

text \<open>
  A byte stream: what is written is appended, what is read comes off the front, and a
  read on a stream that holds bytes delivers at least one.
\<close>

locale byte_stream =
  fixes content :: "'c \<Rightarrow> bytes"
    and send :: "'c \<Rightarrow> bytes \<Rightarrow> 'c option"
    and recv :: "'c \<Rightarrow> nat \<Rightarrow> (bytes \<times> 'c) option"
  assumes write_content: "send c xs = Some c' \<Longrightarrow> content c' = content c @ xs"
    and read_content: "recv c n = Some (xs, c') \<Longrightarrow> content c = xs @ content c'"
    and read_length: "recv c n = Some (xs, c') \<Longrightarrow> length xs \<le> n"
    and read_nonempty: "recv c n = Some (xs, c') \<Longrightarrow> content c \<noteq> [] \<Longrightarrow> 0 < n \<Longrightarrow> xs \<noteq> []"
    and read_ready: "content c \<noteq> [] \<Longrightarrow> \<exists>xs c'. recv c n = Some (xs, c')"
begin

text \<open>Bytes sent are bytes received and bytes still on their way, in this order.\<close>

lemma write_order:
  "sent = received @ content c \<Longrightarrow> send c xs = Some c' \<Longrightarrow> sent @ xs = received @ content c'"
  by (simp add: write_content)

lemma read_order:
  "sent = received @ content c \<Longrightarrow> recv c n = Some (xs, c') \<Longrightarrow>
   sent = (received @ xs) @ content c'"
  using read_content by force

lemma read_shrinks:
  "recv c n = Some (xs, c') \<Longrightarrow> content c \<noteq> [] \<Longrightarrow> 0 < n \<Longrightarrow>
   length (content c') < length (content c)"
  using read_content [of c n xs c'] read_nonempty [of c n xs c'] by (cases xs) auto

end

interpretation pipe: byte_stream buffered pipe_write pipe_read
  by unfold_locales (auto simp: pipe_write_def pipe_read_def split: if_splits)

lemma pipe_read_all:
  "buffered p \<noteq> [] \<Longrightarrow> length (buffered p) \<le> n \<Longrightarrow>
   pipe_read p n = Some (buffered p, p\<lparr>buffered := []\<rparr>)"
  by (simp add: pipe_read_def)

lemma pipe_read_eof: "pipe_read p n = Some ([], p') \<Longrightarrow> 0 < n \<Longrightarrow> buffered p = [] \<and> writers p = 0"
  by (auto simp: pipe_read_def split: if_splits)

lemma pipe_write_fits:
  "length (buffered p) + length xs \<le> PIPE_CAP \<Longrightarrow>
   pipe_write p xs = Some (p\<lparr>buffered := buffered p @ xs\<rparr>)"
  by (simp add: pipe_write_def)

lemma pipe_writers:
  "pipe_write p xs = Some p' \<Longrightarrow> writers p' = writers p"
  "pipe_read p n = Some (ys, p'') \<Longrightarrow> writers p'' = writers p"
  by (auto simp: pipe_write_def pipe_read_def split: if_splits)

text \<open>The two calls, seen on the bounded channel of bytes that a pipe is.\<close>

lemma pipe_write_channel:
  assumes "pipe_write p xs = Some p'" "xs \<noteq> []" "unsent c = xs @ ys" "travelling c = buffered p"
  shows "chan_step PIPE_CAP c (c\<lparr>unsent := ys, travelling := buffered p'\<rparr>)"
proof -
  have "length (buffered p) + length xs \<le> PIPE_CAP" "buffered p' = buffered p @ xs"
    using assms(1) by (auto simp: pipe_write_def split: if_splits)
  then show ?thesis using chan_step.send [OF assms(3,2)] assms(4) by simp
qed

lemma pipe_read_channel:
  assumes "pipe_read p n = Some (xs, p')" "xs \<noteq> []" "travelling c = buffered p"
  shows "chan_step PIPE_CAP c (c\<lparr>travelling := buffered p', arrived := arrived c @ xs\<rparr>)"
  by (rule chan_step.receive) (use assms pipe.read_content [OF assms(1)] in simp_all)

end
