(* ===== verification/ShellParse.thy ===== *)
theory ShellParse
  imports Kernel
begin

text \<open>
  The parser of the shell wrapper \<open>task_1/Tyazhelkov/cmdline.c\<close>: \<open>parse_cmd\<close> cuts one
  command into arguments, \<open>parse_cmdline\<close> cuts a line into commands.  Both are proved
  equal to a reference on lists (\<open>split_bar\<close>, \<open>tokens\<close>), and the lines that are rendered
  from commands with blanks around every bar are parsed back.
\<close>

section \<open>Arrays of pointers\<close>

text \<open>
  A block of pointers as \<open>malloc\<close> hands it out: \<open>Undef\<close> is a slot that was never
  written, \<open>Null\<close> a null pointer, \<open>Ptr x\<close> a pointer to \<open>x\<close>.  What a fresh block holds
  is not determined, so it is a parameter of the functions that allocate one.
\<close>

datatype 'a slot = Undef | Null | Ptr 'a

type_synonym 'a block = "nat \<Rightarrow> 'a slot"

definition MAX_NUM_OF_TOKENS :: nat where
  "MAX_NUM_OF_TOKENS = 2097152"

definition MAX_STR_LEN :: nat where
  "MAX_STR_LEN = 2097152"

definition MAX_NUM_OF_CMD :: nat where
  "MAX_NUM_OF_CMD = 2097152"

lemmas max_defs = MAX_NUM_OF_TOKENS_def MAX_STR_LEN_def MAX_NUM_OF_CMD_def

definition store :: "'a block \<Rightarrow> nat \<Rightarrow> 'a \<Rightarrow> 'a block" where
  "store a i x = a(i := Ptr x)"

lemma store_nth: "store a i x j = (if j = i then Ptr x else a j)"
  by (simp add: store_def)

text \<open>The block \<open>a\<close> after the pointers \<open>xs\<close> were stored from index \<open>i\<close> on.\<close>

fun fill :: "'a block \<Rightarrow> nat \<Rightarrow> 'a list \<Rightarrow> 'a block" where
  "fill a i [] = a"
| "fill a i (x # xs) = fill (store a i x) (Suc i) xs"

lemma fill_nth:
  "fill a i xs j = (if i \<le> j \<and> j < i + length xs then Ptr (xs ! (j - i)) else a j)"
proof (induction xs arbitrary: a i)
  case Nil
  then show ?case by auto
next
  case (Cons x xs)
  have "\<And>k. j - i = Suc k \<Longrightarrow> j - Suc i = k" by simp
  with Cons show ?case by (auto simp: store_nth nth_Cons split: nat.splits)
qed

section \<open>Parsing\<close>

text \<open>
  \<open>parse_cmd\<close>: the loop over \<open>strtok\<close>; each argument is copied and stored at the next
  index of the array.  No null pointer is stored after the last one.
\<close>

function parse_cmd_loop :: "string \<Rightarrow> nat \<Rightarrow> string block \<Rightarrow> string block result" where
  "parse_cmd_loop cmd i a =
     (case strtok '' '' cmd of
        None \<Rightarrow> Inr a
      | Some (arg, cmd') \<Rightarrow>
          if i < MAX_NUM_OF_TOKENS then parse_cmd_loop cmd' (Suc i) (store a i arg)
          else Inl OutOfBounds)"
  by pat_completeness auto
termination
  by (relation "measure (\<lambda>(cmd, i, a). length cmd)") (auto dest: strtok_decreases)

declare parse_cmd_loop.simps [simp del]

definition parse_cmd :: "string block \<Rightarrow> string \<Rightarrow> string block result" where
  "parse_cmd fresh cmd = parse_cmd_loop cmd 0 fresh"

lemma parse_cmd_loop_tokens:
  "i + length (tokens '' '' cmd) \<le> MAX_NUM_OF_TOKENS \<Longrightarrow>
   parse_cmd_loop cmd i a = Inr (fill a i (tokens '' '' cmd))"
proof (induction cmd i a rule: parse_cmd_loop.induct)
  case (1 cmd i a)
  show ?case
  proof (cases "strtok '' '' cmd")
    case None
    then show ?thesis by (simp add: parse_cmd_loop.simps tokens_None)
  next
    case (Some p)
    then obtain t r where "strtok '' '' cmd = Some (t, r)" by (cases p) auto
    with 1 show ?thesis by (simp add: parse_cmd_loop.simps [of cmd] tokens_Some)
  qed
qed

lemma parse_cmd_tokens:
  "length cmd \<le> MAX_STR_LEN \<Longrightarrow> parse_cmd fresh cmd = Inr (fill fresh 0 (tokens '' '' cmd))"
  using length_tokens [of "'' ''" cmd]
  by (simp add: parse_cmd_def parse_cmd_loop_tokens max_defs)

text \<open>
  \<open>parse_cmdline\<close>: \<open>cmdline\<close> is the C string, so reading it at its length gives the
  NUL byte.  \<open>cmd_len\<close> is an \<open>int\<close>; when it is negative, \<open>strncpy\<close> gets it as a huge
  \<open>size_t\<close> and the store at \<open>cmds[num_of_cmd][cmd_len]\<close> is before the block.
\<close>

definition char_at :: "string \<Rightarrow> nat \<Rightarrow> char" where
  "char_at s i = (if i < length s then s ! i else NUL)"

function parse_cmdline_loop ::
  "string block \<Rightarrow> string \<Rightarrow> nat \<Rightarrow> nat \<Rightarrow> nat \<Rightarrow> string block block \<Rightarrow>
   string block block result" where
  "parse_cmdline_loop fresh cmdline i num_of_cmd prev_cmd_offset cmd_array =
     (if length cmdline < i then Inl OutOfBounds
      else if char_at cmdline i = CHR ''|'' \<or> char_at cmdline i = NUL
      then (let cmd_len = int i - int prev_cmd_offset
            in if cmd_len < 0 then Inl NegativeSize
               else if MAX_NUM_OF_CMD \<le> num_of_cmd \<or> MAX_STR_LEN \<le> nat cmd_len
               then Inl OutOfBounds
               else bindS
                 (parse_cmd fresh (take (nat cmd_len) (drop prev_cmd_offset cmdline)))
                 (\<lambda>args.
                    let cmd_array' = store cmd_array num_of_cmd args;
                        offset' = (if char_at cmdline i = CHR ''|''
                                   then prev_cmd_offset + 2 else prev_cmd_offset) + nat cmd_len
                    in if char_at cmdline i = NUL then Inr cmd_array'
                       else parse_cmdline_loop fresh cmdline (Suc i) (Suc num_of_cmd)
                              offset' cmd_array'))
      else parse_cmdline_loop fresh cmdline (Suc i) num_of_cmd prev_cmd_offset cmd_array)"
  by pat_completeness auto
termination
  by (relation "measure (\<lambda>(fresh, cmdline, i, _). Suc (length cmdline) - i)") auto

declare parse_cmdline_loop.simps [simp del]

definition parse_cmdline ::
  "string block block \<Rightarrow> string block \<Rightarrow> string \<Rightarrow> string block block result" where
  "parse_cmdline fresh_cmds fresh cmdline = parse_cmdline_loop fresh cmdline 0 0 0 fresh_cmds"

section \<open>What the parser computes\<close>

text \<open>The reference: the line cut at every bar; of every part but the first one character
  is dropped, then each part is cut into words.\<close>

fun split_bar :: "string \<Rightarrow> string list" where
  "split_bar [] = [[]]"
| "split_bar (c # s) =
     (if c = CHR ''|'' then [] # split_bar s
      else (c # hd (split_bar s)) # tl (split_bar s))"

definition cmd_texts :: "string \<Rightarrow> string list" where
  "cmd_texts s = hd (split_bar s) # map tl (tl (split_bar s))"

definition cmd_words :: "string \<Rightarrow> string list list" where
  "cmd_words s = map (tokens '' '') (cmd_texts s)"

lemma split_bar_ne [simp]: "split_bar s \<noteq> []"
  by (cases s) auto

lemma length_hd_split_bar: "length (hd (split_bar s)) \<le> length s"
  by (induction s) auto

text \<open>The result for the text \<open>w\<close> of the current command and the parts \<open>ws\<close> that follow.\<close>

definition outcome ::
  "string block \<Rightarrow> string block block \<Rightarrow> nat \<Rightarrow> string \<Rightarrow> string list \<Rightarrow> string block block result" where
  "outcome fresh arr num w ws =
     (if [] \<in> set ws then Inl NegativeSize
      else Inr (fill arr num (map (\<lambda>t. fill fresh 0 (tokens '' '' t)) (w # map tl ws))))"

lemma outcome_Cons:
  "outcome fresh arr num w (v # vs) =
   (if v = [] then Inl NegativeSize
    else outcome fresh (store arr num (fill fresh 0 (tokens '' '' w))) (Suc num) (tl v) vs)"
  by (auto simp: outcome_def)

text \<open>One round of the loop: at an ordinary character, at the end, at a bar.\<close>

lemma parse_cmdline_loop_skip:
  assumes "i < length s" "s ! i \<noteq> CHR ''|''" "s ! i \<noteq> NUL"
  shows "parse_cmdline_loop fresh s i num prev arr = parse_cmdline_loop fresh s (Suc i) num prev arr"
  using assms by (subst parse_cmdline_loop.simps) (simp add: char_at_def)

lemma parse_cmdline_loop_neg:
  assumes "i \<le> length s" "char_at s i = CHR ''|'' \<or> char_at s i = NUL"
  shows "parse_cmdline_loop fresh s i num (Suc i) arr = Inl NegativeSize"
  using assms by (subst parse_cmdline_loop.simps) simp

lemma parse_cmdline_loop_stop:
  assumes "prev \<le> length s" "num \<le> length s" "length s < MAX_STR_LEN"
  shows "parse_cmdline_loop fresh s (length s) num prev arr =
    Inr (store arr num (fill fresh 0 (tokens '' '' (drop prev s))))"
  using assms
  by (subst parse_cmdline_loop.simps)
    (simp add: parse_cmd_tokens max_defs char_at_def Let_def)

lemma parse_cmdline_loop_bar:
  assumes "i < length s" "s ! i = CHR ''|''" "prev \<le> i" "num \<le> i" "length s < MAX_STR_LEN"
  shows "parse_cmdline_loop fresh s i num prev arr =
    parse_cmdline_loop fresh s (Suc i) (Suc num) (Suc (Suc i))
      (store arr num (fill fresh 0 (tokens '' '' (take (i - prev) (drop prev s)))))"
proof -
  have n: "nat (int i - int prev) = i - prev" by simp
  have c: "(MAX_STR_LEN \<le> i - prev) = False" "(MAX_NUM_OF_CMD \<le> num) = False"
    using assms by (simp_all add: max_defs)
  have "Suc (Suc (prev + (i - prev))) = Suc (Suc i)" using assms by simp
  with assms show ?thesis
    by (subst parse_cmdline_loop.simps) (simp add: n c parse_cmd_tokens char_at_def Let_def)
qed

text \<open>The two shapes in which the loop stands: the current command began at or before
  \<open>i\<close>, or it begins right after \<open>i\<close> because the last character was a bar.\<close>

lemma parse_cmdline_loop_eq:
  assumes "NUL \<notin> set s" "length s < MAX_STR_LEN"
  shows "i \<le> length s \<Longrightarrow> num \<le> i \<Longrightarrow>
    (prev \<le> i \<longrightarrow>
      parse_cmdline_loop fresh s i num prev arr =
        outcome fresh arr num (take (i - prev) (drop prev s) @ hd (split_bar (drop i s)))
          (tl (split_bar (drop i s)))) \<and>
    parse_cmdline_loop fresh s i num (Suc i) arr =
      (if hd (split_bar (drop i s)) = [] then Inl NegativeSize
       else outcome fresh arr num (tl (hd (split_bar (drop i s)))) (tl (split_bar (drop i s))))"
proof (induction "length s - i" arbitrary: i num prev arr)
  case 0
  then have "i = length s" by simp
  with 0 assms show ?case
    by (simp add: parse_cmdline_loop_stop parse_cmdline_loop_neg char_at_def outcome_def)
next
  case (Suc n)
  then have i: "i < length s" and n: "n = length s - Suc i" by simp_all
  let ?sb = "split_bar (drop (Suc i) s)"
  obtain v vs where sb: "?sb = v # vs" by (cases ?sb) auto
  have d: "drop i s = s ! i # drop (Suc i) s" using i by (simp add: Cons_nth_drop_Suc)
  have no: "s ! i \<noteq> NUL" using i assms(1) by (auto simp: in_set_conv_nth)
  have IH: "\<And>num prev arr. num \<le> Suc i \<Longrightarrow> prev \<le> Suc i \<Longrightarrow>
      parse_cmdline_loop fresh s (Suc i) num prev arr =
        outcome fresh arr num (take (Suc i - prev) (drop prev s) @ v) vs"
    and IH': "\<And>num arr. num \<le> Suc i \<Longrightarrow>
      parse_cmdline_loop fresh s (Suc i) num (Suc (Suc i)) arr =
        (if v = [] then Inl NegativeSize else outcome fresh arr num (tl v) vs)"
    using Suc.hyps(1) [OF n] i sb by auto
  show ?case
  proof (cases "s ! i = CHR ''|''")
    case True
    with i have "char_at s i = CHR ''|''" by (simp add: char_at_def)
    with True i Suc.prems assms(2) show ?thesis
      by (simp add: d sb parse_cmdline_loop_bar parse_cmdline_loop_neg IH' outcome_Cons)
  next
    case False
    have "prev \<le> i \<Longrightarrow> take (Suc i - prev) (drop prev s) = take (i - prev) (drop prev s) @ [s ! i]"
      using i by (simp add: Suc_diff_le take_Suc_conv_app_nth)
    with False no i Suc.prems show ?thesis
      by (simp add: d sb parse_cmdline_loop_skip IH)
  qed
qed

lemma parse_cmdline_outcome:
  assumes "NUL \<notin> set s" "length s < MAX_STR_LEN"
  shows "parse_cmdline fresh_cmds fresh s =
    outcome fresh fresh_cmds 0 (hd (split_bar s)) (tl (split_bar s))"
  using parse_cmdline_loop_eq [OF assms, of 0 0 0] by (simp add: parse_cmdline_def)

lemma parse_cmdline_ok:
  assumes "NUL \<notin> set s" "length s < MAX_STR_LEN" "[] \<notin> set (tl (split_bar s))"
  shows "parse_cmdline fresh_cmds fresh s =
    Inr (fill fresh_cmds 0 (map (fill fresh 0) (cmd_words s)))"
  using parse_cmdline_outcome [OF assms(1,2)] assms(3)
  by (simp add: outcome_def cmd_words_def cmd_texts_def comp_def)

section \<open>Properties\<close>

text \<open>
  C3. For every line, \<open>parse_cmdline\<close> computes the reference: it fails exactly when a bar
  is followed at once by another bar or by the end of the line, and otherwise it stores
  one argument array per command, where every command but the first has lost the
  character after its bar.
\<close>

theorem parse_cmdline_spec:
  assumes "NUL \<notin> set s" "length s < MAX_STR_LEN"
  shows "parse_cmdline fresh_cmds fresh s =
    (if [] \<in> set (tl (split_bar s)) then Inl NegativeSize
     else Inr (fill fresh_cmds 0 (map (fill fresh 0) (cmd_words s))))"
  using parse_cmdline_outcome [OF assms]
  by (simp add: outcome_def cmd_words_def cmd_texts_def comp_def)

theorem parse_cmdline_spec_witness:
  "parse_cmdline (\<lambda>_. Null) (\<lambda>_. Null) ''ls -l|| wc'' = Inl NegativeSize"
  using parse_cmdline_spec [of "''ls -l|| wc''" "\<lambda>_. Null" "\<lambda>_. Null"]
  by (simp add: max_defs)

text \<open>Printing commands the way the parser wants them.\<close>

fun join :: "string \<Rightarrow> string list \<Rightarrow> string" where
  "join sep [] = []"
| "join sep [w] = w"
| "join sep (w # ws) = w @ sep @ join sep ws"

definition render :: "string list list \<Rightarrow> string" where
  "render cmds = join '' | '' (map (join '' '') cmds)"

definition word :: "string \<Rightarrow> bool" where
  "word w \<longleftrightarrow> w \<noteq> [] \<and> set w \<inter> {CHR '' '', CHR ''|'', NUL} = {}"

lemma set_join: "set (join sep ws) \<subseteq> set sep \<union> \<Union> (set ` set ws)"
  by (induction sep ws rule: join.induct) auto

lemma join_words_clean:
  "\<forall>w \<in> set ws. word w \<Longrightarrow> CHR ''|'' \<notin> set (join '' '' ws) \<and> NUL \<notin> set (join '' '' ws)"
  using set_join [of "'' ''" ws] by (auto simp: word_def)

lemma tokens_join:
  "\<forall>w \<in> set ws. word w \<Longrightarrow> s = [] \<or> hd s = CHR '' '' \<Longrightarrow>
   tokens '' '' (join '' '' ws @ s) = ws @ tokens '' '' s"
  by (induction "'' ''" ws rule: join.induct) (auto simp: tokens_word word_def)

lemma split_bar_plain: "CHR ''|'' \<notin> set w \<Longrightarrow> split_bar w = [w]"
  by (induction w) auto

lemma split_bar_append: "CHR ''|'' \<notin> set w \<Longrightarrow> split_bar (w @ CHR ''|'' # s) = w # split_bar s"
  by (induction w) auto

lemma render_step:
  "render (c # c' # cs) = (join '' '' c @ '' '') @ CHR ''|'' # CHR '' '' # render (c' # cs)"
  by (simp add: render_def)

lemma cmd_words_render:
  "cmds \<noteq> [] \<Longrightarrow> \<forall>c \<in> set cmds. \<forall>w \<in> set c. word w \<Longrightarrow>
   cmd_words (render cmds) = cmds \<and> [] \<notin> set (tl (split_bar (render cmds)))"
proof (induction cmds rule: induct_list012)
  case (2 c)
  then show ?case
    using join_words_clean [of c] tokens_join [of c "[]"]
    by (simp add: render_def cmd_words_def cmd_texts_def split_bar_plain)
next
  case (3 c c' cs)
  then have IH: "cmd_words (render (c' # cs)) = c' # cs"
    "[] \<notin> set (tl (split_bar (render (c' # cs))))" by auto
  have "tokens '' '' (join '' '' c @ '' '') = c"
    using "3.prems" tokens_join [of c "'' ''"] by simp
  moreover have "CHR ''|'' \<notin> set (join '' '' c @ '' '')"
    using "3.prems" join_words_clean [of c] by simp
  then have "split_bar (render (c # c' # cs)) =
      (join '' '' c @ '' '') # split_bar (CHR '' '' # render (c' # cs))"
    unfolding render_step by (rule split_bar_append)
  ultimately show ?case
    using IH by (simp add: cmd_words_def cmd_texts_def)
qed simp

lemma NUL_notin_render:
  "\<forall>c \<in> set cmds. \<forall>w \<in> set c. word w \<Longrightarrow> NUL \<notin> set (render cmds)"
  using set_join [of "'' | ''" "map (join '' '') cmds"] join_words_clean
  by (auto simp: render_def)

text \<open>
  C4. Round trip: commands printed with one blank between the words and a bar between
  blanks are read back as the same words, one array per command.
\<close>

theorem parse_render:
  assumes "cmds \<noteq> []" "\<forall>c \<in> set cmds. \<forall>w \<in> set c. word w"
    and "length (render cmds) < MAX_STR_LEN"
  shows "parse_cmdline fresh_cmds fresh (render cmds) =
    Inr (fill fresh_cmds 0 (map (fill fresh 0) cmds))"
  using cmd_words_render [OF assms(1,2)] NUL_notin_render [OF assms(2)] assms(3)
  by (simp add: parse_cmdline_ok)

theorem parse_render_witness:
  "parse_cmdline (\<lambda>_. Null) (\<lambda>_. Null) ''env | grep HOSTNAME | wc'' =
    Inr (fill (\<lambda>_. Null) 0
      (map (fill (\<lambda>_. Null) 0) [[''env''], [''grep'', ''HOSTNAME''], [''wc'']]))"
  using parse_render [of "[[''env''], [''grep'', ''HOSTNAME''], [''wc'']]"]
  by (simp add: render_def word_def max_defs)

text \<open>
  The parser takes a blank after the bar for granted: without one, the first
  character of the next command is lost.
\<close>

theorem parse_without_blank:
  assumes "set u \<inter> {CHR ''|'', NUL} = {}" "set (c # v) \<inter> {CHR ''|'', NUL} = {}"
    and "length (u @ ''|'' @ c # v) < MAX_STR_LEN"
  shows "parse_cmdline fresh_cmds fresh (u @ ''|'' @ c # v) =
    Inr (fill fresh_cmds 0 (map (fill fresh 0) [tokens '' '' u, tokens '' '' v]))"
proof -
  have "split_bar (u @ ''|'' @ c # v) = [u, c # v]"
    using assms by (auto simp: split_bar_append split_bar_plain)
  moreover have "NUL \<notin> set (u @ ''|'' @ c # v)" using assms by auto
  ultimately show ?thesis
    using assms(3) parse_cmdline_outcome [of "u @ ''|'' @ c # v"] by (simp add: outcome_def)
qed

theorem parse_without_blank_witness:
  "parse_cmdline (\<lambda>_. Null) (\<lambda>_. Null) ''ls|wc'' =
    Inr (fill (\<lambda>_. Null) 0 (map (fill (\<lambda>_. Null) 0) [[''ls''], [''c'']]))"
  using parse_without_blank [of "''ls''" "CHR ''w''" "''c''"]
    tokens_word [of "''ls''" "'' ''" "[]"] tokens_word [of "''c''" "'' ''" "[]"]
  by (simp add: max_defs)

end
