(* ===== verification/ShellRun.thy ===== *)
theory ShellRun
  imports ShellParse
begin

text \<open>
  The execution half of \<open>task_1/Tyazhelkov/cmdline.c\<close>: \<open>seq_pipe\<close> forks one child per
  command, wires neighbours together with a pipe and waits for each child before it
  starts the next; \<open>main\<close> reads lines and runs them until a fault.  The programs that
  are executed are a parameter: for an argument vector, what the program does with its
  standard input and writes to its standard output, \<open>None\<close> when \<open>execvp\<close> fails.  The shell
  and the first command of a line read the same terminal.
\<close>

section \<open>State\<close>

datatype handle = TtyIn | TtyOut | PipeR nat | PipeW nat

text \<open>
  \<open>tty\<close> is what the terminal will deliver: one element for every \<open>read\<close>, in canonical mode a
  typed line with its newline, the empty list for the end-of-file key.  After the last
  element every \<open>read\<close> finds the end of the file.
\<close>

record shell =
  tab :: "handle fdtab"
  pipes :: "nat \<Rightarrow> kpipe"
  npipes :: nat
  screen :: bytes
  tty :: "bytes list"

text \<open>
  A program that does not look at its standard input, or one that reads it to the end of
  the file.  The world around the shell: the programs, the number of descriptors a process
  may have, and whether the fork for the \<open>i\<close>-th command of a line succeeds.
\<close>

datatype program = Source bytes | Filter "bytes \<Rightarrow> bytes"

record world =
  exec :: "string list \<Rightarrow> program option"
  nofile :: nat
  fork_ok :: "nat \<Rightarrow> bool"

section \<open>Reading an argument vector\<close>

text \<open>\<open>execvp\<close> reads the array up to its null pointer.\<close>

function argv_from :: "string block \<Rightarrow> nat \<Rightarrow> string list result" where
  "argv_from a i =
     (if MAX_NUM_OF_TOKENS \<le> i then Inl OutOfBounds
      else case a i of
        Undef \<Rightarrow> Inl ReadUndef
      | Null \<Rightarrow> Inr []
      | Ptr s \<Rightarrow> bindS (argv_from a (Suc i)) (\<lambda>ss. Inr (s # ss)))"
  by pat_completeness auto
termination
  by (relation "measure (\<lambda>(a, i). MAX_NUM_OF_TOKENS - i)") auto

declare argv_from.simps [simp del]

section \<open>One child\<close>

definition write_ends :: "nat \<Rightarrow> handle fdtab \<Rightarrow> nat" where
  "write_ends k t = length (filter (\<lambda>p. snd p = PipeW k) t)"

text \<open>Reading the terminal up to the end of the file: what was read and what is left.\<close>

fun read_all :: "bytes list \<Rightarrow> bytes \<times> bytes list" where
  "read_all [] = ([], [])"
| "read_all (d # ds) =
     (if d = [] then ([], ds) else let (x, rest) = read_all ds in (d @ x, rest))"

text \<open>
  A filter reads its standard input to the end of the file.  On a pipe this ends only
  when no process holds a write end: neither the shell nor the child itself.  On the
  terminal it takes the lines from the shell.
\<close>

definition child_input :: "shell \<Rightarrow> handle fdtab \<Rightarrow> (bytes \<times> shell) result" where
  "child_input s t =
     (case fd_get t 0 of
        Some TtyIn \<Rightarrow> (let (x, rest) = read_all (tty s) in Inr (x, s\<lparr>tty := rest\<rparr>))
      | Some (PipeR k) \<Rightarrow>
          if write_ends k (tab s) + write_ends k t = 0 then Inr (buffered (pipes s k), s)
          else Inl Blocked
      | _ \<Rightarrow> Inr ([], s))"

text \<open>
  Its output goes to descriptor 1.  While the child writes, the shell waits for it, so
  nobody empties the pipe and what does not fit blocks both for ever.
\<close>

definition child_output :: "shell \<Rightarrow> handle fdtab \<Rightarrow> bytes \<Rightarrow> shell result" where
  "child_output s t out =
     (case fd_get t 1 of
        Some TtyOut \<Rightarrow> Inr (s\<lparr>screen := screen s @ out\<rparr>)
      | Some (PipeW k) \<Rightarrow>
          (case pipe_write (pipes s k) out of
             None \<Rightarrow> Inl Blocked
           | Some p \<Rightarrow> Inr (s\<lparr>pipes := (pipes s)(k := p)\<rparr>))
      | _ \<Rightarrow> Inr s)"

definition run_program :: "world \<Rightarrow> string list \<Rightarrow> program option" where
  "run_program w argv = (if argv = [] then None else exec w argv)"

definition child_program :: "shell \<Rightarrow> handle fdtab \<Rightarrow> program \<Rightarrow> shell result" where
  "child_program s t p =
     (case p of
        Source out \<Rightarrow> child_output s t out
      | Filter f \<Rightarrow> bindS (child_input s t) (\<lambda>(input, s'). child_output s' t (f input)))"

text \<open>
  The child's part of the loop body: it works on a copy of the shell's descriptor table.
  After a failed \<open>execvp\<close> it exits with status 2 and writes nothing.
\<close>

definition child_fds ::
  "handle fdtab \<Rightarrow> nat \<Rightarrow> nat \<Rightarrow> nat \<Rightarrow> nat \<Rightarrow> bool \<Rightarrow> handle fdtab" where
  "child_fds t i fd_in p0 p1 has_next =
     (let t1 = (if 0 < i then fd_dup2 t fd_in 0 else t);
          t2 = (if has_next then fd_dup2 t1 p1 1 else t1)
      in fd_close t2 p0)"

definition run_child ::
  "world \<Rightarrow> shell \<Rightarrow> nat \<Rightarrow> string block \<Rightarrow> string block slot \<Rightarrow> nat \<Rightarrow> nat \<Rightarrow> nat \<Rightarrow>
   shell result" where
  "run_child w s i args next fd_in p0 p1 =
     (if next = Undef then Inl ReadUndef
      else let t = child_fds (tab s) i fd_in p0 p1 (next \<noteq> Null)
           in bindS (argv_from args 0) (\<lambda>argv.
              case run_program w argv of
                None \<Rightarrow> Inr s
              | Some p \<Rightarrow> child_program s t p))"

section \<open>The loop over the commands\<close>

text \<open>
  \<open>pipe(p)\<close>: a new pipe with its read end and then its write end on the two lowest
  free descriptors.  Its result is ignored: when no two descriptors are left, \<open>p\<close> keeps
  what it held (\<open>None\<close>: nothing was ever stored in it).
\<close>

definition make_pipe :: "world \<Rightarrow> (nat \<times> nat) option \<Rightarrow> shell \<Rightarrow> (nat \<times> nat) option \<times> shell" where
  "make_pipe w p s =
     (if nofile w < length (tab s) + 2 then (p, s)
      else let k = npipes s;
               (p0, t0) = fd_open (tab s) (PipeR k);
               (p1, t1) = fd_open t0 (PipeW k)
           in (Some (p0, p1), s\<lparr>tab := t1, npipes := Suc k,
                     pipes := (pipes s)(k := \<lparr>buffered = [], writers = 1\<rparr>)\<rparr>))"

definition parent_close :: "shell \<Rightarrow> nat \<Rightarrow> nat \<Rightarrow> nat \<Rightarrow> shell" where
  "parent_close s i fd_in p1 =
     (let t = fd_close (tab s) p1
      in s\<lparr>tab := (if 0 < i then fd_close t fd_in else t)\<rparr>)"

function seq_pipe_loop ::
  "world \<Rightarrow> string block block \<Rightarrow> shell \<Rightarrow> nat \<Rightarrow> nat \<Rightarrow> (nat \<times> nat) option \<Rightarrow>
   shell result" where
  "seq_pipe_loop w cmd s i fd_in p =
     (if MAX_NUM_OF_CMD \<le> i then Inl OutOfBounds
      else case cmd i of
        Undef \<Rightarrow> Inl ReadUndef
      | Null \<Rightarrow> Inr s
      | Ptr args \<Rightarrow>
          if \<not> fork_ok w i then Inl Aborted
          else if MAX_NUM_OF_CMD \<le> Suc i then Inl OutOfBounds
          else case make_pipe w p s of
            (None, s1) \<Rightarrow> Inl ReadUndef
          | (Some (p0, p1), s1) \<Rightarrow>
              bindS (run_child w s1 i args (cmd (Suc i)) fd_in p0 p1) (\<lambda>s2.
                seq_pipe_loop w cmd (parent_close s2 i fd_in p1) (Suc i) p0 (Some (p0, p1))))"
  by pat_completeness auto
termination
  by (relation "measure (\<lambda>(w, cmd, s, i, fd_in, p). MAX_NUM_OF_CMD - i)") auto

declare seq_pipe_loop.simps [simp del]

definition seq_pipe :: "world \<Rightarrow> string block block \<Rightarrow> shell \<Rightarrow> shell result" where
  "seq_pipe w cmd s = seq_pipe_loop w cmd s 0 0 None"

section \<open>The main loop\<close>

text \<open>
  \<open>fgets (str, MAX_NUM_OF_TOKENS, stdin)\<close>: up to and including the next newline, one
  byte less than the size at most, from the buffer of \<open>stdin\<close>, which is refilled from the
  terminal as long as it holds no newline.  \<open>strchr\<close> then looks for the newline in \<open>str\<close>;
  there is none at the end of the input, on a last line without one and on a line that is
  too long, and the store through the null pointer is the fault.  At the end of the input
  \<open>fgets\<close> stores nothing and \<open>str\<close> is what the stack holds there, in practice the line before
  with its newline overwritten; it is taken to hold no newline.
\<close>

fun fgets :: "nat \<Rightarrow> bytes \<Rightarrow> bytes list \<Rightarrow> bytes \<times> bytes \<times> bytes list" where
  "fgets n buf [] =
     (let l = takeWhile (\<lambda>c. c \<noteq> CHR 0x0A) buf; m = min (n - 1) (Suc (length l))
      in (take m buf, drop m buf, []))"
| "fgets n buf (d # ds) =
     (let l = takeWhile (\<lambda>c. c \<noteq> CHR 0x0A) buf; m = min (n - 1) (Suc (length l))
      in if length l < length buf \<or> n - 1 \<le> length l then (take m buf, drop m buf, d # ds)
         else if d = [] then (buf, [], ds)
         else fgets n (buf @ d) ds)"

definition read_line :: "bytes \<Rightarrow> bytes list \<Rightarrow> (string \<times> bytes \<times> bytes list) result" where
  "read_line buf ds =
     (let (str, rest) = fgets MAX_NUM_OF_TOKENS buf ds
      in if CHR 0x0A \<in> set (cstr str)
         then Inr (takeWhile (\<lambda>c. c \<noteq> CHR 0x0A) (cstr str), rest)
         else Inl NullDeref)"

text \<open>What is still to be read gets shorter with every line, and no command makes it longer.\<close>

lemma fgets_split:
  "fgets n buf ds = (str, buf', ds') \<Longrightarrow> length str + length buf' + length (concat ds') = length buf + length (concat ds)"
  by (induction n buf ds rule: fgets.induct) (auto simp: Let_def split: if_splits)

lemma read_line_decreases:
  assumes "read_line buf ds = Inr (l, buf', ds')"
  shows "length buf' + length (concat ds') < length buf + length (concat ds)"
proof -
  obtain str where f: "fgets MAX_NUM_OF_TOKENS buf ds = (str, buf', ds')" and "CHR 0x0A \<in> set (cstr str)"
    using assms by (auto simp: read_line_def split: prod.splits if_splits)
  then have "str \<noteq> []" by (auto simp: cstr_def)
  with fgets_split [OF f] show ?thesis by (cases str) simp_all
qed

lemma read_all_shorter: "read_all ds = (x, rest) \<Longrightarrow> length (concat rest) \<le> length (concat ds)"
  by (induction ds arbitrary: x) (fastforce simp: Let_def split: if_splits prod.splits)+

lemma child_output_tty: "child_output s t out = Inr s' \<Longrightarrow> tty s' = tty s"
  by (auto simp: child_output_def split: option.splits handle.splits)

lemma child_input_tty: "child_input s t = Inr (x, s') \<Longrightarrow> length (concat (tty s')) \<le> length (concat (tty s))"
  by (auto simp: child_input_def Let_def dest: read_all_shorter
      split: option.splits handle.splits if_splits prod.splits)

lemma run_child_tty:
  "run_child w s i args nxt fd_in p0 p1 = Inr s' \<Longrightarrow> length (concat (tty s')) \<le> length (concat (tty s))"
  by (auto simp: run_child_def child_program_def bindS_def Let_def dest!: child_output_tty child_input_tty
      split: if_splits sum.splits option.splits program.splits prod.splits)

lemma seq_pipe_loop_tty:
  "seq_pipe_loop w cmd s i fd_in p = Inr s' \<Longrightarrow> length (concat (tty s')) \<le> length (concat (tty s))"
proof (induction w cmd s i fd_in p arbitrary: s' rule: seq_pipe_loop.induct)
  case (1 w cmd s i fd_in p)
  note step = 1(2) [unfolded seq_pipe_loop.simps [of w cmd s]]
  show ?case
  proof (cases "cmd i")
    case (Ptr args)
    then have nb: "\<not> MAX_NUM_OF_CMD \<le> i" "fork_ok w i" "\<not> MAX_NUM_OF_CMD \<le> Suc i"
      using step by (auto split: if_splits)
    obtain p0 p1 s1 where mp: "make_pipe w p s = (Some (p0, p1), s1)"
      using step Ptr nb by (cases "make_pipe w p s") (auto split: option.splits)
    then have "tty s1 = tty s" by (auto simp: make_pipe_def Let_def split: if_splits prod.splits)
    moreover obtain s2 where s2: "run_child w s1 i args (cmd (Suc i)) fd_in p0 p1 = Inr s2"
      "seq_pipe_loop w cmd (parent_close s2 i fd_in p1) (Suc i) p0 (Some (p0, p1)) = Inr s'"
      using step Ptr nb mp by (auto simp: bindS_def split: sum.splits)
    moreover have "tty (parent_close s2 i fd_in p1) = tty s2" by (simp add: parent_close_def Let_def)
    ultimately show ?thesis
      using 1(1) [OF nb(1) Ptr _ nb(3) mp [symmetric] refl refl s2(2)] nb(2) run_child_tty [OF s2(1)] by simp
  qed (use step in \<open>auto split: if_splits\<close>)
qed

text \<open>
  \<open>main\<close> never returns; the model gives the state the shell is left in and the fault that
  ends it.  \<open>heap n\<close> is what the fresh blocks of the \<open>n\<close>-th line hold, the one for the commands and
  the ones for the arguments; a block that was freed after an earlier line and is handed
  out again holds the old pointers.
\<close>

function shell_main ::
  "world \<Rightarrow> (nat \<Rightarrow> string block block \<times> string block) \<Rightarrow> nat \<Rightarrow> bytes \<Rightarrow> shell \<Rightarrow> shell \<times> cerror" where
  "shell_main w heap n buf s =
     (case read_line buf (tty s) of
        Inl e \<Rightarrow> (s, e)
      | Inr (str, buf', ds) \<Rightarrow>
          (case bindS (parse_cmdline (fst (heap n)) (snd (heap n)) str) (\<lambda>cmd. seq_pipe w cmd (s\<lparr>tty := ds\<rparr>)) of
             Inl e \<Rightarrow> (s\<lparr>tty := ds\<rparr>, e)
           | Inr s' \<Rightarrow> shell_main w heap (Suc n) buf' s'))"
  by pat_completeness auto
termination
proof (relation "measure (\<lambda>(w, heap, n, buf, s). length buf + length (concat (tty s)))")
  fix w :: world and heap and n :: nat and buf s p str q buf' ds s'
  assume "read_line buf (tty s) = Inr p" "(str, q) = p" "(buf', ds) = q"
    and run: "bindS (parse_cmdline (fst (heap n)) (snd (heap n)) str) (\<lambda>cmd. seq_pipe w cmd (s\<lparr>tty := ds\<rparr>)) = Inr s'"
  then have "length buf' + length (concat ds) < length buf + length (concat (tty s))"
    by (intro read_line_decreases [of _ _ str]) simp
  moreover have "length (concat (tty s')) \<le> length (concat ds)"
    using run seq_pipe_loop_tty by (fastforce simp: bindS_def seq_pipe_def split: sum.splits)
  ultimately show "((w, heap, Suc n, buf', s'), w, heap, n, buf, s)
      \<in> measure (\<lambda>(w, heap, n, buf, s). length buf + length (concat (tty s)))" by simp
qed simp

declare shell_main.simps [simp del]

section \<open>The abstract pipeline\<close>

text \<open>
  What a line means: every command reads what the one before it wrote.  A command that
  cannot be executed writes nothing.
\<close>

definition stage :: "world \<Rightarrow> string list \<Rightarrow> bytes \<Rightarrow> bytes" where
  "stage w argv input =
     (case run_program w argv of None \<Rightarrow> [] | Some (Source out) \<Rightarrow> out | Some (Filter f) \<Rightarrow> f input)"

fun pipeline :: "world \<Rightarrow> string list list \<Rightarrow> bytes \<Rightarrow> bytes" where
  "pipeline w [] input = input"
| "pipeline w (c # cs) input = pipeline w cs (stage w c input)"

text \<open>Whether a command reads its input, and what the terminal has left after the first command.\<close>

definition is_filter :: "world \<Rightarrow> string list \<Rightarrow> bool" where
  "is_filter w argv = (case run_program w argv of Some (Filter f) \<Rightarrow> True | _ \<Rightarrow> False)"

definition tty_after :: "world \<Rightarrow> nat \<Rightarrow> string list \<Rightarrow> bytes list \<Rightarrow> bytes list" where
  "tty_after w i argv ds = (if i = 0 \<and> is_filter w argv then snd (read_all ds) else ds)"

text \<open>Every output that another command reads fits into a pipe.\<close>

fun fits :: "world \<Rightarrow> string list list \<Rightarrow> bytes \<Rightarrow> bool" where
  "fits w (c # c' # cs) input \<longleftrightarrow>
     length (stage w c input) \<le> PIPE_CAP \<and> fits w (c' # cs) (stage w c input)"
| "fits w _ input \<longleftrightarrow> True"

section \<open>Invariants\<close>

definition handles :: "handle fdtab \<Rightarrow> handle set" where
  "handles t = snd ` set t"

definition shell_ok :: "shell \<Rightarrow> bool" where
  "shell_ok s \<longleftrightarrow>
     distinct (map fst (tab s)) \<and> fd_get (tab s) 0 = Some TtyIn \<and> fd_get (tab s) 1 = Some TtyOut \<and>
     (\<forall>k. PipeW k \<notin> handles (tab s)) \<and> (\<forall>k. PipeR k \<in> handles (tab s) \<longrightarrow> k < npipes s)"

text \<open>Between two rounds of the loop: \<open>U\<close> are the descriptors the shell had before the
  line, \<open>inp\<close> is what the next command will read.\<close>

definition between :: "shell \<Rightarrow> nat \<Rightarrow> nat \<Rightarrow> nat set \<Rightarrow> bytes \<Rightarrow> bool" where
  "between s i fd_in U inp \<longleftrightarrow>
     shell_ok s \<and> 0 \<in> U \<and> 1 \<in> U \<and>
     (if i = 0 then fd_used (tab s) = U \<and> inp = fst (read_all (tty s))
      else fd_in \<notin> U \<and> fd_used (tab s) = insert fd_in U \<and>
           (\<exists>k. fd_get (tab s) fd_in = Some (PipeR k) \<and> buffered (pipes s k) = inp))"

lemma fd_get_dup2:
  "fd_get (fd_dup2 t old new) m =
   (case fd_get t old of None \<Rightarrow> fd_get t m | Some h \<Rightarrow> if m = new then Some h else fd_get t m)"
  by (auto simp: fd_dup2_def fdt.get_close fd_get_def [of "_ # _"] split: option.splits)
    (auto simp: fd_get_def [symmetric] fdt.get_close)

lemma fd_get_handle: "fd_get t n = Some h \<Longrightarrow> h \<in> handles t"
  by (force simp: fd_get_def handles_def dest: map_of_SomeD)

lemma handles_dup2: "handles (fd_dup2 t old new) \<subseteq> handles t"
  using fd_get_handle [of t old] by (auto simp: fd_dup2_def fd_close_def handles_def split: option.splits)

lemma handles_close: "handles (fd_close t n) \<subseteq> handles t"
  by (auto simp: fd_close_def handles_def)

lemma handles_Cons: "handles ((n, h) # t) = insert h (handles t)"
  by (simp add: handles_def)

lemma write_ends_0: "write_ends k t = 0 \<longleftrightarrow> PipeW k \<notin> handles t"
  by (auto simp: write_ends_def filter_empty_conv image_iff handles_def)

lemma length_distinct_used: "distinct (map fst t) \<Longrightarrow> length t = card (fd_used t)"
  by (metis distinct_card fd_used_def length_map list.set_map)

lemma argv_from_fill:
  "i + length ws < MAX_NUM_OF_TOKENS \<Longrightarrow> (\<And>j. j < length ws \<Longrightarrow> a (i + j) = Ptr (ws ! j)) \<Longrightarrow>
   a (i + length ws) = Null \<Longrightarrow> argv_from a i = Inr ws"
proof (induction ws arbitrary: i)
  case Nil
  then show ?case by (simp add: argv_from.simps)
next
  case (Cons x ws)
  have "a i = Ptr x" using Cons.prems(2) [of 0] by simp
  moreover have "argv_from a (Suc i) = Inr ws"
    using Cons.prems Cons.prems(2) [of "Suc j" for j] by (intro Cons.IH) auto
  ultimately show ?case using Cons.prems(1) by (simp add: argv_from.simps [of a i])
qed

lemma argv_fill: "length ws < MAX_NUM_OF_TOKENS \<Longrightarrow> a (length ws) = Null \<Longrightarrow> argv_from (fill a 0 ws) 0 = Inr ws"
  by (rule argv_from_fill) (simp_all add: fill_nth)

lemma argv_fill_Null: "length ws < MAX_NUM_OF_TOKENS \<Longrightarrow> argv_from (fill (\<lambda>_. Null) 0 ws) 0 = Inr ws"
  by (rule argv_from_fill) (simp_all add: fill_nth)

section \<open>One round\<close>

text \<open>The table after \<open>pipe(p)\<close>.\<close>

lemma make_pipe_ok:
  assumes "length (tab s) + 2 \<le> nofile w" "shell_ok s"
  obtains p0 p1 s1 where
    "make_pipe w p s = (Some (p0, p1), s1)"
    "p0 \<notin> fd_used (tab s)" "p1 \<notin> fd_used (tab s)" "p0 \<noteq> p1"
    "tab s1 = (p1, PipeW (npipes s)) # (p0, PipeR (npipes s)) # tab s"
    "screen s1 = screen s" "tty s1 = tty s" "npipes s1 = Suc (npipes s)"
    "pipes s1 = (pipes s)(npipes s := \<lparr>buffered = [], writers = 1\<rparr>)"
proof -
  obtain p0 t0 where o0: "fd_open (tab s) (PipeR (npipes s)) = (p0, t0)" by force
  obtain p1 t1 where o1: "fd_open t0 (PipeW (npipes s)) = (p1, t1)" by force
  have t: "t0 = (p0, PipeR (npipes s)) # tab s" "t1 = (p1, PipeW (npipes s)) # t0"
    using o0 o1 by (auto simp: fd_open_def Let_def)
  have p0: "p0 \<notin> fd_used (tab s)" by (rule fdt.open_fresh [OF o0])
  have "p1 \<notin> insert p0 (fd_used (tab s))"
    using fdt.open_fresh [OF o1] fdt.used_open [OF o0] by simp
  then show ?thesis
    using that [of p0 p1 "s\<lparr>tab := t1, npipes := Suc (npipes s),
        pipes := (pipes s)(npipes s := \<lparr>buffered = [], writers = 1\<rparr>)\<rparr>"] p0 o0 o1 assms(1)
    by (auto simp: make_pipe_def t Let_def)
qed

text \<open>What the child finds at its descriptors.\<close>

lemma child_fds_view:
  assumes s1: "tab s1 = (p1, PipeW k) # (p0, PipeR k) # tab s"
    and p: "p0 \<notin> fd_used (tab s)" "p1 \<notin> fd_used (tab s)" "p0 \<noteq> p1"
    and ok: "shell_ok s"
    and fd: "0 < i \<Longrightarrow> fd_in \<noteq> 0 \<and> fd_in \<noteq> 1 \<and> fd_get (tab s) fd_in = Some (PipeR j)"
  shows "fd_get (child_fds (tab s1) i fd_in p0 p1 n) 0 = Some (if 0 < i then PipeR j else TtyIn)"
    and "fd_get (child_fds (tab s1) i fd_in p0 p1 n) 1 = Some (if n then PipeW k else TtyOut)"
    and "handles (child_fds (tab s1) i fd_in p0 p1 n) \<subseteq> handles (tab s1)"
proof -
  have 0: "fd_get (tab s) 0 = Some TtyIn" and 1: "fd_get (tab s) 1 = Some TtyOut"
    using ok by (auto simp: shell_ok_def)
  have "0 \<noteq> p0" "0 \<noteq> p1" "1 \<noteq> p0" "1 \<noteq> p1"
    using p 0 1 by (metis fd_get_used option.distinct(1))+
  moreover have get: "fd_get (tab s1) m =
      (if m = p1 then Some (PipeW k) else if m = p0 then Some (PipeR k) else fd_get (tab s) m)"
    for m by (simp add: s1 fd_get_def)
  moreover have "0 < i \<Longrightarrow> fd_in \<noteq> p0 \<and> fd_in \<noteq> p1"
    using fd p by (metis fd_get_used option.distinct(1))
  ultimately show "fd_get (child_fds (tab s1) i fd_in p0 p1 n) 0 =
      Some (if 0 < i then PipeR j else TtyIn)"
    and "fd_get (child_fds (tab s1) i fd_in p0 p1 n) 1 = Some (if n then PipeW k else TtyOut)"
    using fd p(3) 0 1 by (auto simp: child_fds_def Let_def fdt.get_close fd_get_dup2)
  show "handles (child_fds (tab s1) i fd_in p0 p1 n) \<subseteq> handles (tab s1)"
    unfolding child_fds_def Let_def
    by (rule subset_trans [OF handles_close])
      (simp split: if_split; meson handles_dup2 order_refl subset_trans)
qed

text \<open>The table of the shell when it goes on to the next command.\<close>

lemma parent_close_ok:
  assumes s1: "tab s1 = (p1, PipeW k) # (p0, PipeR k) # tab s" and np: "npipes s1 = Suc k"
    and p: "p0 \<notin> fd_used (tab s)" "p1 \<notin> fd_used (tab s)" "p0 \<noteq> p1" and k: "k = npipes s"
    and bt: "between s i fd_in U inp"
  shows "between (parent_close s1 i fd_in p1) (Suc i) p0 U (buffered (pipes s1 k))"
    and "screen (parent_close s1 i fd_in p1) = screen s1" "tty (parent_close s1 i fd_in p1) = tty s1"
proof -
  let ?t = "tab (parent_close s1 i fd_in p1)"
  have U: "fd_used (tab s) = (if i = 0 then U else insert fd_in U)"
    and f: "0 < i \<Longrightarrow> fd_in \<notin> U" and ok: "shell_ok s" and u: "0 \<in> U" "1 \<in> U"
    using bt by (auto simp: between_def split: if_splits)
  have "i = 0 \<or> p0 \<noteq> fd_in" using p(1) U by (cases "i = 0") simp_all
  then have t: "?t = (p0, PipeR k) # (if 0 < i then fd_close (tab s) fd_in else tab s)"
    using p by (auto simp: parent_close_def Let_def s1 lib_simps fd_close_unused)
  have used: "fd_used ?t = insert p0 U"
    using U f by (simp add: t lib_simps fdt.used_close insert_absorb)
  have d: "distinct (map fst (fd_close (tab s) n))" "distinct (map fst (tab s))" for n
    using ok by (auto simp: shell_ok_def fd_close_def distinct_map_filter)
  have "distinct (map fst ?t)"
    using d p fdt.used_close [of "tab s" fd_in] by (simp add: t fd_used_map del: set_map)
  moreover have "fd_get ?t m = (if m = p0 then Some (PipeR k) else
      if 0 < i \<and> m = fd_in then None else fd_get (tab s) m)" for m
    by (simp add: t lib_simps fdt.get_close)
  moreover have "handles ?t \<subseteq> insert (PipeR k) (handles (tab s))"
    using handles_close [of "tab s" fd_in] by (auto simp: t handles_Cons)
  moreover have "npipes (parent_close s1 i fd_in p1) = Suc k"
    "pipes (parent_close s1 i fd_in p1) = pipes s1"
    using np by (simp_all add: parent_close_def Let_def)
  moreover have p0U: "p0 \<notin> U" using p(1) U by (cases "i = 0") simp_all
  moreover have "p0 \<noteq> 0" "p0 \<noteq> 1" "0 < i \<Longrightarrow> fd_in \<noteq> 0 \<and> fd_in \<noteq> 1"
    using p0U u f by metis+
  moreover have "shell_ok (parent_close s1 i fd_in p1)"
    using calculation ok u f k unfolding shell_ok_def by (cases "i = 0") (auto simp: less_Suc_eq)
  ultimately show "between (parent_close s1 i fd_in p1) (Suc i) p0 U (buffered (pipes s1 k))"
    using u used by (simp add: between_def)
  show "screen (parent_close s1 i fd_in p1) = screen s1" "tty (parent_close s1 i fd_in p1) = tty s1"
    by (simp_all add: parent_close_def Let_def)
qed

lemma between_fd_in:
  assumes "between s i fd_in U inp" "0 < i"
  obtains j where "fd_in \<noteq> 0" "fd_in \<noteq> 1" "fd_get (tab s) fd_in = Some (PipeR j)"
    "buffered (pipes s j) = inp" "j < npipes s"
proof -
  from assms obtain j where j: "fd_get (tab s) fd_in = Some (PipeR j)"
    "buffered (pipes s j) = inp" and U: "fd_in \<notin> U" "0 \<in> U" "1 \<in> U" and ok: "shell_ok s"
    by (auto simp: between_def)
  have "j < npipes s" using fd_get_handle [OF j(1)] ok by (simp add: shell_ok_def)
  moreover have "fd_in \<noteq> 0" "fd_in \<noteq> 1" using U by metis+
  ultimately show ?thesis using j that by blast
qed

text \<open>The child's run: the effect on pipes and screen, or the deadlock.\<close>

lemma run_child_ok:
  assumes bt: "between s i fd_in U inp"
    and s1: "tab s1 = (p1, PipeW k) # (p0, PipeR k) # tab s" "k = npipes s"
      "pipes s1 = (pipes s)(k := \<lparr>buffered = [], writers = 1\<rparr>)" "tty s1 = tty s"
    and p: "p0 \<notin> fd_used (tab s)" "p1 \<notin> fd_used (tab s)" "p0 \<noteq> p1"
    and args: "argv_from args 0 = Inr c" "next \<noteq> Undef"
  shows "run_child w s1 i args next fd_in p0 p1 =
    (let out = stage w c inp; s2 = s1\<lparr>tty := tty_after w i c (tty s)\<rparr> in
     if next = Null then Inr (s2\<lparr>screen := screen s1 @ out\<rparr>)
     else if length out \<le> PIPE_CAP
     then Inr (s2\<lparr>pipes := (pipes s1)(k := \<lparr>buffered = out, writers = 1\<rparr>)\<rparr>)
     else Inl Blocked)"
proof -
  let ?t = "child_fds (tab s1) i fd_in p0 p1 (next \<noteq> Null)"
  obtain j where j: "0 < i \<Longrightarrow> fd_in \<noteq> 0 \<and> fd_in \<noteq> 1 \<and> fd_get (tab s) fd_in = Some (PipeR j) \<and>
       buffered (pipes s j) = inp \<and> j < npipes s"
    using between_fd_in [OF bt] by (metis neq0_conv)
  have ok: "shell_ok s" using bt by (simp add: between_def)
  note view = child_fds_view [OF s1(1) p ok, of i fd_in j "next \<noteq> Null"]
  let ?rest = "if i = 0 then snd (read_all (tty s)) else tty s"
  have inp: "child_input s1 ?t = Inr (inp, s1\<lparr>tty := ?rest\<rparr>)"
  proof (cases "i = 0")
    case True
    with bt view show ?thesis using j s1(4) by (simp add: child_input_def between_def split: prod.split)
  next
    case False
    with j have ne: "j \<noteq> k" "fd_get ?t 0 = Some (PipeR j)" using view s1(2) by auto
    have "PipeW j \<notin> handles (tab s1)" using ok ne(1) by (simp add: s1(1) shell_ok_def handles_Cons)
    then have "write_ends j (tab s1) = 0" "write_ends j ?t = 0"
      using view(3) False j by (auto simp: write_ends_0)
    with ne j False show ?thesis by (simp add: child_input_def s1(3,4) flip: s1(4))
  qed
  have out: "child_output s2 ?t out =
     (if next = Null then Inr (s2\<lparr>screen := screen s1 @ out\<rparr>)
      else if length out \<le> PIPE_CAP
      then Inr (s2\<lparr>pipes := (pipes s1)(k := \<lparr>buffered = out, writers = 1\<rparr>)\<rparr>)
      else Inl Blocked)" if "pipes s2 = pipes s1" "screen s2 = screen s1" for s2 out
    using view(2) j that by (simp add: child_output_def pipe_write_def s1(3))
  have same: "s1\<lparr>tty := tty s\<rparr> = s1" by (simp flip: s1(4))
  show ?thesis
  proof (cases "run_program w c")
    case None
    then show ?thesis
      using args by (simp add: run_child_def stage_def is_filter_def tty_after_def fun_upd_idem s1(3) Let_def
          flip: s1(4))
  next
    case (Some q)
    show ?thesis
    proof (cases q)
      case (Source x)
      with Some args out [of s1] same show ?thesis
        by (simp add: run_child_def child_program_def stage_def is_filter_def tty_after_def Let_def)
    next
      case (Filter g)
      with Some args out [of "s1\<lparr>tty := ?rest\<rparr>"] inp show ?thesis
        by (auto simp: run_child_def child_program_def stage_def is_filter_def tty_after_def Let_def)
    qed
  qed
qed

lemma length_tab:
  assumes "between s i fd_in U inp" "finite U"
  shows "length (tab s) = (if i = 0 then card U else Suc (card U))"
proof -
  have "length (tab s) = card (fd_used (tab s))"
    using assms(1) by (intro length_distinct_used) (simp add: between_def shell_ok_def)
  then show ?thesis using assms by (auto simp: between_def split: if_splits)
qed

lemma between_finite: "between s i fd_in U inp \<Longrightarrow> finite U"
  by (auto simp: between_def fd_used_def split: if_splits) (metis finite_imageI finite_insert finite_set)

lemma round:
  assumes bt: "between s i fd_in U inp"
    and cmd: "cmd i = Ptr args" "argv_from args 0 = Inr c" "cmd (Suc i) \<noteq> Undef"
    and env: "fork_ok w i" "Suc i < MAX_NUM_OF_CMD" "card U + 3 \<le> nofile w"
  shows "if cmd (Suc i) = Null \<or> length (stage w c inp) \<le> PIPE_CAP
    then \<exists>s' p0 p. seq_pipe_loop w cmd s i fd_in q = seq_pipe_loop w cmd s' (Suc i) p0 p \<and>
         between s' (Suc i) p0 U (if cmd (Suc i) = Null then [] else stage w c inp) \<and>
         screen s' = screen s @ (if cmd (Suc i) = Null then stage w c inp else []) \<and>
         tty s' = tty_after w i c (tty s)
    else seq_pipe_loop w cmd s i fd_in q = Inl Blocked"
proof -
  have "length (tab s) + 2 \<le> nofile w" "shell_ok s"
    using length_tab [OF bt between_finite [OF bt]] env(3) bt
    by (auto simp: between_def split: if_splits)
  then obtain p0 p1 s1 where mp: "make_pipe w q s = (Some (p0, p1), s1)"
    and p: "p0 \<notin> fd_used (tab s)" "p1 \<notin> fd_used (tab s)" "p0 \<noteq> p1"
    and s1: "tab s1 = (p1, PipeW (npipes s)) # (p0, PipeR (npipes s)) # tab s"
      "screen s1 = screen s" "tty s1 = tty s" "npipes s1 = Suc (npipes s)"
      "pipes s1 = (pipes s)(npipes s := \<lparr>buffered = [], writers = 1\<rparr>)"
    by (rule make_pipe_ok)
  have loop: "seq_pipe_loop w cmd s i fd_in q =
     bindS (run_child w s1 i args (cmd (Suc i)) fd_in p0 p1) (\<lambda>s2.
       seq_pipe_loop w cmd (parent_close s2 i fd_in p1) (Suc i) p0 (Some (p0, p1)))"
    using cmd env by (simp add: seq_pipe_loop.simps [of w cmd s] mp)
  have run: "run_child w s1 i args (cmd (Suc i)) fd_in p0 p1 =
    (let out = stage w c inp; s2 = s1\<lparr>tty := tty_after w i c (tty s)\<rparr> in
     if cmd (Suc i) = Null then Inr (s2\<lparr>screen := screen s1 @ out\<rparr>)
     else if length out \<le> PIPE_CAP
     then Inr (s2\<lparr>pipes := (pipes s1)(npipes s := \<lparr>buffered = out, writers = 1\<rparr>)\<rparr>)
     else Inl Blocked)"
    by (rule run_child_ok [OF bt s1(1) refl s1(5,3) p cmd(2,3)])
  have after: "tab s2 = tab s1 \<Longrightarrow> npipes s2 = npipes s1 \<Longrightarrow>
      between (parent_close s2 i fd_in p1) (Suc i) p0 U (buffered (pipes s2 (npipes s))) \<and>
      screen (parent_close s2 i fd_in p1) = screen s2 \<and> tty (parent_close s2 i fd_in p1) = tty s2" for s2
    using parent_close_ok [of s2 p1 "npipes s" p0 s i fd_in U inp] s1 p bt by simp
  consider (last) "cmd (Suc i) = Null"
    | (inner) "cmd (Suc i) \<noteq> Null" "length (stage w c inp) \<le> PIPE_CAP"
    | (full) "cmd (Suc i) \<noteq> Null" "\<not> length (stage w c inp) \<le> PIPE_CAP" by blast
  then show ?thesis
  proof cases
    case last
    with loop run after [of "s1\<lparr>tty := tty_after w i c (tty s), screen := screen s1 @ stage w c inp\<rparr>"] show ?thesis
      by (auto simp: s1 Let_def)
  next
    case inner
    with loop run after [of "s1\<lparr>tty := tty_after w i c (tty s), pipes := (pipes s1)(npipes s :=
        \<lparr>buffered = stage w c inp, writers = 1\<rparr>)\<rparr>"] show ?thesis
      by (auto simp: s1(2) Let_def)
  next
    case full
    with loop run show ?thesis by (simp add: Let_def)
  qed
qed

text \<open>All rounds of a line.\<close>

definition holds_line :: "string block block \<Rightarrow> nat \<Rightarrow> string list list \<Rightarrow> bool" where
  "holds_line cmd i cs \<longleftrightarrow>
     (\<forall>j < length cs. \<exists>a. cmd (i + j) = Ptr a \<and> argv_from a 0 = Inr (cs ! j)) \<and>
     cmd (i + length cs) = Null"

lemma holds_line_Cons:
  "holds_line cmd i (c # cs) \<longleftrightarrow>
   (\<exists>a. cmd i = Ptr a \<and> argv_from a 0 = Inr c) \<and> holds_line cmd (Suc i) cs"
proof -
  have "(\<forall>j < length (c # cs). P j) \<longleftrightarrow> P 0 \<and> (\<forall>j < length cs. P (Suc j))" for P
    by (auto simp: less_Suc_eq_0_disj)
  from this [of "\<lambda>j. \<exists>a. cmd (i + j) = Ptr a \<and> argv_from a 0 = Inr ((c # cs) ! j)"]
  show ?thesis unfolding holds_line_def by simp
qed

lemma holds_line_next: "holds_line cmd i cs \<Longrightarrow> (cmd i = Null \<longleftrightarrow> cs = []) \<and> cmd i \<noteq> Undef"
  by (cases cs) (auto simp: holds_line_Cons, auto simp: holds_line_def)

lemma seq_pipe_loop_run:
  assumes "between s i fd_in U inp" "cs \<noteq> []" "holds_line cmd i cs"
    and "i + length cs < MAX_NUM_OF_CMD" "\<forall>j. fork_ok w j" "card U + 3 \<le> nofile w"
  shows "if fits w cs inp
    then \<exists>s' p0. seq_pipe_loop w cmd s i fd_in q = Inr s' \<and>
         between s' (i + length cs) p0 U [] \<and> screen s' = screen s @ pipeline w cs inp \<and>
         tty s' = tty_after w i (hd cs) (tty s)
    else seq_pipe_loop w cmd s i fd_in q = Inl Blocked"
  using assms
proof (induction cs arbitrary: s i fd_in inp q)
  case (Cons c cs)
  then obtain args where a: "cmd i = Ptr args" "argv_from args 0 = Inr c"
    and h: "holds_line cmd (Suc i) cs" by (auto simp: holds_line_Cons)
  note nxt = holds_line_next [OF h]
  note r = round [where w = w and cmd = cmd and i = i and args = args and q = q, OF Cons.prems(1) a]
  show ?case
  proof (cases cs)
    case Nil
    with r nxt Cons.prems obtain s' p0 p where
      "seq_pipe_loop w cmd s i fd_in q = seq_pipe_loop w cmd s' (Suc i) p0 p"
      "between s' (Suc i) p0 U []" "screen s' = screen s @ stage w c inp" "tty s' = tty_after w i c (tty s)" by auto
    moreover have "seq_pipe_loop w cmd s' (Suc i) p0 p = Inr s'"
      using nxt Nil Cons.prems(4) by (subst seq_pipe_loop.simps) simp
    ultimately show ?thesis using Nil by auto
  next
    case (Cons c' cs')
    show ?thesis
    proof (cases "length (stage w c inp) \<le> PIPE_CAP")
      case True
      with r nxt Cons.prems Cons obtain s' p0 p where
        e: "seq_pipe_loop w cmd s i fd_in q = seq_pipe_loop w cmd s' (Suc i) p0 p"
        and b: "between s' (Suc i) p0 U (stage w c inp)" and o: "screen s' = screen s" "tty s' = tty_after w i c (tty s)" by auto
      have "if fits w cs (stage w c inp)
        then \<exists>s'' p0'. seq_pipe_loop w cmd s' (Suc i) p0 p = Inr s'' \<and>
          between s'' (Suc i + length cs) p0' U [] \<and>
          screen s'' = screen s' @ pipeline w cs (stage w c inp) \<and>
          tty s'' = tty_after w (Suc i) (hd cs) (tty s')
        else seq_pipe_loop w cmd s' (Suc i) p0 p = Inl Blocked"
        using Cons Cons.prems h b by (intro Cons.IH) auto
      moreover have "tty_after w (Suc i) d ds = ds" for d ds by (simp add: tty_after_def)
      ultimately show ?thesis
        using True Cons by (cases "fits w cs (stage w c inp)") (fastforce simp: e o)+
    next
      case False
      with r nxt Cons.prems Cons show ?thesis by simp
    qed
  qed
qed simp

section \<open>Lines and sessions\<close>

text \<open>
  The condition under which the missing null pointers do no harm: behind the last entry that
  is stored, the fresh blocks hold a null pointer.
\<close>

definition null_behind :: "string block block \<times> string block \<Rightarrow> string list list \<Rightarrow> bool" where
  "null_behind h cs \<longleftrightarrow> fst h (length cs) = Null \<and> (\<forall>c \<in> set cs. snd h (length c) = Null)"

definition cmd_array :: "string block block \<times> string block \<Rightarrow> string list list \<Rightarrow> string block block" where
  "cmd_array h cs = fill (fst h) 0 (map (fill (snd h) 0) cs)"

lemma null_behind_Null: "null_behind (\<lambda>_. Null, \<lambda>_. Null) cs"
  by (simp add: null_behind_def)

lemma cmd_array_Null: "cmd_array (\<lambda>_. Null, \<lambda>_. Null) cs = fill (\<lambda>_. Null) 0 (map (fill (\<lambda>_. Null) 0) cs)"
  by (simp add: cmd_array_def)

lemma holds_line_fill:
  assumes "null_behind h cs" "length cs < MAX_NUM_OF_CMD" "\<forall>c \<in> set cs. length c < MAX_NUM_OF_TOKENS"
  shows "holds_line (cmd_array h cs) 0 cs"
  using assms argv_fill by (auto simp: holds_line_def cmd_array_def fill_nth null_behind_def)

lemma seq_pipe_line:
  assumes "shell_ok s" "cs \<noteq> []" "length cs < MAX_NUM_OF_CMD"
    and "\<forall>c \<in> set cs. length c < MAX_NUM_OF_TOKENS" "null_behind h cs"
    and "\<forall>j. fork_ok w j" "length (tab s) + 3 \<le> nofile w"
  shows "if fits w cs (fst (read_all (tty s)))
    then \<exists>s'. seq_pipe w (cmd_array h cs) s = Inr s' \<and>
         shell_ok s' \<and> length (tab s') = Suc (length (tab s)) \<and>
         screen s' = screen s @ pipeline w cs (fst (read_all (tty s))) \<and>
         tty s' = tty_after w 0 (hd cs) (tty s)
    else seq_pipe w (cmd_array h cs) s = Inl Blocked"
proof -
  let ?cmd = "cmd_array h cs" and ?U = "fd_used (tab s)" and ?in = "fst (read_all (tty s))"
  have used: "0 \<in> ?U" "1 \<in> ?U"
    using assms(1) by (metis fd_get_used option.distinct(1) shell_ok_def)+
  then have bt: "between s 0 0 ?U ?in" using assms(1) by (simp add: between_def)
  have len: "length (tab s) = card ?U"
    using length_tab [OF bt between_finite [OF bt]] by simp
  have run: "if fits w cs ?in
    then \<exists>s' p0. seq_pipe_loop w ?cmd s 0 0 None = Inr s' \<and>
         between s' (0 + length cs) p0 ?U [] \<and> screen s' = screen s @ pipeline w cs ?in \<and>
         tty s' = tty_after w 0 (hd cs) (tty s)
    else seq_pipe_loop w ?cmd s 0 0 None = Inl Blocked"
    using assms len by (intro seq_pipe_loop_run [OF bt] holds_line_fill) auto
  have "between s' (length cs) p0 ?U [] \<Longrightarrow>
      shell_ok s' \<and> length (tab s') = Suc (length (tab s))" for s' p0
    using length_tab [of s' "length cs" p0 ?U "[]"] between_finite [OF bt] assms(2) len
    by (simp add: between_def)
  with run show ?thesis
    by (cases "fits w cs ?in") (auto simp: seq_pipe_def)
qed

text \<open>A line a user types: words without blanks, bars and newlines, printed by \<open>render\<close>.\<close>

definition typed :: "string list list \<Rightarrow> bool" where
  "typed cs \<longleftrightarrow> cs \<noteq> [] \<and> (\<forall>c \<in> set cs. \<forall>x \<in> set c. word x \<and> CHR 0x0A \<notin> set x) \<and>
     Suc (length (render cs)) < MAX_NUM_OF_TOKENS"

lemma length_join: "0 < length sep \<Longrightarrow> length ws \<le> Suc (length (join sep ws))"
proof (induction sep ws rule: join.induct)
  case (3 sep w v va)
  then show ?case by (cases sep) auto
qed auto

lemma length_join_member: "x \<in> set ws \<Longrightarrow> length x \<le> length (join sep ws)"
  by (induction sep ws rule: join.induct) auto

lemma typed_bounds:
  assumes "typed cs"
  shows "length cs < MAX_NUM_OF_CMD" "\<forall>c \<in> set cs. length c < MAX_NUM_OF_TOKENS"
proof -
  have "length (map (join '' '') cs) \<le> Suc (length (render cs))"
    unfolding render_def by (rule length_join) simp
  then show "length cs < MAX_NUM_OF_CMD" using assms by (simp add: typed_def max_defs)
  show "\<forall>c \<in> set cs. length c < MAX_NUM_OF_TOKENS"
  proof
    fix c assume "c \<in> set cs"
    then have "length (join '' '' c) \<le> length (render cs)"
      unfolding render_def by (intro length_join_member) simp
    moreover have "length c \<le> Suc (length (join '' '' c))" by (rule length_join) simp
    ultimately show "length c < MAX_NUM_OF_TOKENS" using assms by (simp add: typed_def)
  qed
qed

lemma typed_chars: "typed cs \<Longrightarrow> NUL \<notin> set (render cs) \<and> CHR 0x0A \<notin> set (render cs)"
proof -
  assume t: "typed cs"
  have "set (render cs) \<subseteq> set '' | '' \<union> (\<Union>c \<in> set cs. set (join '' '' c))"
    using set_join [of "'' | ''" "map (join '' '') cs"] by (simp add: render_def)
  also have "\<dots> \<subseteq> set '' | '' \<union> (\<Union>c \<in> set cs. \<Union>x \<in> set c. set x)"
    using set_join [of "'' ''"] by fastforce
  finally show ?thesis using t by (auto simp: typed_def word_def)
qed

lemma fgets_line:
  assumes "CHR 0x0A \<notin> set l" "Suc (length l) < n"
  shows "fgets n [] ((l @ [CHR 0x0A]) # ds) = (l @ [CHR 0x0A], [], ds)"
proof -
  have "takeWhile (\<lambda>c. c \<noteq> CHR 0x0A) (l @ [CHR 0x0A]) = l" using assms(1) by (induction l) auto
  then show ?thesis using assms(2) by (cases ds) (simp_all add: Let_def)
qed

lemma read_line_typed:
  assumes "CHR 0x0A \<notin> set l" "NUL \<notin> set l" "Suc (length l) < MAX_NUM_OF_TOKENS"
  shows "read_line [] ((l @ [CHR 0x0A]) # ds) = Inr (l, [], ds)"
proof -
  have "takeWhile (\<lambda>c. c \<noteq> CHR 0x0A) (l @ [CHR 0x0A]) = l" using assms(1) by (induction l) auto
  moreover have "cstr (l @ [CHR 0x0A]) = l @ [CHR 0x0A]"
    using assms(2) by (intro cstr_no_NUL) simp
  ultimately show ?thesis using fgets_line [OF assms(1,3)] by (simp add: read_line_def)
qed

text \<open>
  What a user types in a session: for every entry the line with its newline, and when its
  first command reads the terminal, the lines for this command and the end-of-file key.
\<close>

type_synonym entry = "string list list \<times> bytes list"

fun entry_ok :: "entry \<Rightarrow> bool" where
  "entry_ok (cs, ls) \<longleftrightarrow> typed cs \<and> [] \<notin> set ls"

fun keys :: "world \<Rightarrow> entry \<Rightarrow> bytes list" where
  "keys w (cs, ls) = (render cs @ [CHR 0x0A]) # (if is_filter w (hd cs) then ls @ [[]] else [])"

definition session_keys :: "world \<Rightarrow> entry list \<Rightarrow> bytes list" where
  "session_keys w es = concat (map (keys w) es)"

text \<open>Whether an entry runs to its end, and what it shows then.\<close>

fun runs :: "world \<Rightarrow> entry \<Rightarrow> bool" where
  "runs w (cs, ls) \<longleftrightarrow> fits w cs (concat ls)"

fun shows_result :: "world \<Rightarrow> entry \<Rightarrow> bytes" where
  "shows_result w (cs, ls) = pipeline w cs (concat ls)"

lemma read_all_typed: "[] \<notin> set ls \<Longrightarrow> read_all (ls @ [] # ds) = (concat ls, ds)"
  by (induction ls) auto

text \<open>A first command that does not read the terminal does not depend on it.\<close>

lemma stage_no_filter: "\<not> is_filter w c \<Longrightarrow> stage w c x = stage w c y"
  by (auto simp: is_filter_def stage_def split: option.splits program.splits)

lemma first_input:
  assumes "cs \<noteq> []" "\<not> is_filter w (hd cs)"
  shows "fits w cs x = fits w cs y" "pipeline w cs x = pipeline w cs y"
proof -
  obtain c cs' where "cs = c # cs'" using assms(1) by (cases cs) auto
  moreover from this have "stage w c x = stage w c y" using assms(2) by (intro stage_no_filter) simp
  ultimately show "fits w cs x = fits w cs y" "pipeline w cs x = pipeline w cs y"
    by (cases cs'; simp)+
qed

lemma entry_terminal:
  assumes "entry_ok (cs, ls)" "t = (if is_filter w (hd cs) then ls @ [[]] else []) @ ds"
  shows "fits w cs (fst (read_all t)) = runs w (cs, ls)"
    and "pipeline w cs (fst (read_all t)) = shows_result w (cs, ls)" "tty_after w 0 (hd cs) t = ds"
proof -
  have ne: "cs \<noteq> []" using assms(1) by (simp add: typed_def)
  show "fits w cs (fst (read_all t)) = runs w (cs, ls)"
    "pipeline w cs (fst (read_all t)) = shows_result w (cs, ls)" "tty_after w 0 (hd cs) t = ds"
    using assms first_input [OF ne, of w] read_all_typed [of ls ds]
    by (cases "is_filter w (hd cs)"; auto simp: tty_after_def; blast)+
qed

lemma read_line_end: "read_line [] [] = Inl NullDeref"
  by (simp add: read_line_def cstr_def)

lemma parse_typed:
  "typed cs \<Longrightarrow> parse_cmdline (fst h) (snd h) (render cs) = Inr (cmd_array h cs)"
  using cmd_words_render [of cs] NUL_notin_render [of cs]
  by (simp add: typed_def parse_cmdline_ok max_defs cmd_array_def)

text \<open>One entry: the line is read and run, and the rest of the terminal is left.\<close>

lemma shell_main_entry:
  assumes "shell_ok s" "entry_ok (cs, ls)" "tty s = keys w (cs, ls) @ ds" "null_behind (heap n) cs"
    and "\<forall>j. fork_ok w j" "length (tab s) + 3 \<le> nofile w"
  shows "if runs w (cs, ls)
    then \<exists>s'. shell_main w heap n [] s = shell_main w heap (Suc n) [] s' \<and> shell_ok s' \<and>
      tty s' = ds \<and> screen s' = screen s @ shows_result w (cs, ls) \<and> length (tab s') = Suc (length (tab s))
    else \<exists>s'. shell_main w heap n [] s = (s', Blocked) \<and> screen s' = screen s \<and> tab s' = tab s"
proof -
  define t where "t = (if is_filter w (hd cs) then ls @ [[]] else []) @ ds"
  have ty: "typed cs" using assms(2) by simp
  have "read_line [] (tty s) = Inr (render cs, [], t)"
    using typed_chars [OF ty] ty by (simp add: assms(3) t_def read_line_typed typed_def)
  then have main: "shell_main w heap n [] s =
      (case seq_pipe w (cmd_array (heap n) cs) (s\<lparr>tty := t\<rparr>) of
         Inl e \<Rightarrow> (s\<lparr>tty := t\<rparr>, e) | Inr s' \<Rightarrow> shell_main w heap (Suc n) [] s')"
    by (subst shell_main.simps) (simp add: parse_typed [OF ty])
  have ok: "cs \<noteq> []" "shell_ok (s\<lparr>tty := t\<rparr>)" using ty assms(1) by (simp_all add: typed_def shell_ok_def)
  have "if runs w (cs, ls)
    then \<exists>s'. seq_pipe w (cmd_array (heap n) cs) (s\<lparr>tty := t\<rparr>) = Inr s' \<and> shell_ok s' \<and>
      length (tab s') = Suc (length (tab s)) \<and> screen s' = screen s @ shows_result w (cs, ls) \<and> tty s' = ds
    else seq_pipe w (cmd_array (heap n) cs) (s\<lparr>tty := t\<rparr>) = Inl Blocked"
    using seq_pipe_line [OF ok(2,1) typed_bounds [OF ty] assms(4,5)] assms(6)
      entry_terminal [OF assms(2) t_def] by (cases "runs w (cs, ls)") auto
  then show ?thesis by (cases "runs w (cs, ls)") (auto simp: main simp del: runs.simps shows_result.simps)
qed

lemma shell_main_session:
  assumes "shell_ok s" "tty s = session_keys w es" "\<forall>e \<in> set es. entry_ok e"
    and "\<forall>j < length es. null_behind (heap (n + j)) (fst (es ! j))"
    and "\<forall>j. fork_ok w j" "length (tab s) + 2 + length es \<le> nofile w"
  shows "\<exists>s'. shell_main w heap n [] s = (s', if \<forall>e \<in> set es. runs w e then NullDeref else Blocked) \<and>
    screen s' = screen s @ concat (map (shows_result w) (takeWhile (runs w) es)) \<and>
    length (tab s') = length (tab s) + length (takeWhile (runs w) es)"
  using assms
proof (induction es arbitrary: s n)
  case Nil
  then show ?case by (simp add: session_keys_def shell_main.simps read_line_end)
next
  case (Cons e es)
  obtain cs ls where e: "e = (cs, ls)" by force
  have one: "if runs w e
    then \<exists>s'. shell_main w heap n [] s = shell_main w heap (Suc n) [] s' \<and> shell_ok s' \<and>
      tty s' = session_keys w es \<and> screen s' = screen s @ shows_result w e \<and> length (tab s') = Suc (length (tab s))
    else \<exists>s'. shell_main w heap n [] s = (s', Blocked) \<and> screen s' = screen s \<and> tab s' = tab s"
    unfolding e using Cons.prems(4) [rule_format, of 0] Cons.prems(1,2,3,5,6)
    by (intro shell_main_entry) (simp_all add: e session_keys_def del: keys.simps)
  show ?case
  proof (cases "runs w e")
    case True
    with one obtain s1 where s1: "shell_main w heap n [] s = shell_main w heap (Suc n) [] s1" "shell_ok s1"
      "tty s1 = session_keys w es" "screen s1 = screen s @ shows_result w e" "length (tab s1) = Suc (length (tab s))"
      by auto
    have "\<forall>j < length es. null_behind (heap (Suc n + j)) (fst (es ! j))"
      using Cons.prems(4) by (metis Suc_less_eq add_Suc_shift length_Cons nth_Cons_Suc)
    then show ?thesis using Cons.IH [of s1 "Suc n"] s1 Cons.prems True by auto
  next
    case False
    with one show ?thesis by auto
  qed
qed

section \<open>Properties\<close>


definition demo_shell :: shell where
  "demo_shell = \<lparr>tab = [(0, TtyIn), (1, TtyOut), (2, TtyOut)], pipes = (\<lambda>_. \<lparr>buffered = [], writers = 0\<rparr>),
     npipes = 0, screen = [], tty = []\<rparr>"

definition demo_world :: world where
  "demo_world = \<lparr>exec = (\<lambda>argv. if argv = [''rev''] then Some (Filter rev)
       else if argv = [''echo'', ''abc''] then Some (Source ''abc'')
       else if argv = [''yes''] then Some (Source (replicate 70000 CHR ''y'')) else None),
     nofile = 1024, fork_ok = (\<lambda>_. True)\<rparr>"

lemma demo_ok: "shell_ok demo_shell"
  by (simp add: shell_ok_def demo_shell_def fd_get_def handles_def)

lemma demo_simps:
  "length (tab demo_shell) = 3" "screen demo_shell = []" "tty demo_shell = []"
  "nofile demo_world = 1024" "fork_ok demo_world j"
  by (simp_all add: demo_shell_def demo_world_def)

lemma demo_stage:
  "stage demo_world [''rev''] x = rev x" "stage demo_world [''echo'', ''abc''] x = ''abc''"
  "stage demo_world [''yes''] x = replicate 70000 CHR ''y''" "is_filter demo_world [''rev'']"
  "\<not> is_filter demo_world [''echo'', ''abc'']" "\<not> is_filter demo_world [''yes'']"
  by (simp_all add: stage_def is_filter_def run_program_def demo_world_def)

lemma demo_line:
  "typed [[''echo'', ''abc''], [''rev'']] \<and> fits demo_world [[''echo'', ''abc''], [''rev'']] x"
  "pipeline demo_world [[''echo'', ''abc''], [''rev'']] x = ''cba''"
  by (simp_all add: typed_def word_def render_def max_defs demo_stage PIPE_CAP_def)

text \<open>A session with a line for each kind: a pipeline, a filter on typed lines, a full pipe.\<close>

definition demo_session :: "entry list" where
  "demo_session = [([[''echo'', ''abc''], [''rev'']], []), ([[''rev'']], [''12'']), ([[''yes''], [''rev'']], [])]"

lemma demo_session_facts:
  "\<forall>e \<in> set demo_session. entry_ok e" "length demo_session = 3"
  "\<not> (\<forall>e \<in> set demo_session. runs demo_world e)"
  "takeWhile (runs demo_world) demo_session = [([[''echo'', ''abc''], [''rev'']], []), ([[''rev'']], [''12''])]"
  by (simp_all add: demo_session_def demo_line demo_stage typed_def word_def render_def max_defs PIPE_CAP_def)


text \<open>
  C2. The exact condition for a line: when every output that another command reads fits
  into a pipe, the screen gets the result of the abstract pipeline; when one does not,
  shell and child wait for each other for ever, because the shell waits for a child
  before it starts the one that would read from it.
\<close>

theorem seq_pipe_refines_pipeline:
  assumes "shell_ok s" "cs \<noteq> []" "length cs < MAX_NUM_OF_CMD"
    and "\<forall>c \<in> set cs. length c < MAX_NUM_OF_TOKENS" "null_behind h cs"
    and "\<forall>j. fork_ok w j" "length (tab s) + 3 \<le> nofile w"
  shows "if fits w cs (fst (read_all (tty s)))
    then \<exists>s'. seq_pipe w (cmd_array h cs) s = Inr s' \<and>
         screen s' = screen s @ pipeline w cs (fst (read_all (tty s))) \<and>
         tty s' = tty_after w 0 (hd cs) (tty s)
    else seq_pipe w (cmd_array h cs) s = Inl Blocked"
  using seq_pipe_line [OF assms] by (cases "fits w cs (fst (read_all (tty s)))") auto

theorem seq_pipe_refines_pipeline_witness:
  "\<exists>s'. seq_pipe demo_world
      (cmd_array (\<lambda>_. Null, \<lambda>_. Null) [[''echo'', ''abc''], [''rev'']]) demo_shell = Inr s' \<and>
    screen s' = ''cba''"
  using seq_pipe_refines_pipeline [of demo_shell "[[''echo'', ''abc''], [''rev'']]"
      "(\<lambda>_. Null, \<lambda>_. Null)" demo_world]
    demo_ok demo_line by (simp add: demo_simps max_defs null_behind_Null) blast

text \<open>
  The descriptor table: \<open>seq_pipe\<close> closes every descriptor it opens but the last read
  end, so a line of any number of commands leaves exactly one descriptor more.
\<close>

theorem seq_pipe_leaks_one:
  assumes "shell_ok s" "cs \<noteq> []" "length cs < MAX_NUM_OF_CMD"
    and "\<forall>c \<in> set cs. length c < MAX_NUM_OF_TOKENS" "null_behind h cs"
    and "\<forall>j. fork_ok w j" "length (tab s) + 3 \<le> nofile w"
    and "seq_pipe w (cmd_array h cs) s = Inr s'"
  shows "length (tab s') = Suc (length (tab s)) \<and> shell_ok s'"
  using seq_pipe_line [OF assms(1-7)] assms(8) by (cases "fits w cs (fst (read_all (tty s)))") auto

theorem seq_pipe_leaks_one_witness:
  "\<exists>s'. seq_pipe demo_world (cmd_array (\<lambda>_. Null, \<lambda>_. Null) [[''rev'']]) demo_shell = Inr s' \<and>
    length (tab s') = 4"
proof -
  have n: "null_behind (\<lambda>_. Null, \<lambda>_. Null) [[''rev'']]" by (rule null_behind_Null)
  have p: "[[''rev'']] \<noteq> []" "length [[''rev'']] < MAX_NUM_OF_CMD"
    "\<forall>c \<in> set [[''rev'']]. length c < MAX_NUM_OF_TOKENS" by (simp_all add: max_defs)
  obtain s' where s': "seq_pipe demo_world (cmd_array (\<lambda>_. Null, \<lambda>_. Null) [[''rev'']]) demo_shell = Inr s'"
    using seq_pipe_line [OF demo_ok p n, of demo_world] by (auto simp: demo_simps)
  moreover have "length (tab s') = 4"
    using seq_pipe_leaks_one [OF demo_ok p n _ _ s'] by (simp add: demo_simps)
  ultimately show ?thesis by blast
qed

text \<open>
  Once the leak has used up the table, \<open>pipe\<close> fails, its result is ignored, and the
  child and the shell use an array that was never written.
\<close>

theorem seq_pipe_exhausted:
  assumes "nofile w < length (tab s) + 2" "fork_ok w 0" "cmd 0 = Ptr args"
  shows "seq_pipe w cmd s = Inl ReadUndef"
  using assms by (simp add: seq_pipe_def seq_pipe_loop.simps [of w cmd s 0] make_pipe_def max_defs)

theorem seq_pipe_exhausted_witness:
  "seq_pipe (demo_world\<lparr>nofile := 4\<rparr>) (fill (\<lambda>_. Null) 0 [fill (\<lambda>_. Null) 0 [''rev'']]) demo_shell
   = Inl ReadUndef"
  using seq_pipe_exhausted [of "demo_world\<lparr>nofile := 4\<rparr>" demo_shell
      "fill (\<lambda>_. Null) 0 [fill (\<lambda>_. Null) 0 [''rev'']]" "fill (\<lambda>_. Null) 0 [''rev'']"]
  by (simp add: demo_simps store_nth)

end
