(* ===== verification/DuplexPipe.thy ===== *)
theory DuplexPipe
  imports Kernel
begin

text \<open>
  The duplex pipe of \<open>task_2/Tyazhelkov\<close> (\<open>pipe.h\<close>, \<open>pipe.c\<close>, \<open>main.c\<close>): a parent sends a
  file to its child chunk by chunk over one pipe and gets every chunk back over another.
  Both processes run at the same time, so the program is a step relation on the state of
  the two processes and the two pipes.
\<close>

section \<open>The struct and its operations\<close>

datatype pipeType = Child | Parent

record Pipe =
  data :: bytes
  len :: nat

text \<open>The two kernel pipes behind \<open>fd_direct\<close> and \<open>fd_back\<close>.\<close>

record link =
  fd_direct :: kpipe
  fd_back :: kpipe

definition INTER_BUFF_SIZE :: nat where
  "INTER_BUFF_SIZE = 4096"

definition MAX_BUF_SIZE :: nat where
  "MAX_BUF_SIZE = 4096"

text \<open>\<open>read(fd, self->data, INTER_BUFF_SIZE)\<close>; \<open>Inl Blocked\<close> is a read that waits.\<close>

definition read_into :: "kpipe \<Rightarrow> Pipe \<Rightarrow> (nat \<times> Pipe \<times> kpipe) result" where
  "read_into k self =
     (case pipe_read k INTER_BUFF_SIZE of
        None \<Rightarrow> Inl Blocked
      | Some (xs, k') \<Rightarrow>
          bindS (poke (data self) 0 xs) (\<lambda>d.
            Inr (length xs, self\<lparr>data := d, len := length xs\<rparr>, k')))"

definition rcv :: "Pipe \<Rightarrow> pipeType \<Rightarrow> link \<Rightarrow> (nat \<times> Pipe \<times> link) result" where
  "rcv self parent l =
     (if parent = Parent
      then bindS (read_into (fd_back l) self) (\<lambda>(n, self', k). Inr (n, self', l\<lparr>fd_back := k\<rparr>))
      else bindS (read_into (fd_direct l) self)
             (\<lambda>(n, self', k). Inr (n, self', l\<lparr>fd_direct := k\<rparr>)))"

definition write_from :: "kpipe \<Rightarrow> Pipe \<Rightarrow> kpipe result" where
  "write_from k self =
     bindS (peek (data self) (len self)) (\<lambda>xs.
       case pipe_write k xs of None \<Rightarrow> Inl Blocked | Some k' \<Rightarrow> Inr k')"

definition snd_pipe :: "Pipe \<Rightarrow> pipeType \<Rightarrow> link \<Rightarrow> link result" where
  "snd_pipe self parent l =
     (if parent = Parent
      then bindS (write_from (fd_direct l) self) (\<lambda>k. Inr (l\<lparr>fd_direct := k\<rparr>))
      else bindS (write_from (fd_back l) self) (\<lambda>k. Inr (l\<lparr>fd_back := k\<rparr>)))"

text \<open>
  \<open>pipe_ctor\<close>: \<open>usable\<close> is the number of bytes that may be used at the address \<open>calloc\<close>
  returns for \<open>INTER_BUFF_SIZE\<close> bytes (at least the size asked for, \<open>None\<close> for a null
  pointer).  A null pointer is the empty block: every access to it is out of bounds.
  After \<open>fork\<close> both processes hold both write ends and never close them.
\<close>

definition pipe_ctor :: "nat option \<Rightarrow> nat \<times> Pipe \<times> link" where
  "pipe_ctor usable =
     (let no_pipe = \<lparr>buffered = [], writers = 0\<rparr>;
          new_pipe = \<lparr>buffered = [], writers = 2\<rparr>
      in case usable of
           None \<Rightarrow> (1, \<lparr>data = [], len = 0\<rparr>, \<lparr>fd_direct = no_pipe, fd_back = no_pipe\<rparr>)
         | Some n \<Rightarrow> (0, \<lparr>data = replicate n NUL, len = INTER_BUFF_SIZE\<rparr>,
                     \<lparr>fd_direct = new_pipe, fd_back = new_pipe\<rparr>))"

definition pipe_dtor :: "Pipe \<Rightarrow> Pipe" where
  "pipe_dtor self = self\<lparr>data := []\<rparr>"

section \<open>The two processes\<close>

text \<open>Where a process stands: each constructor is a point before one library call.\<close>

datatype parent_pc = PFread | PSend | PReceive | PExit | PDone | PFault
datatype child_pc = CReceive | CSend | CDone | CFault

record duplex =
  parent_pipe :: Pipe
  child_pipe :: Pipe
  ppc :: parent_pc
  cpc :: child_pc
  link :: link
  infile :: bytes
  outfile :: bytes

text \<open>
  \<open>parent_process\<close>: \<open>num = fread(...)\<close>, the store of a NUL byte at \<open>data[num]\<close>, the length of a
  short chunk by \<open>strlen\<close>; then \<open>snd\<close>; then \<open>rcv\<close> until it delivers something, \<open>fwrite\<close>
  and \<open>len = MAX_BUF_SIZE\<close>; at the end of the file \<open>"exit"\<close> is sent.
\<close>

definition parent_fread :: "duplex \<Rightarrow> duplex result" where
  "parent_fread s =
     (let (xs, rest) = fread MAX_BUF_SIZE (infile s); num = length xs; p = parent_pipe s
      in if num = 0 then Inr (s\<lparr>ppc := PExit\<rparr>)
         else bindS (poke (data p) 0 xs) (\<lambda>d.
              bindS (poke d num [NUL]) (\<lambda>d'.
              bindS (if num \<noteq> MAX_BUF_SIZE then strlen d' else Inr (len p)) (\<lambda>n.
                Inr (s\<lparr>parent_pipe := p\<lparr>data := d', len := n\<rparr>, infile := rest,
                       ppc := PSend\<rparr>)))))"

definition parent_send :: "duplex \<Rightarrow> duplex result" where
  "parent_send s =
     bindS (snd_pipe (parent_pipe s) Parent (link s)) (\<lambda>l.
       Inr (s\<lparr>link := l, ppc := PReceive\<rparr>))"

definition parent_receive :: "duplex \<Rightarrow> duplex result" where
  "parent_receive s =
     bindS (rcv (parent_pipe s) Parent (link s)) (\<lambda>(n, p, l).
       if n = 0 then Inr (s\<lparr>parent_pipe := p, link := l\<rparr>)
       else bindS (peek (data p) (len p)) (\<lambda>xs.
              Inr (s\<lparr>parent_pipe := p\<lparr>len := MAX_BUF_SIZE\<rparr>, link := l,
                     outfile := outfile s @ xs, ppc := PFread\<rparr>)))"

definition parent_exit :: "duplex \<Rightarrow> duplex result" where
  "parent_exit s =
     bindS (poke (data (parent_pipe s)) 0 (lit ''exit'')) (\<lambda>d.
       let p = (parent_pipe s)\<lparr>data := d\<rparr>
       in bindS (snd_pipe p Parent (link s)) (\<lambda>l.
            Inr (s\<lparr>parent_pipe := p, link := l, ppc := PDone\<rparr>)))"

definition parent_step :: "duplex \<Rightarrow> duplex result" where
  "parent_step s =
     (case ppc s of
        PFread \<Rightarrow> parent_fread s
      | PSend \<Rightarrow> parent_send s
      | PReceive \<Rightarrow> parent_receive s
      | PExit \<Rightarrow> parent_exit s
      | _ \<Rightarrow> Inl Blocked)"

text \<open>
  \<open>child_process\<close>: \<open>rcv\<close> until it delivers something, return on \<open>"exit"\<close>, else send the
  chunk back and set \<open>len\<close> again.
\<close>

definition child_receive :: "duplex \<Rightarrow> duplex result" where
  "child_receive s =
     bindS (rcv (child_pipe s) Child (link s)) (\<lambda>(n, p, l).
       let s' = s\<lparr>child_pipe := p, link := l\<rparr>
       in if n = 0 then Inr s'
          else bindS (strcmp_eq (data p) (lit ''exit'')) (\<lambda>eq.
                 Inr (s'\<lparr>cpc := if eq then CDone else CSend\<rparr>)))"

definition child_send :: "duplex \<Rightarrow> duplex result" where
  "child_send s =
     bindS (snd_pipe (child_pipe s) Child (link s)) (\<lambda>l.
       Inr (s\<lparr>child_pipe := (child_pipe s)\<lparr>len := MAX_BUF_SIZE\<rparr>, link := l,
              cpc := CReceive\<rparr>))"

definition child_step :: "duplex \<Rightarrow> duplex result" where
  "child_step s =
     (case cpc s of
        CReceive \<Rightarrow> child_receive s
      | CSend \<Rightarrow> child_send s
      | _ \<Rightarrow> Inl Blocked)"

text \<open>One of the two processes moves; a fault kills it.\<close>

inductive duplex_step :: "duplex \<Rightarrow> duplex \<Rightarrow> bool" where
  parent: "parent_step s = Inr t \<Longrightarrow> duplex_step s t"
| parent_fault: "parent_step s = Inl e \<Longrightarrow> e \<noteq> Blocked \<Longrightarrow> duplex_step s (s\<lparr>ppc := PFault\<rparr>)"
| child: "child_step s = Inr t \<Longrightarrow> duplex_step s t"
| child_fault: "child_step s = Inl e \<Longrightarrow> e \<noteq> Blocked \<Longrightarrow> duplex_step s (s\<lparr>cpc := CFault\<rparr>)"

inductive_cases duplex_stepE: "duplex_step s t"
inductive_simps duplex_step_iff: "duplex_step s t"

text \<open>\<open>main\<close> up to the \<open>fork\<close>.\<close>

definition duplex_start :: "nat \<Rightarrow> bytes \<Rightarrow> duplex" where
  "duplex_start usable file =
     (let (_, p, l) = pipe_ctor (Some usable)
      in \<lparr>parent_pipe = p, child_pipe = p, ppc = PFread, cpc = CReceive, link = l,
          infile = file, outfile = []\<rparr>)"

definition duplex_final :: "duplex \<Rightarrow> bool" where
  "duplex_final s \<longleftrightarrow> ppc s = PDone \<and> cpc s = CDone"

section \<open>What is transferred\<close>

text \<open>
  A full chunk is sent as it is, a short one up to its first NUL byte.  \<open>survives\<close>: the
  child never takes what stands in its buffer \<open>buf\<close> after a chunk for \<open>"exit"\<close>.
\<close>

definition sent :: "bytes \<Rightarrow> bytes" where
  "sent c = (if length c = MAX_BUF_SIZE then c else cstr c)"

definition sent_chunks :: "bytes \<Rightarrow> bytes list" where
  "sent_chunks file = map sent (chunks MAX_BUF_SIZE file)"

fun survives :: "bytes \<Rightarrow> bytes list \<Rightarrow> bool" where
  "survives buf [] \<longleftrightarrow> True"
| "survives buf (c # cs) \<longleftrightarrow>
     (let b = c @ drop (length c) buf
      in c \<noteq> [] \<and> take 5 b \<noteq> lit ''exit'' \<and> survives b cs)"

definition echo_ok :: "nat \<Rightarrow> bytes \<Rightarrow> bool" where
  "echo_ok usable file \<longleftrightarrow>
     MAX_BUF_SIZE \<le> usable \<and> (MAX_BUF_SIZE \<le> length file \<longrightarrow> MAX_BUF_SIZE < usable) \<and>
     survives (replicate usable NUL) (sent_chunks file)"

section \<open>The invariant\<close>

text \<open>
  What still has to arrive when the child's buffer is \<open>buf\<close>: \<open>xs\<close> is the chunk on its
  way to the child, \<open>file\<close> the unread rest.
\<close>

definition pending :: "bytes \<Rightarrow> bytes list \<Rightarrow> bytes \<Rightarrow> bool" where
  "pending buf cs file \<longleftrightarrow> survives buf (cs @ sent_chunks file)"

definition frame_ok :: "nat \<Rightarrow> duplex \<Rightarrow> bool" where
  "frame_ok usable s \<longleftrightarrow>
     MAX_BUF_SIZE \<le> usable \<and> (MAX_BUF_SIZE \<le> length (infile s) \<longrightarrow> MAX_BUF_SIZE < usable) \<and>
     length (data (parent_pipe s)) = usable \<and> length (data (child_pipe s)) = usable \<and>
     len (parent_pipe s) \<le> MAX_BUF_SIZE \<and> len (child_pipe s) \<le> MAX_BUF_SIZE \<and>
     0 < writers (fd_direct (link s)) \<and> 0 < writers (fd_back (link s))"

definition quiet :: "duplex \<Rightarrow> bool" where
  "quiet s \<longleftrightarrow> buffered (fd_direct (link s)) = [] \<and> buffered (fd_back (link s)) = []"

text \<open>The chunk a process holds in its buffer.\<close>

definition held :: "Pipe \<Rightarrow> bytes" where
  "held p = take (len p) (data p)"

definition phase_ok :: "bytes \<Rightarrow> duplex \<Rightarrow> bool" where
  "phase_ok file s \<longleftrightarrow>
     (case (ppc s, cpc s) of
        (PFread, CReceive) \<Rightarrow>
          quiet s \<and> len (parent_pipe s) = MAX_BUF_SIZE \<and>
          outfile s @ concat (sent_chunks (infile s)) = concat (sent_chunks file) \<and>
          pending (data (child_pipe s)) [] (infile s)
      | (PSend, CReceive) \<Rightarrow>
          quiet s \<and> pending (data (child_pipe s)) [held (parent_pipe s)] (infile s) \<and>
          outfile s @ held (parent_pipe s) @ concat (sent_chunks (infile s)) =
            concat (sent_chunks file)
      | (PReceive, CReceive) \<Rightarrow>
          (buffered (fd_back (link s)) = [] \<and> buffered (fd_direct (link s)) \<noteq> [] \<and>
           length (buffered (fd_direct (link s))) \<le> MAX_BUF_SIZE \<and>
           pending (data (child_pipe s)) [buffered (fd_direct (link s))] (infile s) \<and>
           outfile s @ buffered (fd_direct (link s)) @ concat (sent_chunks (infile s)) =
             concat (sent_chunks file)) \<or>
          (buffered (fd_direct (link s)) = [] \<and> buffered (fd_back (link s)) \<noteq> [] \<and>
           length (buffered (fd_back (link s))) \<le> MAX_BUF_SIZE \<and>
           pending (data (child_pipe s)) [] (infile s) \<and>
           outfile s @ buffered (fd_back (link s)) @ concat (sent_chunks (infile s)) =
             concat (sent_chunks file))
      | (PReceive, CSend) \<Rightarrow>
          quiet s \<and> held (child_pipe s) \<noteq> [] \<and> pending (data (child_pipe s)) [] (infile s) \<and>
          outfile s @ held (child_pipe s) @ concat (sent_chunks (infile s)) =
            concat (sent_chunks file)
      | (PExit, CReceive) \<Rightarrow>
          quiet s \<and> len (parent_pipe s) = MAX_BUF_SIZE \<and> outfile s = concat (sent_chunks file)
      | (PDone, CReceive) \<Rightarrow>
          buffered (fd_back (link s)) = [] \<and> length (buffered (fd_direct (link s))) = MAX_BUF_SIZE \<and>
          take 5 (buffered (fd_direct (link s))) = lit ''exit'' \<and>
          outfile s = concat (sent_chunks file)
      | (PDone, CDone) \<Rightarrow> outfile s = concat (sent_chunks file)
      | _ \<Rightarrow> False)"

definition echo_inv :: "nat \<Rightarrow> bytes \<Rightarrow> duplex \<Rightarrow> bool" where
  "echo_inv usable file s \<longleftrightarrow> frame_ok usable s \<and> phase_ok file s"

definition echo_rank :: "duplex \<Rightarrow> nat" where
  "echo_rank s =
     (let k = 5 * length (chunks MAX_BUF_SIZE (infile s))
      in case (ppc s, cpc s) of
        (PFread, _) \<Rightarrow> k + 3
      | (PSend, _) \<Rightarrow> k + 7
      | (PReceive, CSend) \<Rightarrow> k + 5
      | (PReceive, _) \<Rightarrow> (if buffered (fd_back (link s)) = [] then k + 6 else k + 4)
      | (PExit, _) \<Rightarrow> 2
      | (PDone, CReceive) \<Rightarrow> 1
      | _ \<Rightarrow> 0)"

section \<open>The steps from each phase\<close>

lemma buf_sizes: "INTER_BUFF_SIZE = 4096" "MAX_BUF_SIZE = 4096" "PIPE_CAP = 65536"
  by (simp_all add: INTER_BUFF_SIZE_def MAX_BUF_SIZE_def PIPE_CAP_def)

lemma poke_front:
  "length xs \<le> length buf \<Longrightarrow> poke buf 0 xs = Inr (xs @ drop (length xs) buf)"
  by (simp add: poke_def)

lemma length_held: "len p \<le> length (data p) \<Longrightarrow> length (held p) = len p"
  by (simp add: held_def)

lemma write_from_ok:
  assumes "len p \<le> length (data p)" "len p \<le> MAX_BUF_SIZE" "buffered k = []"
  shows "write_from k p = Inr (k\<lparr>buffered := held p\<rparr>)"
  using assms by (simp add: write_from_def peek_def held_def pipe_write_fits buf_sizes)

lemma read_into_ok:
  assumes "buffered k \<noteq> []" "length (buffered k) \<le> MAX_BUF_SIZE" "MAX_BUF_SIZE \<le> length (data p)"
  shows "read_into k p = Inr (length (buffered k),
    p\<lparr>data := buffered k @ drop (length (buffered k)) (data p), len := length (buffered k)\<rparr>,
    k\<lparr>buffered := []\<rparr>)"
  using assms by (simp add: read_into_def pipe_read_all poke_front buf_sizes)

lemma read_into_waits:
  "buffered k = [] \<Longrightarrow> 0 < writers k \<Longrightarrow> read_into k p = Inl Blocked"
  by (simp add: read_into_def pipe_read_def)

lemma sent_chunks_Nil [simp]: "sent_chunks [] = []"
  by (simp add: sent_chunks_def)

lemma sent_chunks_step:
  "f \<noteq> [] \<Longrightarrow> sent_chunks f = sent (take MAX_BUF_SIZE f) # sent_chunks (drop MAX_BUF_SIZE f)"
  by (simp add: sent_chunks_def chunks_step [of _ f] MAX_BUF_SIZE_def)

text \<open>\<open>parent_fread\<close> on a file that is not used up.\<close>

lemma parent_fread_chunk:
  assumes "infile s \<noteq> []" "frame_ok usable s" "len (parent_pipe s) = MAX_BUF_SIZE"
  obtains d n where
    "parent_fread s = Inr (s\<lparr>parent_pipe := (parent_pipe s)\<lparr>data := d, len := n\<rparr>,
       infile := drop MAX_BUF_SIZE (infile s), ppc := PSend\<rparr>)"
    "length d = usable" "n \<le> MAX_BUF_SIZE" "take n d = sent (take MAX_BUF_SIZE (infile s))"
proof -
  define c where "c = take MAX_BUF_SIZE (infile s)"
  let ?d = "data (parent_pipe s)" and ?n = "length c" and ?c = c
  have c: "?n \<noteq> 0" "?n \<le> MAX_BUF_SIZE" using assms(1) by (auto simp: c_def buf_sizes)
  have room: "?n < usable"
    using assms(2) by (auto simp: c_def frame_ok_def min_def split: if_splits)
  have len: "length ?d = usable" using assms(2) by (simp add: frame_ok_def)
  define d where "d = ?c @ NUL # drop (Suc ?n) ?d"
  have p1: "poke ?d 0 ?c = Inr (?c @ drop ?n ?d)" using room len by (intro poke_front) simp
  have p2: "poke (?c @ drop ?n ?d) ?n [NUL] = Inr d"
    using room len by (simp add: poke_def d_def)
  define n where "n = length (sent ?c)"
  have full: "?n = MAX_BUF_SIZE \<Longrightarrow> n = MAX_BUF_SIZE \<and> take n d = sent ?c"
    by (simp add: n_def d_def sent_def)
  have short: "?n \<noteq> MAX_BUF_SIZE \<Longrightarrow> strlen d = Inr n \<and> take n d = sent ?c"
  proof -
    assume ne: "?n \<noteq> MAX_BUF_SIZE"
    have "cstr d = cstr ?c" unfolding d_def
      by (cases "NUL \<in> set ?c") (simp_all add: cstr_append_in)
    then show ?thesis
      using ne cstr_take [of d] by (simp add: strlen_def n_def sent_def) (simp add: d_def)
  qed
  show ?thesis
  proof (rule that [where d = d and n = n])
    show "parent_fread s = Inr (s\<lparr>parent_pipe := (parent_pipe s)\<lparr>data := d, len := n\<rparr>,
       infile := drop MAX_BUF_SIZE (infile s), ppc := PSend\<rparr>)"
      using c p1 p2 full short assms(3)
      by (auto simp: parent_fread_def fread_def Let_def simp flip: c_def)
    show "length d = usable" using room len by (simp add: d_def)
    show "n \<le> MAX_BUF_SIZE"
      using c(2) length_cstr_le [of ?c] by (simp add: n_def sent_def)
    show "take n d = sent (take MAX_BUF_SIZE (infile s))"
      using full short by (auto simp flip: c_def)
  qed
qed

lemmas step_defs = parent_step_def child_step_def parent_send_def parent_receive_def
  parent_exit_def child_receive_def child_send_def rcv_def snd_pipe_def

definition moves :: "nat \<Rightarrow> bytes \<Rightarrow> duplex \<Rightarrow> duplex result \<Rightarrow> bool" where
  "moves usable f s r \<longleftrightarrow> (\<exists>t. r = Inr t \<and> echo_inv usable f t \<and> echo_rank t < echo_rank s)"

lemma phase_fread:
  assumes "echo_inv usable f s" "ppc s = PFread"
  shows "child_step s = Inl Blocked \<and> moves usable f s (parent_step s)"
proof
  have c: "cpc s = CReceive" and fr: "frame_ok usable s" and q: "quiet s"
    and l: "len (parent_pipe s) = MAX_BUF_SIZE"
    and outf: "outfile s @ concat (sent_chunks (infile s)) = concat (sent_chunks f)"
    and pend: "pending (data (child_pipe s)) [] (infile s)"
    using assms by (auto simp: echo_inv_def phase_ok_def split: child_pc.splits)
  show "child_step s = Inl Blocked"
    using c q fr by (simp add: step_defs read_into_waits quiet_def frame_ok_def)
  show "moves usable f s (parent_step s)"
  proof (cases "infile s = []")
    case True
    then have "parent_step s = Inr (s\<lparr>ppc := PExit\<rparr>)"
      using assms(2) by (simp add: step_defs parent_fread_def fread_def)
    with True c fr q l outf show ?thesis
      by (simp add: moves_def echo_inv_def phase_ok_def frame_ok_def quiet_def echo_rank_def assms(2))
  next
    case False
    obtain d n where step: "parent_fread s = Inr (s\<lparr>parent_pipe := (parent_pipe s)\<lparr>data := d, len := n\<rparr>,
       infile := drop MAX_BUF_SIZE (infile s), ppc := PSend\<rparr>)"
      and d: "length d = usable" "n \<le> MAX_BUF_SIZE" "take n d = sent (take MAX_BUF_SIZE (infile s))"
      by (rule parent_fread_chunk [OF False fr l])
    have k: "chunks MAX_BUF_SIZE (infile s) =
        take MAX_BUF_SIZE (infile s) # chunks MAX_BUF_SIZE (drop MAX_BUF_SIZE (infile s))"
      using False by (intro chunks_step) (simp_all add: buf_sizes)
    show ?thesis
      unfolding moves_def
      using c fr q outf pend d
      by (intro exI conjI)
        (simp_all add: parent_step_def assms(2) step, simp_all add: echo_inv_def phase_ok_def frame_ok_def
          quiet_def echo_rank_def pending_def held_def sent_chunks_step [OF False] assms(2) k)
  qed
qed

lemma phase_send:
  assumes "echo_inv usable f s" "ppc s = PSend"
  shows "child_step s = Inl Blocked \<and> moves usable f s (parent_step s)"
proof
  let ?p = "parent_pipe s"
  have c: "cpc s = CReceive" and fr: "frame_ok usable s" and q: "quiet s"
    and outf: "outfile s @ held ?p @ concat (sent_chunks (infile s)) = concat (sent_chunks f)"
    and pend: "pending (data (child_pipe s)) [held ?p] (infile s)"
    using assms by (auto simp: echo_inv_def phase_ok_def split: child_pc.splits)
  show "child_step s = Inl Blocked"
    using c q fr by (simp add: step_defs read_into_waits quiet_def frame_ok_def)
  have l: "len ?p \<le> length (data ?p)" "len ?p \<le> MAX_BUF_SIZE" using fr by (auto simp: frame_ok_def)
  have "write_from (fd_direct (link s)) ?p = Inr ((fd_direct (link s))\<lparr>buffered := held ?p\<rparr>)"
    using l q by (intro write_from_ok) (simp_all add: quiet_def)
  moreover have "held ?p \<noteq> []" "length (held ?p) \<le> MAX_BUF_SIZE"
    using pend length_held [OF l(1)] l(2) by (auto simp: pending_def Let_def)
  ultimately show "moves usable f s (parent_step s)"
    using c fr q outf pend
    by (simp add: moves_def step_defs assms(2) echo_inv_def phase_ok_def frame_ok_def quiet_def
        echo_rank_def)
qed

lemma exit_length: "Suc (length ''exit'') = 5" "length (lit ''exit'') = 5"
  by simp_all

lemma strcmp_exit:
  "5 \<le> length b \<Longrightarrow> strcmp_eq b (lit ''exit'') = Inr (take 5 b = lit ''exit'')"
  using strcmp_eq_lit_total [of "''exit''" b, unfolded exit_length] by simp

text \<open>The chunk arrives at the child.\<close>

lemma child_gets:
  assumes "frame_ok usable s" "cpc s = CReceive" "xs = buffered (fd_direct (link s))"
    and "xs \<noteq> []" "length xs \<le> MAX_BUF_SIZE"
  defines "b \<equiv> xs @ drop (length xs) (data (child_pipe s))"
  shows "child_step s = Inr (s\<lparr>child_pipe := (child_pipe s)\<lparr>data := b, len := length xs\<rparr>,
      link := (link s)\<lparr>fd_direct := (fd_direct (link s))\<lparr>buffered := []\<rparr>\<rparr>,
      cpc := if take 5 b = lit ''exit'' then CDone else CSend\<rparr>)"
    and "length b = usable"
proof -
  have l: "length (data (child_pipe s)) = usable" "MAX_BUF_SIZE \<le> usable"
    using assms(1) by (auto simp: frame_ok_def)
  then show b: "length b = usable" using assms(5) by (simp add: b_def)
  have "strcmp_eq b (lit ''exit'') = Inr (take 5 b = lit ''exit'')"
    using b l(2) by (intro strcmp_exit) (simp add: buf_sizes)
  with assms(2-5) l show "child_step s = Inr (s\<lparr>child_pipe := (child_pipe s)\<lparr>data := b, len := length xs\<rparr>,
      link := (link s)\<lparr>fd_direct := (fd_direct (link s))\<lparr>buffered := []\<rparr>\<rparr>,
      cpc := if take 5 b = lit ''exit'' then CDone else CSend\<rparr>)"
    by (simp add: step_defs read_into_ok b_def)
qed

lemma phase_to_child:
  assumes "echo_inv usable f s" "ppc s = PReceive" "cpc s = CReceive"
    and "buffered (fd_direct (link s)) \<noteq> []"
  shows "parent_step s = Inl Blocked \<and> moves usable f s (child_step s)"
proof
  let ?xs = "buffered (fd_direct (link s))"
  have fr: "frame_ok usable s" and bk: "buffered (fd_back (link s)) = []"
    and l: "length ?xs \<le> MAX_BUF_SIZE"
    and outf: "outfile s @ ?xs @ concat (sent_chunks (infile s)) = concat (sent_chunks f)"
    and pend: "pending (data (child_pipe s)) [?xs] (infile s)"
    using assms by (auto simp: echo_inv_def phase_ok_def)
  show "parent_step s = Inl Blocked"
    using bk fr assms(2) by (simp add: step_defs read_into_waits frame_ok_def)
  note g = child_gets [OF fr assms(3) refl assms(4) l]
  have ne: "take 5 (?xs @ drop (length ?xs) (data (child_pipe s))) \<noteq> lit ''exit''"
    using pend by (simp add: pending_def Let_def)
  show "moves usable f s (child_step s)"
    using fr bk l outf pend assms(2-4) g(2) ne
    by (simp add: moves_def g(1) echo_inv_def phase_ok_def frame_ok_def quiet_def held_def
        pending_def Let_def echo_rank_def)
qed

lemma phase_child_send:
  assumes "echo_inv usable f s" "ppc s = PReceive" "cpc s = CSend"
  shows "parent_step s = Inl Blocked \<and> moves usable f s (child_step s)"
proof
  let ?p = "child_pipe s"
  have fr: "frame_ok usable s" and q: "quiet s" and ne: "held ?p \<noteq> []"
    and outf: "outfile s @ held ?p @ concat (sent_chunks (infile s)) = concat (sent_chunks f)"
    and pend: "pending (data (child_pipe s)) [] (infile s)"
    using assms by (auto simp: echo_inv_def phase_ok_def)
  show "parent_step s = Inl Blocked"
    using q fr assms(2) by (simp add: step_defs read_into_waits quiet_def frame_ok_def)
  have l: "len ?p \<le> length (data ?p)" "len ?p \<le> MAX_BUF_SIZE" using fr by (auto simp: frame_ok_def)
  have "write_from (fd_back (link s)) ?p = Inr ((fd_back (link s))\<lparr>buffered := held ?p\<rparr>)"
    using l q by (intro write_from_ok) (simp_all add: quiet_def)
  moreover have "length (held ?p) \<le> MAX_BUF_SIZE" using length_held [OF l(1)] l(2) by simp
  ultimately show "moves usable f s (child_step s)"
    using fr q ne outf pend assms(2,3)
    by (simp add: moves_def step_defs echo_inv_def phase_ok_def frame_ok_def quiet_def echo_rank_def)
qed

lemma phase_to_parent:
  assumes "echo_inv usable f s" "ppc s = PReceive" "cpc s = CReceive"
    and "buffered (fd_direct (link s)) = []"
  shows "child_step s = Inl Blocked \<and> moves usable f s (parent_step s)"
proof
  let ?xs = "buffered (fd_back (link s))"
  have fr: "frame_ok usable s" and ne: "?xs \<noteq> []" and l: "length ?xs \<le> MAX_BUF_SIZE"
    and outf: "outfile s @ ?xs @ concat (sent_chunks (infile s)) = concat (sent_chunks f)"
    and pend: "pending (data (child_pipe s)) [] (infile s)"
    using assms by (auto simp: echo_inv_def phase_ok_def)
  show "child_step s = Inl Blocked"
    using assms(3,4) fr by (simp add: step_defs read_into_waits frame_ok_def)
  have "MAX_BUF_SIZE \<le> length (data (parent_pipe s))" using fr by (simp add: frame_ok_def)
  from read_into_ok [OF ne l this] this ne l fr outf pend assms(2-4)
  show "moves usable f s (parent_step s)"
    by (simp add: moves_def step_defs peek_def echo_inv_def phase_ok_def frame_ok_def quiet_def
        echo_rank_def)
qed

lemma phase_exit:
  assumes "echo_inv usable f s" "ppc s = PExit"
  shows "child_step s = Inl Blocked \<and> moves usable f s (parent_step s)"
proof
  let ?d = "data (parent_pipe s)"
  have c: "cpc s = CReceive" and fr: "frame_ok usable s" and q: "quiet s"
    and l: "len (parent_pipe s) = MAX_BUF_SIZE" and outf: "outfile s = concat (sent_chunks f)"
    using assms by (auto simp: echo_inv_def phase_ok_def split: child_pc.splits)
  show "child_step s = Inl Blocked"
    using c q fr by (simp add: step_defs read_into_waits quiet_def frame_ok_def)
  have len: "MAX_BUF_SIZE \<le> length ?d" using fr by (simp add: frame_ok_def)
  define m where "m = lit ''exit'' @ drop 5 ?d"
  have pk: "poke ?d 0 (lit ''exit'') = Inr m"
    using len unfolding m_def poke_def exit_length(2) by (simp add: buf_sizes)
  then have lm: "length m = length ?d" by (rule poke_length)
  let ?p = "(parent_pipe s)\<lparr>data := m\<rparr>"
  have w: "write_from (fd_direct (link s)) ?p = Inr ((fd_direct (link s))\<lparr>buffered := held ?p\<rparr>)"
    using len lm l q by (intro write_from_ok) (simp_all add: quiet_def)
  have h: "length (held ?p) = MAX_BUF_SIZE" using len lm l by (simp add: held_def)
  have ex: "take 5 (held ?p) = lit ''exit''" by (simp add: held_def l m_def buf_sizes)
  have "parent_step s = Inr (s\<lparr>parent_pipe := ?p,
      link := (link s)\<lparr>fd_direct := (fd_direct (link s))\<lparr>buffered := held ?p\<rparr>\<rparr>, ppc := PDone\<rparr>)"
    unfolding parent_step_def parent_exit_def snd_pipe_def pk using assms(2) w by (simp add: Let_def)
  then show "moves usable f s (parent_step s)"
    unfolding moves_def using c fr q outf lm h ex l
    by (intro exI conjI) (assumption,
      simp_all only: echo_inv_def phase_ok_def frame_ok_def echo_rank_def assms(2), simp_all add: quiet_def)
qed

lemma phase_done:
  assumes "echo_inv usable f s" "ppc s = PDone" "\<not> duplex_final s"
  shows "parent_step s = Inl Blocked \<and> moves usable f s (child_step s)"
proof
  let ?xs = "buffered (fd_direct (link s))"
  have c: "cpc s = CReceive" using assms
    by (auto simp: echo_inv_def phase_ok_def duplex_final_def split: child_pc.splits)
  with assms have fr: "frame_ok usable s" and l: "length ?xs = MAX_BUF_SIZE"
    and ex: "take 5 ?xs = lit ''exit''" and outf: "outfile s = concat (sent_chunks f)"
    by (auto simp: echo_inv_def phase_ok_def)
  show "parent_step s = Inl Blocked" using assms(2) by (simp add: step_defs)
  have ne: "?xs \<noteq> []" "length ?xs \<le> MAX_BUF_SIZE" using l by (auto simp: buf_sizes)
  note g = child_gets [OF fr c refl ne]
  have "take 5 (?xs @ drop (length ?xs) (data (child_pipe s))) = lit ''exit''"
    using ex l by (simp add: buf_sizes)
  with g fr l outf assms(2) c show "moves usable f s (child_step s)"
    by (simp add: moves_def echo_inv_def phase_ok_def frame_ok_def echo_rank_def)
qed

text \<open>In every reachable state exactly one process can move, and it keeps the invariant.\<close>

lemma echo_phases:
  assumes "echo_inv usable f s" "\<not> duplex_final s"
  shows "(child_step s = Inl Blocked \<and> moves usable f s (parent_step s)) \<or>
         (parent_step s = Inl Blocked \<and> moves usable f s (child_step s))"
proof (cases "ppc s")
  case PReceive
  then have "cpc s = CReceive \<or> cpc s = CSend"
    using assms(1) by (auto simp: echo_inv_def phase_ok_def split: child_pc.splits)
  with PReceive assms(1) show ?thesis
    using phase_to_child phase_to_parent phase_child_send by blast
next
  case PFault
  with assms show ?thesis by (simp add: echo_inv_def phase_ok_def)
qed (use assms phase_fread phase_send phase_exit phase_done in blast)+

lemma final_no_step: "duplex_final s \<Longrightarrow> parent_step s = Inl Blocked \<and> child_step s = Inl Blocked"
  by (simp add: duplex_final_def step_defs)

lemma echo_inv_start: "echo_ok usable f \<Longrightarrow> echo_inv usable f (duplex_start usable f)"
  by (simp add: echo_ok_def echo_inv_def duplex_start_def pipe_ctor_def Let_def frame_ok_def
      phase_ok_def quiet_def pending_def buf_sizes)

interpretation echo: live_inv "\<lambda>s. echo_ok usable f \<and> s = duplex_start usable f" duplex_step
    "echo_inv usable f" duplex_final echo_rank for usable f
proof unfold_locales
  fix s t
  show "echo_ok usable f \<and> s = duplex_start usable f \<Longrightarrow> echo_inv usable f s"
    using echo_inv_start by blast
  assume inv: "echo_inv usable f s"
  show "\<not> duplex_final s \<Longrightarrow> \<exists>t. duplex_step s t"
    using echo_phases [OF inv] by (auto simp: moves_def intro: duplex_step.intros)
  assume st: "duplex_step s t"
  then have "\<not> duplex_final s"
    using final_no_step by (auto elim!: duplex_stepE)
  with st show "echo_inv usable f t" "echo_rank t < echo_rank s"
    using echo_phases [OF inv] by (auto simp: moves_def elim!: duplex_stepE)
qed

section \<open>Text files\<close>

lemma take_splice:
  "set (take n (c @ drop (length c) b)) \<subseteq> set c \<union> set (take n b)"
proof -
  have "take (n - length c) (drop (length c) b) = drop (length c) (take n b)"
    by (simp add: drop_take)
  then show ?thesis by (auto dest: in_set_takeD in_set_dropD)
qed

lemma survives_text:
  "NUL \<notin> set (take 5 buf) \<Longrightarrow> \<forall>c \<in> set cs. c \<noteq> [] \<and> NUL \<notin> set c \<Longrightarrow> survives buf cs"
proof (induction cs arbitrary: buf)
  case (Cons c cs)
  let ?b = "c @ drop (length c) buf"
  have b: "NUL \<notin> set (take 5 ?b)" using take_splice [of 5 c buf] Cons.prems by auto
  then have "take 5 ?b \<noteq> lit ''exit''" by (metis in_set_conv_decomp)
  moreover have "survives ?b cs" using Cons.prems b by (intro Cons.IH) auto
  ultimately show ?case using Cons.prems by (simp add: Let_def)
qed simp

lemma sent_text: "NUL \<notin> set c \<Longrightarrow> sent c = c"
  by (simp add: sent_def)

lemma sent_chunks_text: "NUL \<notin> set f \<Longrightarrow> sent_chunks f = chunks MAX_BUF_SIZE f"
  unfolding sent_chunks_def by (rule map_idI) (use set_chunks_subset sent_text in blast)

lemma echo_ok_text:
  assumes "NUL \<notin> set f" "5 \<le> length f" "MAX_BUF_SIZE \<le> usable"
    and "MAX_BUF_SIZE \<le> length f \<longrightarrow> MAX_BUF_SIZE < usable"
  shows "echo_ok usable f"
proof -
  let ?c = "take MAX_BUF_SIZE f" and ?cs = "chunks MAX_BUF_SIZE (drop MAX_BUF_SIZE f)"
  let ?b = "?c @ drop (length ?c) (replicate usable NUL)"
  have "f \<noteq> []" using assms(2) by auto
  then have cs: "sent_chunks f = ?c # ?cs"
    using sent_chunks_text [OF assms(1)] by (simp add: chunks_step [of _ f] buf_sizes)
  have "length ?c \<ge> 5" using assms(2) by (simp add: buf_sizes)
  then have "take 5 ?b = take 5 ?c" by simp
  then have b: "NUL \<notin> set (take 5 ?b)" using assms(1) by (metis in_set_takeD)
  have "survives ?b ?cs"
    using b assms(1) chunks_member set_chunks_subset set_drop_subset [of MAX_BUF_SIZE f]
    by (intro survives_text ballI) blast+
  moreover have "take 5 ?b \<noteq> lit ''exit''" using b by (metis in_set_conv_decomp)
  moreover have "?c \<noteq> []" using \<open>f \<noteq> []\<close> by (simp add: buf_sizes)
  ultimately have "survives (replicate usable NUL) (?c # ?cs)" by (simp add: Let_def)
  then show ?thesis using assms(3,4) cs by (simp add: echo_ok_def)
qed

lemma echo_final_output: "echo_inv usable f s \<Longrightarrow> duplex_final s \<Longrightarrow> outfile s = concat (sent_chunks f)"
  by (simp add: echo_inv_def phase_ok_def duplex_final_def)

section \<open>Files that are never echoed\<close>

text \<open>
  A short file that begins with a NUL byte is sent as nothing, and one whose text is
  \<open>exit\<close> ends the child: in both cases the parent waits for an answer for ever.
\<close>

definition dead_file :: "nat \<Rightarrow> bytes \<Rightarrow> bool" where
  "dead_file usable f \<longleftrightarrow> MAX_BUF_SIZE \<le> usable \<and> f \<noteq> [] \<and> length f < MAX_BUF_SIZE \<and>
     (cstr f = [] \<or> cstr f = ''exit'')"

text \<open>Parent and child wait for each other, or the parent for a child that is gone.\<close>

definition stuck :: "duplex \<Rightarrow> bool" where
  "stuck s \<longleftrightarrow> ppc s = PReceive \<and> (cpc s = CReceive \<or> cpc s = CDone) \<and> quiet s"

definition dead_inv :: "nat \<Rightarrow> bytes \<Rightarrow> duplex \<Rightarrow> bool" where
  "dead_inv usable f s \<longleftrightarrow> dead_file usable f \<and> outfile s = [] \<and>
     (s = duplex_start usable f \<or>
      ppc s = PSend \<and> cpc s = CReceive \<and> frame_ok usable s \<and> quiet s \<and>
        data (child_pipe s) = replicate usable NUL \<and> held (parent_pipe s) = cstr f \<or>
      ppc s = PReceive \<and> cpc s = CReceive \<and> frame_ok usable s \<and>
        buffered (fd_back (link s)) = [] \<and> buffered (fd_direct (link s)) = cstr f \<and>
        data (child_pipe s) = replicate usable NUL \<or>
      stuck s \<and> frame_ok usable s)"

definition dead_rank :: "duplex \<Rightarrow> nat" where
  "dead_rank s = (case ppc s of PFread \<Rightarrow> 3 | PSend \<Rightarrow> 2
     | _ \<Rightarrow> if buffered (fd_direct (link s)) = [] then 0 else 1)"

definition dies :: "nat \<Rightarrow> bytes \<Rightarrow> duplex \<Rightarrow> duplex result \<Rightarrow> bool" where
  "dies usable f s r \<longleftrightarrow> (\<exists>t. r = Inr t \<and> dead_inv usable f t \<and> dead_rank t < dead_rank s)"

lemma stuck_no_step:
  "stuck s \<Longrightarrow> frame_ok usable s \<Longrightarrow> parent_step s = Inl Blocked \<and> child_step s = Inl Blocked"
  by (auto simp: stuck_def quiet_def frame_ok_def step_defs read_into_waits)

lemma frame_start: "dead_file usable f \<Longrightarrow> frame_ok usable (duplex_start usable f)"
  by (simp add: dead_file_def frame_ok_def duplex_start_def pipe_ctor_def Let_def buf_sizes)

lemma dead_fread:
  assumes "dead_file usable f" "s = duplex_start usable f"
  shows "child_step s = Inl Blocked \<and> dies usable f s (parent_step s)"
proof
  have s: "ppc s = PFread" "cpc s = CReceive" "quiet s" "infile s = f" "len (parent_pipe s) = MAX_BUF_SIZE"
    "data (child_pipe s) = replicate usable NUL"
    "outfile s = []"
    by (simp_all add: assms(2) duplex_start_def pipe_ctor_def Let_def quiet_def buf_sizes)
  have fr: "frame_ok usable s" using frame_start [OF assms(1)] assms(2) by simp
  show "child_step s = Inl Blocked"
    using s fr by (simp add: step_defs read_into_waits quiet_def frame_ok_def)
  have "infile s \<noteq> []" using s(4) assms(1) by (simp add: dead_file_def)
  then obtain d n where "parent_fread s = Inr (s\<lparr>parent_pipe := (parent_pipe s)\<lparr>data := d, len := n\<rparr>,
       infile := drop MAX_BUF_SIZE (infile s), ppc := PSend\<rparr>)"
    and d: "length d = usable" "n \<le> MAX_BUF_SIZE" "take n d = sent (take MAX_BUF_SIZE (infile s))"
    using parent_fread_chunk [OF _ fr s(5)] by blast
  moreover have "take n d = cstr f" using d(3) s(4) assms(1) by (simp add: dead_file_def sent_def)
  ultimately show "dies usable f s (parent_step s)"
    using s fr assms(1) d
    by (simp add: dies_def parent_step_def dead_inv_def frame_ok_def quiet_def held_def dead_rank_def)
qed

lemma dead_send:
  assumes "dead_file usable f" "ppc s = PSend" "cpc s = CReceive" "frame_ok usable s" "quiet s"
    and "data (child_pipe s) = replicate usable NUL" "held (parent_pipe s) = cstr f" "outfile s = []"
  shows "child_step s = Inl Blocked \<and> dies usable f s (parent_step s)"
proof
  show "child_step s = Inl Blocked"
    using assms by (simp add: step_defs read_into_waits quiet_def frame_ok_def)
  have "write_from (fd_direct (link s)) (parent_pipe s) = Inr ((fd_direct (link s))\<lparr>buffered := cstr f\<rparr>)"
    using assms(4,5,7) write_from_ok [of "parent_pipe s" "fd_direct (link s)"]
    by (simp add: frame_ok_def quiet_def)
  then show "dies usable f s (parent_step s)"
    using assms by (simp add: dies_def step_defs dead_inv_def frame_ok_def quiet_def dead_rank_def)
qed

lemma dead_exit:
  assumes "dead_file usable f" "ppc s = PReceive" "cpc s = CReceive" "frame_ok usable s"
    and "buffered (fd_back (link s)) = []" "buffered (fd_direct (link s)) = cstr f"
    and "data (child_pipe s) = replicate usable NUL" "cstr f \<noteq> []" "outfile s = []"
  shows "parent_step s = Inl Blocked \<and> dies usable f s (child_step s)"
proof
  show "parent_step s = Inl Blocked"
    using assms(2,4,5) by (simp add: step_defs read_into_waits frame_ok_def)
  have e: "cstr f = ''exit''" using assms(1,8) by (simp add: dead_file_def)
  let ?xs = "buffered (fd_direct (link s))"
  define b where "b = ?xs @ drop (length ?xs) (data (child_pipe s))"
  have "4096 \<le> usable" using assms(4) by (simp add: frame_ok_def buf_sizes)
  then obtain n where "usable = Suc (Suc (Suc (Suc (Suc n))))"
    by (intro that [of "usable - 5"]) simp
  then have ex: "take 5 b = lit ''exit''"
    unfolding b_def using assms(6,7) e by simp
  have "?xs \<noteq> []" "length ?xs \<le> MAX_BUF_SIZE" using assms(6) e by (simp_all add: buf_sizes)
  from child_gets [OF assms(4,3) refl this, folded b_def, unfolded ex]
  have "child_step s = Inr (s\<lparr>child_pipe := (child_pipe s)\<lparr>data := b, len := length ?xs\<rparr>,
      link := (link s)\<lparr>fd_direct := (fd_direct (link s))\<lparr>buffered := []\<rparr>\<rparr>, cpc := CDone\<rparr>)"
    and "length b = usable"
    by simp_all
  then show "dies usable f s (child_step s)"
    using assms e by (simp add: dies_def dead_inv_def stuck_def quiet_def frame_ok_def dead_rank_def buf_sizes)
qed

lemma dead_phases:
  assumes "dead_inv usable f s" "\<not> stuck s"
  shows "(child_step s = Inl Blocked \<and> dies usable f s (parent_step s)) \<or>
         (parent_step s = Inl Blocked \<and> dies usable f s (child_step s))"
proof -
  have dead: "dead_file usable f" and out: "outfile s = []" using assms(1) by (simp_all add: dead_inv_def)
  consider "s = duplex_start usable f"
    | "ppc s = PSend" "cpc s = CReceive" "frame_ok usable s" "quiet s"
      "data (child_pipe s) = replicate usable NUL" "held (parent_pipe s) = cstr f"
    | "ppc s = PReceive" "cpc s = CReceive" "frame_ok usable s" "buffered (fd_back (link s)) = []"
      "buffered (fd_direct (link s)) = cstr f" "data (child_pipe s) = replicate usable NUL"
    using assms by (auto simp: dead_inv_def)
  then show ?thesis
  proof cases
    case 1
    then show ?thesis using dead_fread [OF dead] by blast
  next
    case 2
    then show ?thesis using dead_send [OF dead] out by blast
  next
    case 3
    then have "cstr f \<noteq> []" using assms(2) by (auto simp: stuck_def quiet_def)
    with 3 show ?thesis using dead_exit [OF dead] out by blast
  qed
qed

lemma dead_stuck: "dead_inv usable f s \<Longrightarrow> stuck s \<Longrightarrow> \<not> duplex_step s t"
proof -
  assume a: "dead_inv usable f s" "stuck s"
  then have "frame_ok usable s"
    by (auto simp: dead_inv_def stuck_def duplex_start_def pipe_ctor_def Let_def)
  with a(2) show "\<not> duplex_step s t" using stuck_no_step by (auto elim!: duplex_stepE)
qed

interpretation echo_dead: live_inv "\<lambda>s. dead_file usable f \<and> s = duplex_start usable f" duplex_step
    "dead_inv usable f" stuck dead_rank for usable f
proof unfold_locales
  fix s t
  show "dead_file usable f \<and> s = duplex_start usable f \<Longrightarrow> dead_inv usable f s"
    by (simp add: dead_inv_def duplex_start_def pipe_ctor_def Let_def)
  assume inv: "dead_inv usable f s"
  show "\<not> stuck s \<Longrightarrow> \<exists>t. duplex_step s t"
    using dead_phases [OF inv] by (auto simp: dies_def intro: duplex_step.intros)
  assume st: "duplex_step s t"
  then have "\<not> stuck s" using dead_stuck [OF inv] by blast
  with st show "dead_inv usable f t" "dead_rank t < dead_rank s"
    using dead_phases [OF inv] by (auto simp: dies_def elim!: duplex_stepE)
qed

section \<open>Properties\<close>

text \<open>
  For every file whose chunks the child can tell from \<open>"exit"\<close> and do not begin with a
  NUL byte, no interleaving of the two processes gets stuck: from every reachable state
  both can still finish, and when both have finished the output is the full chunks and
  the short chunk up to its first NUL byte.
\<close>

theorem echo_always_finishes:
  assumes "echo_ok usable f" "duplex_step\<^sup>*\<^sup>* (duplex_start usable f) s"
  shows "\<exists>t. duplex_step\<^sup>*\<^sup>* s t \<and> duplex_final t \<and> outfile t = concat (sent_chunks f)"
proof -
  have inv: "echo_inv usable f s" using echo.reach_inv assms by blast
  then obtain t where t: "duplex_step\<^sup>*\<^sup>* s t" "duplex_final t" using echo.finishes_from by blast
  with inv have "echo_inv usable f t" using echo.steps_inv by blast
  with t show ?thesis using echo_final_output by blast
qed

theorem echo_always_finishes_witness:
  "\<exists>t. duplex_step\<^sup>*\<^sup>* (duplex_start 4096 ''hello'') t \<and> duplex_final t \<and> outfile t = ''hello''"
proof -
  have ok: "echo_ok 4096 ''hello''" by (intro echo_ok_text) (simp_all add: buf_sizes)
  have "concat (sent_chunks ''hello'') = ''hello''" by (simp add: sent_chunks_text buf_sizes)
  with echo_always_finishes [OF ok, of "duplex_start 4096 ''hello''"] show ?thesis by simp
qed

text \<open>
  Text files (no NUL byte, at least five bytes) come back unchanged, in every
  interleaving, when the byte after the buffer may be written; and no run is longer than
  five steps per chunk and three more.
\<close>

theorem echo_text_file:
  assumes "NUL \<notin> set f" "5 \<le> length f" "MAX_BUF_SIZE < usable"
    and "(duplex_step ^^ n) (duplex_start usable f) s"
  shows "n \<le> 5 * length (chunks MAX_BUF_SIZE f) + 3 \<and>
    (\<exists>t. duplex_step\<^sup>*\<^sup>* s t \<and> duplex_final t) \<and> (duplex_final s \<longrightarrow> outfile s = f)"
proof -
  have ok: "echo_ok usable f" using assms(1-3) by (intro echo_ok_text) simp_all
  have st: "duplex_step\<^sup>*\<^sup>* (duplex_start usable f) s" using assms(4) by (rule relpowp_imp_rtranclp)
  have inv: "echo_inv usable f s" using echo.reach_inv ok st by blast
  have "echo_rank (duplex_start usable f) = 5 * length (chunks MAX_BUF_SIZE f) + 3"
    by (simp add: echo_rank_def duplex_start_def pipe_ctor_def Let_def)
  then have "n \<le> 5 * length (chunks MAX_BUF_SIZE f) + 3"
    using echo.run_length [OF assms(4) echo_inv_start [OF ok]] by simp
  moreover have "concat (sent_chunks f) = f"
    using assms(1) by (simp add: sent_chunks_text buf_sizes)
  ultimately show ?thesis
    using echo.finishes_from [OF inv] echo_final_output [OF inv] by simp
qed

theorem echo_text_file_witness:
  "(\<exists>t. duplex_step\<^sup>*\<^sup>* (duplex_start 5000 ''hello world'') t \<and> duplex_final t)"
  using echo_text_file [of "''hello world''" 5000 0 "duplex_start 5000 ''hello world''"]
  by (simp add: buf_sizes)

text \<open>
  With exactly the \<open>INTER_BUFF_SIZE\<close> bytes that \<open>pipe_ctor\<close> asks for, the first full
  chunk makes the parent write its NUL byte behind the buffer.
\<close>

theorem full_chunk_overflows:
  assumes "MAX_BUF_SIZE \<le> length f"
  shows "parent_step (duplex_start INTER_BUFF_SIZE f) = Inl OutOfBounds"
  using assms
  by (cases f) (simp_all add: parent_step_def duplex_start_def pipe_ctor_def Let_def parent_fread_def
      fread_def poke_def buf_sizes)

theorem full_chunk_overflows_witness:
  "parent_step (duplex_start INTER_BUFF_SIZE (replicate 4096 CHR ''x'')) = Inl OutOfBounds"
  by (rule full_chunk_overflows) (simp add: buf_sizes)

text \<open>
  A short file that begins with a NUL byte, or that reads \<open>exit\<close>, is never echoed: no
  interleaving ends both processes, every one arrives at a state in which the parent
  waits and nothing can move.
\<close>

theorem echo_can_hang:
  assumes "MAX_BUF_SIZE \<le> usable" "f \<noteq> []" "length f < MAX_BUF_SIZE" "cstr f = [] \<or> cstr f = ''exit''"
    and "duplex_step\<^sup>*\<^sup>* (duplex_start usable f) s"
  shows "\<not> duplex_final s \<and> outfile s = [] \<and>
    (\<exists>t. duplex_step\<^sup>*\<^sup>* s t \<and> ppc t = PReceive \<and> (\<nexists>u. duplex_step t u))"
proof -
  have "dead_file usable f" using assms(1-4) by (simp add: dead_file_def)
  then have inv: "dead_inv usable f s" using echo_dead.reach_inv assms(5) by blast
  obtain t where t: "duplex_step\<^sup>*\<^sup>* s t" "stuck t" using echo_dead.finishes_from [OF inv] by blast
  then have "dead_inv usable f t" using echo_dead.steps_inv inv by blast
  then have "\<nexists>u. duplex_step t u" using dead_stuck t(2) by blast
  moreover have "\<not> duplex_final s"
    using inv by (auto simp: dead_inv_def duplex_final_def stuck_def duplex_start_def pipe_ctor_def Let_def)
  moreover have "outfile s = []" using inv by (simp add: dead_inv_def)
  ultimately show ?thesis using t by (auto simp: stuck_def)
qed

theorem echo_can_hang_witness:
  "\<exists>t. duplex_step\<^sup>*\<^sup>* (duplex_start 4096 ''exit'') t \<and> ppc t = PReceive \<and> (\<nexists>u. duplex_step t u)"
proof -
  have "cstr ''exit'' = ''exit''" by (simp add: cstr_def)
  then show ?thesis
    using echo_can_hang [of 4096 "''exit''" "duplex_start 4096 ''exit''"] by (simp add: buf_sizes)
qed

text \<open>
  C5. Which files are echoed.  When the child can tell every chunk from \<open>"exit"\<close> and no chunk begins
  with a NUL byte, from every reachable state both processes can still finish, with the full
  chunks and the short chunk up to its first NUL byte as the output.  A short file that
  begins with a NUL byte, or reads \<open>exit\<close>, is never echoed: every run comes to a state in which
  the parent waits and nothing can move.
\<close>

theorem echo_outcome:
  assumes "duplex_step\<^sup>*\<^sup>* (duplex_start usable f) s"
  shows "(echo_ok usable f \<longrightarrow>
      (\<exists>t. duplex_step\<^sup>*\<^sup>* s t \<and> duplex_final t \<and> outfile t = concat (sent_chunks f))) \<and>
    (MAX_BUF_SIZE \<le> usable \<and> f \<noteq> [] \<and> length f < MAX_BUF_SIZE \<and> (cstr f = [] \<or> cstr f = ''exit'') \<longrightarrow>
      \<not> duplex_final s \<and> outfile s = [] \<and>
      (\<exists>t. duplex_step\<^sup>*\<^sup>* s t \<and> ppc t = PReceive \<and> (\<nexists>u. duplex_step t u)))"
  using echo_always_finishes [OF _ assms] echo_can_hang [OF _ _ _ _ assms] by blast

theorem echo_outcome_witness:
  "\<exists>t. duplex_step\<^sup>*\<^sup>* (duplex_start 4096 ''hello'') t \<and> duplex_final t \<and> outfile t = ''hello''"
proof -
  have ok: "echo_ok 4096 ''hello''" by (intro echo_ok_text) (simp_all add: buf_sizes)
  have "concat (sent_chunks ''hello'') = ''hello''" by (simp add: sent_chunks_text buf_sizes)
  with ok echo_outcome [of 4096 "''hello''" "duplex_start 4096 ''hello''"] show ?thesis by simp
qed

end
