(* ===== verification/Fifo.thy ===== *)
theory Fifo
  imports Kernel
begin

text \<open>
  The transfer of a file through a named pipe, \<open>task_3/fifo/fifo_writer.c\<close> and
  \<open>task_3/fifo/fifo_reader.c\<close>: two processes that meet in \<open>open\<close>, the writer sends the
  file in chunks of 4095 bytes, the reader appends what it reads to its output and stops
  at the end of the stream or when a read of four bytes looks like \<open>"quit"\<close>.  The model
  interleaves the library calls of the two; the result is described exactly, for every
  file and every content of the reader's uninitialised buffer.
  The transfer refines the bounded channel of \<open>Channel\<close>.
\<close>

section \<open>The two programs\<close>

definition FIFO_CHUNK :: nat where
  "FIFO_CHUNK = 4095"

datatype fwriter_pc = FOpen | FFread | FWrite | FDone | FFault
datatype freader_pc = GOpen | GRead | GDone | GFault

record fifo =
  fw_pc :: fwriter_pc
  fw_buf :: bytes
  fw_size :: nat
  fw_input :: bytes
  fr_pc :: freader_pc
  fr_buf :: bytes
  fr_output :: bytes
  chan :: kpipe

text \<open>
  The start of the writer: a missing argument ends it with status 1, a file that cannot
  be opened with a failed assertion.
\<close>

definition fifo_writer_file :: "string list \<Rightarrow> (string \<Rightarrow> bytes option) \<Rightarrow> bytes result" where
  "fifo_writer_file argv fs =
     (if length argv = 1 then Inl CallFailed
      else case fs (argv ! 1) of None \<Rightarrow> Inl Aborted | Some f \<Rightarrow> Inr f)"

text \<open>
  One round of the writer's loop is a \<open>fread\<close> and a \<open>write\<close>.  At the end of the file
  \<open>"quit"\<close> is put into the buffer, but the loop is left before it is sent.
\<close>

definition fifo_fread :: "fifo \<Rightarrow> fifo result" where
  "fifo_fread s =
     (let (xs, rest) = fread FIFO_CHUNK (fw_input s)
      in if length xs = 0
         then bindS (poke (fw_buf s) 0 (lit ''quit'')) (\<lambda>b.
                Inr (s\<lparr>fw_buf := b, fw_size := 4, fw_pc := FDone, chan := (chan s)\<lparr>writers := 0\<rparr>\<rparr>))
         else bindS (poke (fw_buf s) 0 xs) (\<lambda>b.
                Inr (s\<lparr>fw_buf := b, fw_size := length xs, fw_input := rest, fw_pc := FWrite\<rparr>)))"

definition fifo_write :: "fifo \<Rightarrow> fifo result" where
  "fifo_write s =
     bindS (peek (fw_buf s) (fw_size s)) (\<lambda>xs.
       case pipe_write (chan s) xs of
         None \<Rightarrow> Inl Blocked
       | Some c \<Rightarrow> Inr (s\<lparr>chan := c, fw_pc := FFread\<rparr>))"

definition fifo_writer_step :: "fifo \<Rightarrow> fifo result" where
  "fifo_writer_step s =
     (case fw_pc s of FFread \<Rightarrow> fifo_fread s | FWrite \<Rightarrow> fifo_write s | _ \<Rightarrow> Inl Blocked)"

text \<open>One round of the reader's loop.\<close>

definition fifo_reader_step :: "fifo \<Rightarrow> fifo result" where
  "fifo_reader_step s =
     (if fr_pc s \<noteq> GRead then Inl Blocked
      else case pipe_read (chan s) FIFO_CHUNK of
        None \<Rightarrow> Inl Blocked
      | Some (xs, c) \<Rightarrow>
          if xs = [] then Inr (s\<lparr>chan := c, fr_pc := GDone\<rparr>)
          else bindS (poke (fr_buf s) 0 xs) (\<lambda>b.
               bindS (if length xs = 4 then strcmp_eq b (lit ''quit'') else Inr False) (\<lambda>quit.
                 if quit then Inr (s\<lparr>chan := c, fr_buf := b, fr_pc := GDone\<rparr>)
                 else bindS (peek b (length xs)) (\<lambda>ys.
                   Inr (s\<lparr>chan := c, fr_buf := b, fr_output := fr_output s @ ys\<rparr>)))))"

text \<open>Opening a FIFO waits for the process at the other end, so both \<open>open\<close>s return together.\<close>

inductive fifo_step :: "fifo \<Rightarrow> fifo \<Rightarrow> bool" where
  connect: "fw_pc s = FOpen \<Longrightarrow> fr_pc s = GOpen \<Longrightarrow>
     fifo_step s (s\<lparr>fw_pc := FFread, fr_pc := GRead, chan := \<lparr>buffered = [], writers = 1\<rparr>\<rparr>)"
| writes: "fifo_writer_step s = Inr t \<Longrightarrow> fifo_step s t"
| writer_fault: "fifo_writer_step s = Inl e \<Longrightarrow> e \<noteq> Blocked \<Longrightarrow> fifo_step s (s\<lparr>fw_pc := FFault\<rparr>)"
| reads: "fifo_reader_step s = Inr t \<Longrightarrow> fifo_step s t"
| reader_fault: "fifo_reader_step s = Inl e \<Longrightarrow> e \<noteq> Blocked \<Longrightarrow> fifo_step s (s\<lparr>fr_pc := GFault\<rparr>)"

inductive_cases fifo_stepE: "fifo_step s t"

definition fifo_start :: "bytes \<Rightarrow> bytes \<Rightarrow> bytes \<Rightarrow> fifo" where
  "fifo_start wbuf rbuf f =
     \<lparr>fw_pc = FOpen, fw_buf = wbuf, fw_size = 0, fw_input = f,
      fr_pc = GOpen, fr_buf = rbuf, fr_output = [], chan = \<lparr>buffered = [], writers = 0\<rparr>\<rparr>"

definition fifo_final :: "fifo \<Rightarrow> bool" where
  "fifo_final s \<longleftrightarrow> fw_pc s = FDone \<and> fr_pc s = GDone"

section \<open>What arrives\<close>

text \<open>
  The whole file, unless its last chunk is the four bytes \<open>quit\<close> and the fifth byte of the
  reader's buffer happens to be NUL.  That byte is left from the chunk before, or it was
  there from the start.
\<close>

definition full_part :: "bytes \<Rightarrow> nat" where
  "full_part f = FIFO_CHUNK * (length f div FIFO_CHUNK)"

definition stale :: "bytes \<Rightarrow> bytes \<Rightarrow> nat \<Rightarrow> byte" where
  "stale rbuf f n = (if n = 0 then rbuf ! 4 else f ! (n - FIFO_CHUNK + 4))"

definition swallowed :: "bytes \<Rightarrow> bytes \<Rightarrow> bool" where
  "swallowed rbuf f \<longleftrightarrow> drop (full_part f) f = ''quit'' \<and> stale rbuf f (full_part f) = NUL"

definition fifo_output :: "bytes \<Rightarrow> bytes \<Rightarrow> bytes" where
  "fifo_output rbuf f = (if swallowed rbuf f then take (full_part f) f else f)"

section \<open>Invariant\<close>

text \<open>The bytes the writer still has: what \<open>fread\<close> put into its buffer and the unread rest.\<close>

definition fifo_rest :: "fifo \<Rightarrow> bytes" where
  "fifo_rest s = (if fw_pc s = FWrite then take (fw_size s) (fw_buf s) else []) @ fw_input s"

definition fifo_inv :: "bytes \<Rightarrow> bytes \<Rightarrow> fifo \<Rightarrow> bool" where
  "fifo_inv rbuf f s \<longleftrightarrow>
     length (fw_buf s) = 4096 \<and> length (fr_buf s) = 4096 \<and>
     (fw_pc s = FOpen \<longleftrightarrow> fr_pc s = GOpen) \<and> fw_pc s \<noteq> FFault \<and> fr_pc s \<noteq> GFault \<and>
     (fw_pc s = FWrite \<longrightarrow> 0 < fw_size s \<and> fw_size s \<le> FIFO_CHUNK \<and>
        (fw_size s = FIFO_CHUNK \<or> fw_input s = [])) \<and>
     (fw_pc s = FDone \<longrightarrow> fw_input s = []) \<and>
     (fw_pc s = FOpen \<longrightarrow> fr_output s = [] \<and> buffered (chan s) = []) \<and>
     (fw_pc s \<in> {FFread, FWrite} \<longrightarrow> writers (chan s) = 1) \<and>
     (fw_pc s = FDone \<longrightarrow> writers (chan s) = 0) \<and>
     (if fr_pc s = GDone
      then fifo_rest s = [] \<and> buffered (chan s) = [] \<and> fr_output s = fifo_output rbuf f
      else fr_output s @ buffered (chan s) @ fifo_rest s = f \<and>
           (FIFO_CHUNK dvd length (fr_output s @ buffered (chan s)) \<or> fifo_rest s = []) \<and>
           ((FIFO_CHUNK dvd length (fr_output s) \<and>
              fr_buf s ! 4 = stale rbuf f (length (fr_output s))) \<or>
            buffered (chan s) = [] \<and> fifo_rest s = [] \<and> \<not> swallowed rbuf f))"

definition fifo_rank :: "fifo \<Rightarrow> nat" where
  "fifo_rank s =
     3 * length (fw_input s) + (if fw_pc s = FWrite then 2 * fw_size s else 0) +
     length (buffered (chan s)) +
     (case fw_pc s of FDone \<Rightarrow> 0 | FOpen \<Rightarrow> 2 | _ \<Rightarrow> 1) +
     (case fr_pc s of GDone \<Rightarrow> 0 | _ \<Rightarrow> 1)"

lemma full_part_unique:
  "FIFO_CHUNK dvd n \<Longrightarrow> n \<le> length f \<Longrightarrow> length f < n + FIFO_CHUNK \<Longrightarrow> full_part f = n"
proof -
  assume a: "FIFO_CHUNK dvd n" "n \<le> length f" "length f < n + FIFO_CHUNK"
  then obtain k where k: "n = FIFO_CHUNK * k" by blast
  with a have "length f div FIFO_CHUNK = k"
    by (intro div_nat_eqI) (simp_all add: algebra_simps)
  with k show ?thesis by (simp add: full_part_def)
qed

lemma not_swallowed: "drop (full_part f) f \<noteq> ''quit'' \<Longrightarrow> fifo_output rbuf f = f"
  by (simp add: fifo_output_def swallowed_def)


section \<open>The steps\<close>

text \<open>A step of the writer that moves no byte.\<close>

definition fifo_same :: "fifo \<Rightarrow> fifo \<Rightarrow> bool" where
  "fifo_same s t \<longleftrightarrow> fifo_rest t = fifo_rest s \<and> buffered (chan t) = buffered (chan s) \<and>
     fr_pc t = fr_pc s \<and> fr_output t = fr_output s"

lemma fifo_fread_step:
  assumes "fifo_inv rbuf f s" "fw_pc s = FFread"
  shows "\<exists>t. fifo_fread s = Inr t \<and> fifo_inv rbuf f t \<and> fifo_rank t < fifo_rank s \<and> fifo_same s t"
proof (cases "fw_input s = []")
  case True
  let ?t = "s\<lparr>fw_buf := lit ''quit'' @ drop 5 (fw_buf s), fw_size := 4, fw_pc := FDone,
      chan := (chan s)\<lparr>writers := 0\<rparr>\<rparr>"
  have b: "length (fw_buf s) = 4096" using assms(1) by (simp add: fifo_inv_def)
  then have "fifo_fread s = Inr ?t"
    using True by (simp add: fifo_fread_def fread_def quit_simps)
  moreover have r: "fifo_rest s = []" "fifo_rest ?t = []" using True assms(2) by (simp_all add: fifo_rest_def)
  then have "fifo_inv rbuf f ?t"
    using assms b True unfolding fifo_inv_def r by (simp split: if_splits)
  moreover have "fifo_same s ?t" using r by (simp add: fifo_same_def)
  moreover have "fifo_rank ?t < fifo_rank s"
    using assms(2) by (simp add: fifo_rank_def)
  ultimately show ?thesis by blast
next
  case False
  let ?n = "min (length (fw_input s)) FIFO_CHUNK"
  have n: "0 < ?n" using False by (simp add: FIFO_CHUNK_def)
  have b: "length (fw_buf s) = 4096" using assms(1) by (simp add: fifo_inv_def)
  let ?xs = "take FIFO_CHUNK (fw_input s)"
  let ?t = "s\<lparr>fw_buf := ?xs @ drop (length ?xs) (fw_buf s), fw_size := length ?xs,
      fw_input := drop FIFO_CHUNK (fw_input s), fw_pc := FWrite\<rparr>"
  have "fifo_fread s = Inr ?t"
    using False b by (simp add: fifo_fread_def fread_def poke_ok FIFO_CHUNK_def)
  moreover have "fifo_same s ?t" using assms(2) by (simp add: fifo_same_def fifo_rest_def)
  moreover have "fifo_rest ?t = fifo_rest s" using assms(2) by (simp add: fifo_rest_def)
  then have "fifo_inv rbuf f ?t"
    using assms n b unfolding fifo_inv_def by (auto simp: FIFO_CHUNK_def)
  moreover have "fifo_rank ?t < fifo_rank s"
    using assms(2) take_drop_rank [of FIFO_CHUNK "fw_input s"] False
    by (simp add: fifo_rank_def FIFO_CHUNK_def)
  ultimately show ?thesis by blast
qed

lemma fifo_write_step:
  assumes "fifo_inv rbuf f s" "fw_pc s = FWrite" "fifo_write s = Inr t"
  shows "fifo_inv rbuf f t \<and> fifo_rank t < fifo_rank s"
proof -
  let ?xs = "take (fw_size s) (fw_buf s)"
  have sz: "0 < fw_size s" "fw_size s \<le> FIFO_CHUNK" "length (fw_buf s) = 4096"
    and full: "fw_size s = FIFO_CHUNK \<or> fw_input s = []"
    using assms(1,2) by (auto simp: fifo_inv_def)
  then have len: "length ?xs = fw_size s" by (simp add: FIFO_CHUNK_def)
  have rest: "fifo_rest s = ?xs @ fw_input s" using assms(2) by (simp add: fifo_rest_def)
  obtain c where c: "pipe_write (chan s) ?xs = Some c" and t: "t = s\<lparr>chan := c, fw_pc := FFread\<rparr>"
    using assms(3) sz
    by (auto simp: fifo_write_def peek_def FIFO_CHUNK_def split: option.splits)
  have bl: "length (buffered c) = length (buffered (chan s)) + fw_size s"
    by (simp only: pipe.write_content [OF c] length_append len)
  have bc: "buffered c = buffered (chan s) @ ?xs" and wc: "writers c = writers (chan s)"
    using pipe.write_content [OF c] pipe_writers(1) [OF c] by auto
  have ne: "fifo_rest s \<noteq> []" using rest sz len by auto
  have live: "fr_pc s \<noteq> GDone" using assms(1) ne by (auto simp: fifo_inv_def)
  have "fifo_rest t = fw_input s" using t by (simp add: fifo_rest_def)
  moreover have "FIFO_CHUNK dvd length (fr_output s @ buffered c) \<or> fw_input s = []"
  proof (cases "fw_size s = FIFO_CHUNK")
    case True
    have "FIFO_CHUNK dvd length (fr_output s @ buffered (chan s)) + FIFO_CHUNK"
      using assms(1) live ne by (auto simp: fifo_inv_def)
    moreover have "length (fr_output s @ buffered c) =
        length (fr_output s @ buffered (chan s)) + FIFO_CHUNK"
      by (simp add: bl True)
    ultimately show ?thesis by (intro disjI1) (simp only:)
  qed (use full in simp)
  moreover have "fr_output s @ buffered c @ fw_input s = f"
    using assms(1) live bc rest by (simp add: fifo_inv_def)
  moreover have "FIFO_CHUNK dvd length (fr_output s) \<and>
      fr_buf s ! 4 = stale rbuf f (length (fr_output s))"
    using assms(1) live ne by (auto simp: fifo_inv_def)
  ultimately have "fifo_inv rbuf f t"
    using assms(1,2) live wc unfolding fifo_inv_def t by simp
  moreover have "fifo_rank t < fifo_rank s"
    using assms(2) sz bl by (simp add: t fifo_rank_def)
  ultimately show ?thesis ..
qed

lemma fifo_read_eof_step:
  assumes "fifo_inv rbuf f s" "fr_pc s = GRead" "pipe_read (chan s) FIFO_CHUNK = Some ([], c)"
  shows "fifo_inv rbuf f (s\<lparr>chan := c, fr_pc := GDone\<rparr>)"
proof -
  have e: "buffered (chan s) = []" "writers (chan s) = 0" "c = chan s"
    using assms(3) by (auto simp: pipe_read_def FIFO_CHUNK_def split: if_splits)
  then have "fw_pc s = FDone"
    using assms(1,2) by (cases "fw_pc s") (auto simp: fifo_inv_def)
  then have r: "fifo_rest s = []" using assms(1) by (simp add: fifo_inv_def fifo_rest_def)
  have out: "fr_output s = f" using assms(1,2) e r by (simp add: fifo_inv_def)
  have "\<not> swallowed rbuf f"
  proof (cases "FIFO_CHUNK dvd length f")
    case True
    then have "full_part f = length f" by (intro full_part_unique) (simp_all add: FIFO_CHUNK_def)
    then show ?thesis by (simp add: swallowed_def)
  next
    case False
    with assms(1,2) out show ?thesis by (auto simp: fifo_inv_def)
  qed
  then have "fifo_output rbuf f = f" by (simp add: fifo_output_def)
  moreover have "fifo_rest (s\<lparr>chan := c, fr_pc := GDone\<rparr>) = fifo_rest s" by (simp add: fifo_rest_def)
  moreover have "length (fw_buf s) = 4096 \<and> length (fr_buf s) = 4096 \<and> fw_input s = []"
    using assms(1) \<open>fw_pc s = FDone\<close> by (simp add: fifo_inv_def)
  ultimately show ?thesis
    using \<open>fw_pc s = FDone\<close> e out r unfolding fifo_inv_def by simp
qed

lemma fifo_rest_reader [simp]:
  "fifo_rest (s\<lparr>chan := c, fr_buf := b, fr_output := ys\<rparr>) = fifo_rest s"
  "fifo_rest (s\<lparr>chan := c, fr_buf := b, fr_pc := pc\<rparr>) = fifo_rest s"
  by (simp_all add: fifo_rest_def)

text \<open>A full chunk arrives: the fifth byte of the buffer is now its fifth byte.\<close>

lemma fifo_read_full:
  assumes inv: "fifo_inv rbuf f s" and pc: "fr_pc s = GRead"
    and long: "FIFO_CHUNK \<le> length (buffered (chan s))"
    and c: "c = (chan s)\<lparr>buffered := drop FIFO_CHUNK (buffered (chan s))\<rparr>"
    and b: "b = take FIFO_CHUNK (buffered (chan s)) @ drop FIFO_CHUNK (fr_buf s)"
  shows "fifo_inv rbuf f
    (s\<lparr>chan := c, fr_buf := b, fr_output := fr_output s @ take FIFO_CHUNK (buffered (chan s))\<rparr>)"
proof -
  let ?B = "buffered (chan s)" and ?O = "fr_output s"
  let ?t = "s\<lparr>chan := c, fr_buf := b, fr_output := ?O @ take FIFO_CHUNK ?B\<rparr>"
  have ne: "?B \<noteq> []" using long by (auto simp: FIFO_CHUNK_def)
  have f: "f = ?O @ ?B @ fifo_rest s" and d: "FIFO_CHUNK dvd length ?O"
    and q: "FIFO_CHUNK dvd length (?O @ ?B) \<or> fifo_rest s = []"
    using inv pc ne by (auto simp: fifo_inv_def)
  have l: "length (?O @ take FIFO_CHUNK ?B) = length ?O + FIFO_CHUNK" using long by simp
  have "b ! 4 = ?B ! 4" using long by (simp add: b nth_append FIFO_CHUNK_def)
  also have "\<dots> = f ! (length ?O + 4)" using long by (simp add: f nth_append FIFO_CHUNK_def)
  also have "\<dots> = stale rbuf f (length (?O @ take FIFO_CHUNK ?B))"
    unfolding l by (simp add: stale_def FIFO_CHUNK_def)
  finally have st: "b ! 4 = stale rbuf f (length (?O @ take FIFO_CHUNK ?B))" .
  have "length b = 4096" using inv long by (simp add: b fifo_inv_def FIFO_CHUNK_def)
  moreover have "(?O @ take FIFO_CHUNK ?B) @ buffered c @ fifo_rest s = f" using f by (simp add: c)
  moreover have "FIFO_CHUNK dvd length ((?O @ take FIFO_CHUNK ?B) @ buffered c) \<or> fifo_rest s = []"
    using q by (simp add: c)
  moreover have "FIFO_CHUNK dvd length (?O @ take FIFO_CHUNK ?B)" unfolding l using d by simp
  moreover have "fw_pc s \<noteq> FOpen" using inv pc by (auto simp: fifo_inv_def)
  ultimately show ?thesis
    using inv pc st unfolding fifo_inv_def by (auto simp: c)
qed

text \<open>The last, short chunk arrives.\<close>

lemma fifo_read_short:
  assumes inv: "fifo_inv rbuf f s" and pc: "fr_pc s = GRead" and ne: "buffered (chan s) \<noteq> []"
    and short: "length (buffered (chan s)) < FIFO_CHUNK"
  shows "fifo_rest s = []" "f = fr_output s @ buffered (chan s)"
    "full_part f = length (fr_output s)"
    "swallowed rbuf f \<longleftrightarrow> buffered (chan s) = ''quit'' \<and> fr_buf s ! 4 = NUL"
proof -
  let ?B = "buffered (chan s)" and ?O = "fr_output s"
  have f: "f = ?O @ ?B @ fifo_rest s" and d: "FIFO_CHUNK dvd length ?O"
    and st: "fr_buf s ! 4 = stale rbuf f (length ?O)"
    and q: "FIFO_CHUNK dvd length (?O @ ?B) \<or> fifo_rest s = []"
    using inv pc ne by (auto simp: fifo_inv_def)
  have "\<not> FIFO_CHUNK dvd length (?O @ ?B)"
    using d short ne by (auto simp: dvd_add_right_iff dest: dvd_imp_le)
  with q show r: "fifo_rest s = []" by blast
  with f show f': "f = ?O @ ?B" by simp
  then have fp: "full_part f = length ?O" using d short by (intro full_part_unique) auto
  then show "full_part f = length ?O" .
  show "swallowed rbuf f \<longleftrightarrow> ?B = ''quit'' \<and> fr_buf s ! 4 = NUL"
    unfolding swallowed_def fp by (simp add: st f')
qed


lemma fifo_reader_data:
  assumes "fr_pc s = GRead" "pipe_read (chan s) FIFO_CHUNK = Some (xs, c)" "xs \<noteq> []"
    and "poke (fr_buf s) 0 xs = Inr b" "strcmp_eq b (lit ''quit'') = Inr q"
    and "peek b (length xs) = Inr xs"
  shows "length xs = 4 \<and> q \<Longrightarrow>
      fifo_reader_step s = Inr (s\<lparr>chan := c, fr_buf := b, fr_pc := GDone\<rparr>)"
    and "\<not> (length xs = 4 \<and> q) \<Longrightarrow>
      fifo_reader_step s = Inr (s\<lparr>chan := c, fr_buf := b, fr_output := fr_output s @ xs\<rparr>)"
  using assms by (auto simp: fifo_reader_step_def)

lemma take_splice4:
  "length xs = 4 \<Longrightarrow> 4 < length b \<Longrightarrow> take 5 (xs @ drop 4 b) = xs @ [b ! 4]"
  by (simp add: Cons_nth_drop_Suc [symmetric])

lemma fifo_read_data_step:
  assumes inv: "fifo_inv rbuf f s" and pc: "fr_pc s = GRead" and ne: "buffered (chan s) \<noteq> []"
  shows "\<exists>t. fifo_reader_step s = Inr t \<and> fifo_inv rbuf f t \<and> fifo_rank t < fifo_rank s"
proof -
  let ?B = "buffered (chan s)"
  let ?xs = "take FIFO_CHUNK ?B"
  let ?c = "(chan s)\<lparr>buffered := drop FIFO_CHUNK ?B\<rparr>"
  let ?b = "?xs @ drop (length ?xs) (fr_buf s)"
  let ?t = "s\<lparr>chan := ?c, fr_buf := ?b, fr_output := fr_output s @ ?xs\<rparr>"
  have rd: "pipe_read (chan s) FIFO_CHUNK = Some (?xs, ?c)" using ne by (simp add: pipe_read_def)
  have xs: "?xs \<noteq> []" "length ?xs \<le> length (fr_buf s)" "length (fr_buf s) = 4096"
    using ne inv by (simp_all add: fifo_inv_def FIFO_CHUNK_def)
  have pk: "poke (fr_buf s) 0 ?xs = Inr ?b" using xs by (simp add: poke_def)
  have sc: "strcmp_eq ?b (lit ''quit'') = Inr (take 5 ?b = lit ''quit'')"
    using xs by (intro strcmp_quit) simp
  have pe: "peek ?b (length ?xs) = Inr ?xs" using xs by (simp add: peek_def)
  let ?q = "length ?xs = 4 \<and> take 5 ?b = lit ''quit''"
  let ?u = "s\<lparr>chan := ?c, fr_buf := ?b, fr_pc := GDone\<rparr>"
  have step: "?q \<Longrightarrow> fifo_reader_step s = Inr ?u" "\<not> ?q \<Longrightarrow> fifo_reader_step s = Inr ?t"
    by (rule fifo_reader_data [OF pc rd xs(1) pk sc pe], assumption)+
  have rank: "fifo_rank ?t < fifo_rank s" "fifo_rank ?u < fifo_rank s"
    using ne pc by (simp_all add: fifo_rank_def FIFO_CHUNK_def)
  show ?thesis
  proof (cases "FIFO_CHUNK \<le> length ?B")
    case True
    then have l: "length ?xs = FIFO_CHUNK" by simp
    then have "fifo_inv rbuf f ?t" by (intro fifo_read_full [OF inv pc True]) simp_all
    moreover have "\<not> ?q" using l by (simp add: FIFO_CHUNK_def)
    ultimately show ?thesis using step(2) rank(1) by blast
  next
    case False
    note sh = fifo_read_short [OF inv pc ne]
    have xB: "?xs = ?B" using False by simp
    have lB: "length (fr_buf s) = 4096" by (rule xs(3))
    have q: "?q \<longleftrightarrow> swallowed rbuf f"
    proof -
      have "take 5 ?b = ?B @ [fr_buf s ! 4]" if "length ?B = 4"
        using take_splice4 [OF that, of "fr_buf s"] that lB by (simp only: xB)
      moreover have "?B = ''quit'' \<Longrightarrow> length ?B = 4" by simp
      moreover have "swallowed rbuf f \<longleftrightarrow> ?B = ''quit'' \<and> fr_buf s ! 4 = NUL"
        using sh(4) False by simp
      ultimately show ?thesis unfolding xB by (metis append1_eq_conv)
    qed
    have r: "fifo_rest s = []" "f = fr_output s @ ?B" "full_part f = length (fr_output s)"
      using sh False by auto
    have dB: "drop FIFO_CHUNK ?B = []" using False by simp
    have lb: "length ?b = 4096" using xs by simp
    show ?thesis
    proof (cases "swallowed rbuf f")
      case True
      then have "fifo_output rbuf f = fr_output s" using r by (simp add: fifo_output_def)
      then have "fifo_inv rbuf f ?u"
        using inv pc r(1) lb dB unfolding fifo_inv_def by auto
      then show ?thesis using step(1) rank(2) q True by blast
    next
      case notsw: False
      then have "fifo_inv rbuf f ?t"
        using inv pc r lb dB xB unfolding fifo_inv_def by auto
      then show ?thesis using step(2) rank(1) q notsw by blast
    qed
  qed
qed


section \<open>Every run ends\<close>

lemma fifo_connect:
  "fifo_inv rbuf f s \<Longrightarrow> fw_pc s = FOpen \<Longrightarrow>
   fifo_inv rbuf f (s\<lparr>fw_pc := FFread, fr_pc := GRead, chan := \<lparr>buffered = [], writers = 1\<rparr>\<rparr>)"
  by (auto simp: fifo_inv_def fifo_rest_def)

lemma fifo_writer_total:
  assumes "fifo_inv rbuf f s" "fifo_writer_step s = r"
  shows "case r of Inl e \<Rightarrow> e = Blocked | Inr t \<Rightarrow> fifo_inv rbuf f t \<and> fifo_rank t < fifo_rank s"
proof (cases "fw_pc s = FWrite")
  case True
  show ?thesis
  proof (cases r)
    case (Inl e)
    with True assms show ?thesis
      by (auto simp: fifo_writer_step_def fifo_write_def fifo_inv_def peek_def FIFO_CHUNK_def
          split: option.splits)
  next
    case (Inr t)
    with True assms fifo_write_step show ?thesis by (auto simp: fifo_writer_step_def)
  qed
next
  case False
  with assms fifo_fread_step [of rbuf f s] show ?thesis
    by (cases "fw_pc s") (auto simp: fifo_writer_step_def)
qed

lemma fifo_reader_total:
  assumes "fifo_inv rbuf f s" "fifo_reader_step s = r"
  shows "case r of Inl e \<Rightarrow> e = Blocked | Inr t \<Rightarrow> fifo_inv rbuf f t \<and> fifo_rank t < fifo_rank s"
proof (cases "fr_pc s = GRead")
  case True
  show ?thesis
  proof (cases "buffered (chan s) = []")
    case False
    with True assms fifo_read_data_step [of rbuf f s] show ?thesis by auto
  next
    case empty: True
    show ?thesis
    proof (cases "writers (chan s) = 0")
      case closed: True
      with empty have "pipe_read (chan s) FIFO_CHUNK = Some ([], chan s)"
        by (simp add: pipe_read_def)
      moreover from this have "fifo_inv rbuf f (s\<lparr>chan := chan s, fr_pc := GDone\<rparr>)"
        using assms(1) True by (intro fifo_read_eof_step)
      ultimately show ?thesis
        using assms(2) True by (auto simp: fifo_reader_step_def fifo_rank_def)
    next
      case False
      with True empty assms show ?thesis by (auto simp: fifo_reader_step_def pipe_read_def)
    qed
  qed
next
  case False
  with assms show ?thesis by (auto simp: fifo_reader_step_def)
qed

lemma fifo_step_ok:
  assumes "fifo_inv rbuf f s" "fifo_step s t"
  shows "fifo_inv rbuf f t \<and> fifo_rank t < fifo_rank s"
  using assms(2)
proof (cases rule: fifo_step.cases)
  case connect
  then have "fifo_inv rbuf f t" using fifo_connect [OF assms(1)] by simp
  moreover have "fifo_rank t < fifo_rank s" using connect by (simp add: fifo_rank_def)
  ultimately show ?thesis ..
next
  case writes
  then show ?thesis using fifo_writer_total [OF assms(1), of "Inr t"] by simp
next
  case (writer_fault e)
  then show ?thesis using fifo_writer_total [OF assms(1), of "Inl e"] by simp
next
  case reads
  then show ?thesis using fifo_reader_total [OF assms(1), of "Inr t"] by simp
next
  case (reader_fault e)
  then show ?thesis using fifo_reader_total [OF assms(1), of "Inl e"] by simp
qed

lemma fifo_progress:
  assumes "fifo_inv rbuf f s" "\<not> fifo_final s"
  shows "\<exists>t. fifo_step s t"
proof -
  have data: "buffered (chan s) \<noteq> [] \<Longrightarrow> \<exists>t. fifo_step s t"
  proof -
    assume ne: "buffered (chan s) \<noteq> []"
    then have "fr_pc s = GRead"
      using assms(1) by (cases "fr_pc s") (auto simp: fifo_inv_def)
    with ne show ?thesis
      using fifo_read_data_step [OF assms(1)] fifo_step.reads by blast
  qed
  show ?thesis
  proof (cases "fw_pc s")
    case FOpen
    then have "fr_pc s = GOpen" using assms(1) by (simp add: fifo_inv_def)
    with FOpen show ?thesis using fifo_step.connect by blast
  next
    case FFread
    then obtain t where "fifo_fread s = Inr t" using fifo_fread_step [OF assms(1)] by blast
    with FFread have "fifo_writer_step s = Inr t" by (simp add: fifo_writer_step_def)
    then show ?thesis using fifo_step.writes by blast
  next
    case FWrite
    show ?thesis
    proof (cases "buffered (chan s) = []")
      case True
      with FWrite assms(1) have "\<exists>t. fifo_writer_step s = Inr t"
        by (simp add: fifo_writer_step_def fifo_write_def fifo_inv_def peek_def pipe_write_def
            FIFO_CHUNK_def PIPE_CAP_def)
      then show ?thesis using fifo_step.writes by blast
    qed (rule data)
  next
    case FDone
    show ?thesis
    proof (cases "buffered (chan s) = []")
      case True
      have "fr_pc s = GRead"
        using FDone assms by (cases "fr_pc s") (auto simp: fifo_inv_def fifo_final_def)
      moreover have "writers (chan s) = 0" using FDone assms(1) by (simp add: fifo_inv_def)
      ultimately have "\<exists>t. fifo_reader_step s = Inr t"
        using True by (simp add: fifo_reader_step_def pipe_read_def)
      then show ?thesis using fifo_step.reads by blast
    qed (rule data)
  next
    case FFault
    with assms(1) show ?thesis by (simp add: fifo_inv_def)
  qed
qed

lemma fifo_inv_start:
  "length wbuf = 4096 \<Longrightarrow> length rbuf = 4096 \<Longrightarrow> fifo_inv rbuf f (fifo_start wbuf rbuf f)"
  by (simp add: fifo_inv_def fifo_start_def fifo_rest_def stale_def)

interpretation fifo_run: live_inv
  "\<lambda>s. \<exists>wbuf. length wbuf = 4096 \<and> length rbuf = 4096 \<and> s = fifo_start wbuf rbuf f" fifo_step
  "fifo_inv rbuf f" fifo_final fifo_rank
  for rbuf f
  by unfold_locales (use fifo_inv_start fifo_step_ok fifo_progress in blast)+

section \<open>The FIFO as a channel\<close>

definition fifo_view :: "bytes \<Rightarrow> fifo \<Rightarrow> byte channel \<Rightarrow> bool" where
  "fifo_view f s c \<longleftrightarrow> unsent c = fifo_rest s \<and> travelling c = buffered (chan s) \<and>
     arrived c = (if fr_pc s = GDone then f else fr_output s)"

lemma fifo_view_same: "fifo_view f s c \<Longrightarrow> fifo_same s t \<Longrightarrow> fifo_view f t c"
  by (simp add: fifo_view_def fifo_same_def)

lemma fifo_writer_view:
  assumes inv: "fifo_inv rbuf f s" and step: "fifo_writer_step s = Inr t" and view: "fifo_view f s c"
  shows "fifo_view f t c \<or> (\<exists>d. chan_step PIPE_CAP c d \<and> fifo_view f t d)"
proof (cases "fw_pc s")
  case FFread
  then have "fifo_fread s = Inr t" using step by (simp add: fifo_writer_step_def)
  then have "fifo_same s t" using fifo_fread_step [OF inv FFread] by auto
  then show ?thesis using fifo_view_same [OF view] by blast
next
  case FWrite
  let ?xs = "take (fw_size s) (fw_buf s)"
  have sz: "0 < fw_size s" "fw_size s \<le> length (fw_buf s)"
    using inv FWrite by (auto simp: fifo_inv_def FIFO_CHUNK_def)
  obtain p where p: "pipe_write (chan s) ?xs = Some p" "t = s\<lparr>chan := p, fw_pc := FFread\<rparr>"
    using step FWrite sz(2)
    by (auto simp: fifo_writer_step_def fifo_write_def peek_def split: option.splits)
  have "?xs \<noteq> []" using sz by auto
  then have "chan_step PIPE_CAP c (c\<lparr>unsent := fw_input s, travelling := buffered p\<rparr>)"
    using view FWrite by (intro pipe_write_channel [OF p(1)]) (simp_all add: fifo_view_def fifo_rest_def)
  moreover have "fifo_view f t (c\<lparr>unsent := fw_input s, travelling := buffered p\<rparr>)"
    using view p(2) by (simp add: fifo_view_def fifo_rest_def)
  ultimately show ?thesis by blast
qed (use step in \<open>simp_all add: fifo_writer_step_def\<close>)

lemma fifo_reader_shape:
  assumes "fifo_reader_step s = Inr t"
  obtains (eof) p where "pipe_read (chan s) FIFO_CHUNK = Some ([], p)" "t = s\<lparr>chan := p, fr_pc := GDone\<rparr>"
  | (quit) xs p b where "pipe_read (chan s) FIFO_CHUNK = Some (xs, p)" "xs \<noteq> []"
      "t = s\<lparr>chan := p, fr_buf := b, fr_pc := GDone\<rparr>"
  | (data) xs p b where "pipe_read (chan s) FIFO_CHUNK = Some (xs, p)" "xs \<noteq> []"
      "t = s\<lparr>chan := p, fr_buf := b, fr_output := fr_output s @ xs\<rparr>"
  using assms
  by (auto simp: fifo_reader_step_def bindS_eq_Inr_iff poke_Inr peek_Inr split: if_splits option.splits)

lemma fifo_reader_view:
  assumes inv: "fifo_inv rbuf f s" and step: "fifo_reader_step s = Inr t" and view: "fifo_view f s c"
  shows "fifo_view f t c \<or> (\<exists>d. chan_step PIPE_CAP c d \<and> fifo_view f t d)"
proof -
  have pc: "fr_pc s = GRead" using step by (auto simp: fifo_reader_step_def split: if_splits)
  have inv': "fifo_inv rbuf f t" using fifo_reader_total [OF inv step] by simp
  have f: "fr_output s @ buffered (chan s) @ fifo_rest s = f" using inv pc by (simp add: fifo_inv_def)
  have arr: "arrived c = fr_output s" using view pc by (simp add: fifo_view_def)
  show ?thesis
    using step
  proof (cases rule: fifo_reader_shape)
    case (eof p)
    then have "buffered (chan s) = []" "p = chan s" "fifo_rest t = []"
      using inv' by (auto simp: pipe_read_def fifo_inv_def FIFO_CHUNK_def split: if_splits)
    moreover have "fifo_rest t = fifo_rest s" using eof(2) by (simp add: fifo_rest_def)
    ultimately have "fifo_view f t c" using view f eof(2) arr by (simp add: fifo_view_def)
    then show ?thesis ..
  next
    case (quit xs p b)
    let ?d = "c\<lparr>travelling := buffered p, arrived := arrived c @ xs\<rparr>"
    have "buffered p = []" "fifo_rest s = []" using inv' quit(3) by (auto simp: fifo_inv_def fifo_rest_def)
    then have "arrived ?d = f" using f arr pipe.read_content [OF quit(1)] by simp
    then have "fifo_view f t ?d" using view quit(3) by (simp add: fifo_view_def fifo_rest_def)
    moreover have "chan_step PIPE_CAP c ?d"
      using view by (intro pipe_read_channel [OF quit(1,2)]) (simp add: fifo_view_def)
    ultimately show ?thesis by blast
  next
    case (data xs p b)
    let ?d = "c\<lparr>travelling := buffered p, arrived := arrived c @ xs\<rparr>"
    have "fifo_view f t ?d" using view data(3) arr pc by (simp add: fifo_view_def fifo_rest_def)
    moreover have "chan_step PIPE_CAP c ?d"
      using view by (intro pipe_read_channel [OF data(1,2)]) (simp add: fifo_view_def)
    ultimately show ?thesis by blast
  qed
qed

lemma fifo_view_step:
  assumes "fifo_inv rbuf f s" "fifo_step s t" "fifo_view f s c"
  shows "fifo_view f t c \<or> (\<exists>d. chan_step PIPE_CAP c d \<and> fifo_view f t d)"
  using assms(2)
proof (cases rule: fifo_step.cases)
  case connect
  then have "fifo_view f t c" using assms(1,3) by (auto simp: fifo_view_def fifo_inv_def fifo_rest_def)
  then show ?thesis ..
next
  case writes
  then show ?thesis using fifo_writer_view assms(1,3) by blast
next
  case (writer_fault e)
  then show ?thesis using fifo_writer_total [OF assms(1), of "Inl e"] by simp
next
  case reads
  then show ?thesis using fifo_reader_view assms(1,3) by blast
next
  case (reader_fault e)
  then show ?thesis using fifo_reader_total [OF assms(1), of "Inl e"] by simp
qed

interpretation fifo_channel: medium
  "\<lambda>s. \<exists>wbuf. length wbuf = 4096 \<and> length rbuf = 4096 \<and> s = fifo_start wbuf rbuf f" fifo_step
  "fifo_inv rbuf f" PIPE_CAP f "fifo_view f"
  for rbuf f
proof unfold_locales
  show "fifo_view f s (chan_start f)"
    if "\<exists>wbuf. length wbuf = 4096 \<and> length rbuf = 4096 \<and> s = fifo_start wbuf rbuf f" for s
    using that by (auto simp: fifo_view_def fifo_start_def fifo_rest_def)
qed (rule fifo_view_step)

section \<open>Properties\<close>

text \<open>
  For every file, every content of the two uninitialised buffers and every
  interleaving: from every state the two processes can reach they can still finish, and
  what the reader has written when both have finished is \<open>fifo_output\<close> of the file.
\<close>

theorem fifo_transfer:
  assumes "length wbuf = 4096" "length rbuf = 4096"
    and "fifo_step\<^sup>*\<^sup>* (fifo_start wbuf rbuf f) s"
  shows "(\<exists>t. fifo_step\<^sup>*\<^sup>* s t \<and> fifo_final t) \<and>
    (fifo_final s \<longrightarrow> fr_output s = fifo_output rbuf f)"
proof -
  have inv: "fifo_inv rbuf f s" using fifo_run.reach_inv assms by blast
  then have "fifo_final s \<longrightarrow> fr_output s = fifo_output rbuf f"
    by (simp add: fifo_inv_def fifo_final_def)
  with inv show ?thesis using fifo_run.finishes_from by blast
qed

theorem fifo_transfer_witness:
  "\<exists>t. fifo_step\<^sup>*\<^sup>* (fifo_start (replicate 4096 NUL) (replicate 4096 NUL) ''abc'') t \<and> fifo_final t"
  using fifo_transfer [of "replicate 4096 NUL" "replicate 4096 NUL"
      "''abc''" "fifo_start (replicate 4096 NUL) (replicate 4096 NUL) ''abc''"] by simp

text \<open>
  The files that arrive whole: those that do not end with a chunk \<open>quit\<close>, and of the
  others those without NUL bytes that are longer than one chunk.
\<close>

theorem fifo_faithful:
  assumes "length wbuf = 4096" "length rbuf = 4096"
    and "fifo_step\<^sup>*\<^sup>* (fifo_start wbuf rbuf f) s" "fifo_final s"
    and "drop (full_part f) f \<noteq> ''quit'' \<or> NUL \<notin> set f \<and> FIFO_CHUNK \<le> length f"
  shows "fr_output s = f"
proof -
  have "fifo_inv rbuf f s" using fifo_run.reach_inv assms by blast
  then have out: "fr_output s = fifo_output rbuf f"
    using assms(4) by (simp add: fifo_inv_def fifo_final_def)
  have "\<not> swallowed rbuf f"
  proof (cases "drop (full_part f) f = ''quit''")
    case True
    with assms(5) have t: "NUL \<notin> set f" "FIFO_CHUNK \<le> length f" by auto
    have "0 < length f div FIFO_CHUNK" using t(2) by (simp add: div_greater_zero_iff FIFO_CHUNK_def)
    then have "0 < full_part f" by (simp add: full_part_def FIFO_CHUNK_def)
    moreover have "full_part f \<le> length f" by (simp add: full_part_def)
    moreover have "FIFO_CHUNK \<le> full_part f"
      using \<open>0 < length f div FIFO_CHUNK\<close> by (simp add: full_part_def)
    ultimately have "full_part f - FIFO_CHUNK + 4 < length f" by (simp add: FIFO_CHUNK_def)
    then have "f ! (full_part f - FIFO_CHUNK + 4) \<noteq> NUL" using t(1) nth_mem by metis
    then show ?thesis using \<open>0 < full_part f\<close> by (simp add: swallowed_def stale_def)
  qed (simp add: swallowed_def)
  then show ?thesis using out by (simp add: fifo_output_def)
qed

text \<open>
  The four-byte file \<open>quit\<close> is lost when the reader's buffer happens to hold a NUL at
  index 4.
\<close>

theorem fifo_quit_lost:
  assumes "length wbuf = 4096" "length rbuf = 4096" "rbuf ! 4 = NUL"
    and "fifo_step\<^sup>*\<^sup>* (fifo_start wbuf rbuf ''quit'') s" "fifo_final s"
  shows "fr_output s = []"
proof -
  have "fifo_inv rbuf ''quit'' s" using fifo_run.reach_inv assms by blast
  then have "fr_output s = fifo_output rbuf ''quit''"
    using assms(5) by (simp add: fifo_inv_def fifo_final_def)
  moreover have "full_part ''quit'' = 0" by (simp add: full_part_def FIFO_CHUNK_def)
  ultimately show ?thesis
    using assms(3) by (simp add: fifo_output_def swallowed_def stale_def)
qed

lemma fifo_some_final:
  assumes "length wbuf = 4096" "length rbuf = 4096"
  obtains s where "fifo_step\<^sup>*\<^sup>* (fifo_start wbuf rbuf f) s" "fifo_final s"
  using fifo_run.finishes_from [OF fifo_inv_start [OF assms]] by blast

text \<open>
  C6. The transfer through the FIFO refines the bounded channel of bytes: in every reachable
  state the bytes in the FIFO, at most 65536 of them, are the ones that travel, and as long as the
  reader has not left its loop its output is what has arrived; then it is \<open>fifo_output\<close> of that,
  which leaves out the last four bytes when they are \<open>quit\<close> and a NUL follows them in the
  reader's buffer.  Both processes can finish from every such state, and at the end the whole
  file has arrived.
\<close>

theorem fifo_refines_channel:
  assumes "length wbuf = 4096" "length rbuf = 4096"
    and "fifo_step\<^sup>*\<^sup>* (fifo_start wbuf rbuf f) s"
  shows "\<exists>c. (chan_step PIPE_CAP)\<^sup>*\<^sup>* (chan_start f) c \<and> travelling c = buffered (chan s) \<and>
    length (buffered (chan s)) \<le> PIPE_CAP \<and> arrived c @ buffered (chan s) @ fifo_rest s = f \<and>
    (fr_pc s = GDone \<and> fr_output s = fifo_output rbuf (arrived c) \<or>
     fr_pc s \<noteq> GDone \<and> fr_output s = arrived c) \<and>
    (\<exists>t. fifo_step\<^sup>*\<^sup>* s t \<and> fifo_final t) \<and> (fifo_final s \<longrightarrow> arrived c = f)"
proof -
  obtain c where c: "(chan_step PIPE_CAP)\<^sup>*\<^sup>* (chan_start f) c" "fifo_view f s c"
    "arrived c @ travelling c @ unsent c = f" "length (travelling c) \<le> PIPE_CAP"
    using fifo_channel.carries assms by blast
  have inv: "fifo_inv rbuf f s" using fifo_run.reach_inv assms by blast
  then have "fr_pc s = GDone \<Longrightarrow> fr_output s = fifo_output rbuf f" by (simp add: fifo_inv_def)
  moreover have "fifo_final s \<Longrightarrow> fr_pc s = GDone" by (simp add: fifo_final_def)
  ultimately show ?thesis using c fifo_run.finishes_from [OF inv] unfolding fifo_view_def
    by (intro exI [of _ c]) auto
qed

theorem fifo_refines_channel_witness:
  "\<exists>s c. fifo_step\<^sup>*\<^sup>* (fifo_start (replicate 4096 NUL) (replicate 4096 NUL) ''abc'') s \<and> fifo_final s \<and>
    (chan_step PIPE_CAP)\<^sup>*\<^sup>* (chan_start ''abc'') c \<and> arrived c @ buffered (chan s) @ fifo_rest s = ''abc''"
proof -
  obtain s where s: "fifo_step\<^sup>*\<^sup>* (fifo_start (replicate 4096 NUL) (replicate 4096 NUL) ''abc'') s" "fifo_final s"
    by (rule fifo_some_final [of "replicate 4096 NUL" "replicate 4096 NUL" "''abc''"]) simp_all
  with fifo_refines_channel [OF _ _ s(1)] show ?thesis by auto
qed

theorem fifo_faithful_witness:
  "\<exists>s. fifo_step\<^sup>*\<^sup>* (fifo_start (replicate 4096 NUL) (replicate 4096 NUL) ''abcd'') s \<and>
    fr_output s = ''abcd''"
proof -
  obtain s where s: "fifo_step\<^sup>*\<^sup>* (fifo_start (replicate 4096 NUL) (replicate 4096 NUL) ''abcd'') s"
    "fifo_final s"
    by (rule fifo_some_final [of "replicate 4096 NUL" "replicate 4096 NUL" "''abcd''"]) simp_all
  moreover have "full_part ''abcd'' = 0" by (simp add: full_part_def FIFO_CHUNK_def)
  ultimately have "fr_output s = ''abcd''" by (intro fifo_faithful [OF _ _ s]) simp_all
  with s show ?thesis by blast
qed

theorem fifo_quit_lost_witness:
  "\<exists>s. fifo_step\<^sup>*\<^sup>* (fifo_start (replicate 4096 NUL) (replicate 4096 NUL) ''quit'') s \<and>
    fr_output s = []"
proof -
  obtain s where s: "fifo_step\<^sup>*\<^sup>* (fifo_start (replicate 4096 NUL) (replicate 4096 NUL) ''quit'') s"
    "fifo_final s"
    by (rule fifo_some_final [of "replicate 4096 NUL" "replicate 4096 NUL" "''quit''"]) simp_all
  then have "fr_output s = []" by (intro fifo_quit_lost [OF _ _ _ s]) simp_all
  with s show ?thesis by blast
qed

end
