(* ===== verification/MqPosix.thy ===== *)
theory MqPosix
  imports Kernel
begin

text \<open>
  The transfer of a file through a POSIX message queue,
  \<open>task_3/mq_posix/mq_client_posix.c\<close> and \<open>task_3/mq_posix/mq_server_posix.c\<close>.  The client
  sends every chunk of 4095 bytes as a message that is one byte longer, the server writes
  every byte of every message, so the copy has one byte more per chunk.  The queue holds
  three messages; the two processes are interleaved.
  The transfer refines the bounded channel of \<open>Channel\<close>.
\<close>

section \<open>State\<close>

definition MQ_MAXMSG :: nat where
  "MQ_MAXMSG = 3"

definition MQ_CHUNK :: nat where
  "MQ_CHUNK = 4095"

definition MQ_SZ :: nat where
  "MQ_SZ = 4096"

datatype mclient_pc = MFread | MSend | MQuit | MDone | MFault
datatype mserver_pc = SReceive | SDone | SFault

record mq =
  mc_pc :: mclient_pc
  mc_round :: nat
  mc_buf :: bytes
  mc_len :: nat
  mc_input :: bytes
  ms_pc :: mserver_pc
  ms_buf :: bytes
  ms_output :: bytes
  queue :: "bytes list"

text \<open>The client gives up when nobody has created the queue, which only the server does.\<close>

definition mq_client_open :: "bytes list option \<Rightarrow> bytes list result" where
  "mq_client_open q = (case q of None \<Rightarrow> Inl CallFailed | Some ms \<Rightarrow> Inr ms)"

definition mq_server_open :: "bytes list option \<Rightarrow> bytes list result" where
  "mq_server_open q = Inr (case q of None \<Rightarrow> [] | Some ms \<Rightarrow> ms)"

section \<open>The two programs\<close>

text \<open>
  The buffer of the client is declared inside the loop, so at the start of round \<open>i\<close> its
  content is not determined: \<open>junk i\<close> is what the memory at its address holds then, as
  far as it may be read.  \<open>fread\<close> may store into the first \<open>MQ_CHUNK\<close> bytes only.
\<close>

definition mq_fread :: "(nat \<Rightarrow> bytes) \<Rightarrow> mq \<Rightarrow> mq result" where
  "mq_fread junk s =
     (let (xs, rest) = fread MQ_CHUNK (mc_input s); b = junk (mc_round s); buf_len = length xs
      in if buf_len = 0
         then bindS (poke b 0 (lit ''quit'')) (\<lambda>b'.
                Inr (s\<lparr>mc_buf := b', mc_len := 5, mc_pc := MQuit\<rparr>))
         else bindS (poke b 0 xs) (\<lambda>b'.
                Inr (s\<lparr>mc_buf := b', mc_len := buf_len + 1, mc_input := rest,
                       mc_round := Suc (mc_round s), mc_pc := MSend\<rparr>)))"

text \<open>\<open>mq_send\<close> waits while the queue is full and refuses a message that is too long.\<close>

definition mq_send :: "bytes list \<Rightarrow> bytes \<Rightarrow> nat \<Rightarrow> bytes list result" where
  "mq_send q buf n =
     bindS (peek buf n) (\<lambda>m.
       if MQ_SZ < n then Inl CallFailed
       else if MQ_MAXMSG \<le> length q then Inl Blocked
       else Inr (q @ [m]))"

definition mq_client_step :: "(nat \<Rightarrow> bytes) \<Rightarrow> mq \<Rightarrow> mq result" where
  "mq_client_step junk s =
     (case mc_pc s of
        MFread \<Rightarrow> mq_fread junk s
      | MSend \<Rightarrow> bindS (mq_send (queue s) (mc_buf s) (mc_len s)) (\<lambda>q.
                  Inr (s\<lparr>queue := q, mc_pc := MFread\<rparr>))
      | MQuit \<Rightarrow> bindS (mq_send (queue s) (mc_buf s) (mc_len s)) (\<lambda>q.
                  Inr (s\<lparr>queue := q, mc_pc := MDone\<rparr>))
      | _ \<Rightarrow> Inl Blocked)"

definition mq_server_step :: "mq \<Rightarrow> mq result" where
  "mq_server_step s =
     (if ms_pc s \<noteq> SReceive then Inl Blocked
      else case queue s of
        [] \<Rightarrow> Inl Blocked
      | m # q \<Rightarrow>
          bindS (poke (ms_buf s) 0 m) (\<lambda>b.
          bindS (strcmp_eq b (lit ''quit'')) (\<lambda>quit.
            if quit then Inr (s\<lparr>queue := q, ms_buf := b, ms_pc := SDone\<rparr>)
            else bindS (peek b (length m)) (\<lambda>xs.
              Inr (s\<lparr>queue := q, ms_buf := b, ms_output := ms_output s @ xs\<rparr>)))))"

inductive mq_step :: "(nat \<Rightarrow> bytes) \<Rightarrow> mq \<Rightarrow> mq \<Rightarrow> bool" for junk where
  client: "mq_client_step junk s = Inr t \<Longrightarrow> mq_step junk s t"
| client_fault: "mq_client_step junk s = Inl e \<Longrightarrow> e \<noteq> Blocked \<Longrightarrow> mq_step junk s (s\<lparr>mc_pc := MFault\<rparr>)"
| server: "mq_server_step s = Inr t \<Longrightarrow> mq_step junk s t"
| server_fault: "mq_server_step s = Inl e \<Longrightarrow> e \<noteq> Blocked \<Longrightarrow> mq_step junk s (s\<lparr>ms_pc := SFault\<rparr>)"

definition mq_start :: "bytes \<Rightarrow> bytes \<Rightarrow> mq" where
  "mq_start sbuf f =
     \<lparr>mc_pc = MFread, mc_round = 0, mc_buf = [], mc_len = 0, mc_input = f,
      ms_pc = SReceive, ms_buf = sbuf, ms_output = [], queue = []\<rparr>"

definition mq_final :: "mq \<Rightarrow> bool" where
  "mq_final s \<longleftrightarrow> mc_pc s = MDone \<and> ms_pc s = SDone"

section \<open>What is sent\<close>

text \<open>The messages for the chunks \<open>cs\<close> from round \<open>i\<close> on: each chunk and the byte that
  stands behind it in the client's buffer.\<close>

fun mq_messages :: "(nat \<Rightarrow> bytes) \<Rightarrow> nat \<Rightarrow> bytes list \<Rightarrow> bytes list" where
  "mq_messages junk i [] = []"
| "mq_messages junk i (c # cs) = (c @ [junk i ! length c]) # mq_messages junk (Suc i) cs"

fun no_quit :: "bytes \<Rightarrow> bytes list \<Rightarrow> bool" where
  "no_quit buf [] \<longleftrightarrow> True"
| "no_quit buf (m # ms) \<longleftrightarrow>
     (let b = m @ drop (length m) buf in take 5 b \<noteq> lit ''quit'' \<and> no_quit b ms)"

definition outstanding :: "(nat \<Rightarrow> bytes) \<Rightarrow> mq \<Rightarrow> bytes list" where
  "outstanding junk s = queue s @
     (case mc_pc s of
        MFread \<Rightarrow> mq_messages junk (mc_round s) (chunks MQ_CHUNK (mc_input s)) @ [lit ''quit'']
      | MSend \<Rightarrow> take (mc_len s) (mc_buf s) #
                mq_messages junk (mc_round s) (chunks MQ_CHUNK (mc_input s)) @ [lit ''quit'']
      | MQuit \<Rightarrow> [take (mc_len s) (mc_buf s)]
      | _ \<Rightarrow> [])"

definition junk_ok :: "(nat \<Rightarrow> bytes) \<Rightarrow> bool" where
  "junk_ok junk \<longleftrightarrow> (\<forall>i. MQ_SZ \<le> length (junk i))"

definition mq_inv :: "(nat \<Rightarrow> bytes) \<Rightarrow> bytes \<Rightarrow> mq \<Rightarrow> bool" where
  "mq_inv junk f s \<longleftrightarrow>
     junk_ok junk \<and> length (ms_buf s) = MQ_SZ \<and> mc_pc s \<noteq> MFault \<and> ms_pc s \<noteq> SFault \<and>
     (mc_pc s \<in> {MSend, MQuit} \<longrightarrow> mc_len s \<le> MQ_SZ \<and> mc_len s \<le> length (mc_buf s)) \<and>
     (if ms_pc s = SDone
      then mc_pc s = MDone \<and> queue s = [] \<and>
           ms_output s = concat (mq_messages junk 0 (chunks MQ_CHUNK f))
      else \<exists>ms. outstanding junk s = ms @ [lit ''quit''] \<and> no_quit (ms_buf s) ms \<and>
             (\<forall>m \<in> set ms. length m \<le> MQ_SZ) \<and>
             ms_output s @ concat ms = concat (mq_messages junk 0 (chunks MQ_CHUNK f)))"

definition mq_rank :: "mq \<Rightarrow> nat" where
  "mq_rank s =
     3 * length (chunks MQ_CHUNK (mc_input s)) + length (queue s) +
     (case mc_pc s of MFread \<Rightarrow> 3 | MSend \<Rightarrow> 5 | MQuit \<Rightarrow> 2 | _ \<Rightarrow> 0)"

lemma mq_sizes: "MQ_CHUNK = 4095" "MQ_SZ = 4096" "MQ_MAXMSG = 3"
  by (simp_all add: MQ_CHUNK_def MQ_SZ_def MQ_MAXMSG_def)

lemma mq_messages_length:
  "m \<in> set (mq_messages junk i cs) \<Longrightarrow> \<forall>c \<in> set cs. length c \<le> MQ_CHUNK \<Longrightarrow> length m \<le> MQ_SZ"
  by (induction junk i cs rule: mq_messages.induct) (auto simp: mq_sizes)

lemma mq_messages_Cons:
  "f \<noteq> [] \<Longrightarrow> mq_messages junk i (chunks MQ_CHUNK f) =
   (take MQ_CHUNK f @ [junk i ! length (take MQ_CHUNK f)]) #
     mq_messages junk (Suc i) (chunks MQ_CHUNK (drop MQ_CHUNK f))"
  by (subst chunks_step) (simp_all add: mq_sizes)

section \<open>The steps\<close>

text \<open>A step of one side that moves no message.\<close>

definition mq_same :: "(nat \<Rightarrow> bytes) \<Rightarrow> mq \<Rightarrow> mq \<Rightarrow> bool" where
  "mq_same junk s t \<longleftrightarrow> outstanding junk t = outstanding junk s \<and> queue t = queue s \<and>
     ms_pc t = ms_pc s \<and> ms_output t = ms_output s"

lemma mq_fread_step:
  assumes "mq_inv junk f s" "mc_pc s = MFread"
  shows "\<exists>t. mq_fread junk s = Inr t \<and> mq_inv junk f t \<and> mq_rank t < mq_rank s \<and> mq_same junk s t"
proof -
  let ?b = "junk (mc_round s)"
  have b: "4096 \<le> length ?b" using assms(1) by (simp add: mq_inv_def junk_ok_def mq_sizes)
  have live: "ms_pc s \<noteq> SDone" using assms by (auto simp: mq_inv_def)
  show ?thesis
  proof (cases "mc_input s = []")
    case True
    let ?t = "s\<lparr>mc_buf := lit ''quit'' @ drop 5 ?b, mc_len := 5, mc_pc := MQuit\<rparr>"
    have "mq_fread junk s = Inr ?t"
      using True b by (simp add: mq_fread_def fread_def quit_simps)
    moreover have "outstanding junk ?t = outstanding junk s"
      using True assms(2) by (simp add: outstanding_def)
    then have "mq_inv junk f ?t" "mq_same junk s ?t"
      using assms(1) live b unfolding mq_inv_def by (simp_all add: mq_sizes mq_same_def)
    moreover have "mq_rank ?t < mq_rank s" using assms(2) by (simp add: mq_rank_def)
    ultimately show ?thesis by blast
  next
    case False
    let ?xs = "take MQ_CHUNK (mc_input s)"
    let ?t = "s\<lparr>mc_buf := ?xs @ drop (length ?xs) ?b, mc_len := length ?xs + 1,
      mc_input := drop MQ_CHUNK (mc_input s), mc_round := Suc (mc_round s), mc_pc := MSend\<rparr>"
    have l: "length ?xs \<le> 4095" by (simp add: mq_sizes)
    have "mq_fread junk s = Inr ?t"
      using False b l by (simp add: mq_fread_def fread_def poke_def mq_sizes Let_def)
    moreover have "take (length ?xs + 1) (?xs @ drop (length ?xs) ?b) = ?xs @ [?b ! length ?xs]"
      using b l by (intro take_splice_Suc) linarith
    then have "outstanding junk ?t = outstanding junk s"
      using False assms(2) by (simp add: outstanding_def mq_messages_Cons)
    then have "mq_inv junk f ?t" "mq_same junk s ?t"
      using assms(1) live b l unfolding mq_inv_def by (simp_all add: mq_sizes mq_same_def)
    moreover have "mq_rank ?t < mq_rank s"
      using assms(2) False chunks_step [of MQ_CHUNK "mc_input s"] by (simp add: mq_rank_def mq_sizes)
    ultimately show ?thesis by blast
  qed
qed


lemma mq_send_inv:
  assumes "mq_inv junk f s" "mc_pc s = MSend \<and> pc = MFread \<or> mc_pc s = MQuit \<and> pc = MDone"
    and "mq_send (queue s) (mc_buf s) (mc_len s) = Inr q"
  shows "mq_inv junk f (s\<lparr>queue := q, mc_pc := pc\<rparr>)"
    and "mq_rank (s\<lparr>queue := q, mc_pc := pc\<rparr>) < mq_rank s"
proof -
  have q: "q = queue s @ [take (mc_len s) (mc_buf s)]"
    using assms(3) by (auto simp: mq_send_def peek_def split: if_splits)
  then have "outstanding junk (s\<lparr>queue := q, mc_pc := pc\<rparr>) = outstanding junk s"
    using assms(2) by (auto simp: outstanding_def)
  with assms(1,2) show "mq_inv junk f (s\<lparr>queue := q, mc_pc := pc\<rparr>)"
    by (cases "ms_pc s = SDone") (auto simp: mq_inv_def)
  show "mq_rank (s\<lparr>queue := q, mc_pc := pc\<rparr>) < mq_rank s"
    using assms(2) by (auto simp: mq_rank_def q)
qed

lemma mq_send_blocked:
  assumes "mq_inv junk f s" "mc_pc s \<in> {MSend, MQuit}"
    and "mq_send (queue s) (mc_buf s) (mc_len s) = Inl e"
  shows "e = Blocked \<and> queue s \<noteq> []"
  using assms by (auto simp: mq_send_def peek_def mq_inv_def mq_sizes split: if_splits)

lemma mq_client_total:
  assumes "mq_inv junk f s" "mq_client_step junk s = r"
  shows "case r of Inl e \<Rightarrow> e = Blocked | Inr t \<Rightarrow> mq_inv junk f t \<and> mq_rank t < mq_rank s"
proof (cases "mc_pc s \<in> {MSend, MQuit}")
  case True
  show ?thesis
  proof (cases "mq_send (queue s) (mc_buf s) (mc_len s)")
    case (Inl e)
    with True assms mq_send_blocked [OF assms(1)] show ?thesis by (auto simp: mq_client_step_def)
  next
    case (Inr q)
    with True assms(2) have "r = Inr (s\<lparr>queue := q, mc_pc := if mc_pc s = MSend then MFread else MDone\<rparr>)"
      by (auto simp: mq_client_step_def)
    with True mq_send_inv [OF assms(1) _ Inr] show ?thesis by auto
  qed
next
  case False
  with assms mq_fread_step [of junk f s] show ?thesis
    by (cases "mc_pc s") (auto simp: mq_client_step_def)
qed

text \<open>A message is delivered.\<close>

lemma mq_server_data:
  assumes "ms_pc s = SReceive" "queue s = m # q" "length m \<le> MQ_SZ" "length (ms_buf s) = MQ_SZ"
    and "b = m @ drop (length m) (ms_buf s)"
  shows "take 5 b = lit ''quit'' \<Longrightarrow>
      mq_server_step s = Inr (s\<lparr>queue := q, ms_buf := b, ms_pc := SDone\<rparr>)"
    and "take 5 b \<noteq> lit ''quit'' \<Longrightarrow>
      mq_server_step s = Inr (s\<lparr>queue := q, ms_buf := b, ms_output := ms_output s @ m\<rparr>)"
proof -
  have "strcmp_eq b (lit ''quit'') = Inr (take 5 b = lit ''quit'')"
    using assms(3-5) by (intro strcmp_quit) (simp add: mq_sizes)
  moreover have "poke (ms_buf s) 0 m = Inr b" using assms(3-5) by (simp add: poke_def)
  moreover have "peek b (length m) = Inr m" using assms(3-5) by (simp add: peek_def)
  ultimately show "take 5 b = lit ''quit'' \<Longrightarrow>
      mq_server_step s = Inr (s\<lparr>queue := q, ms_buf := b, ms_pc := SDone\<rparr>)"
    and "take 5 b \<noteq> lit ''quit'' \<Longrightarrow>
      mq_server_step s = Inr (s\<lparr>queue := q, ms_buf := b, ms_output := ms_output s @ m\<rparr>)"
    using assms(1,2) by (simp_all add: mq_server_step_def)
qed

lemma outstanding_pop:
  "queue s = m # q \<Longrightarrow> outstanding junk s =
   m # outstanding junk (s\<lparr>queue := q, ms_buf := b, ms_output := ys\<rparr>)"
  by (cases "mc_pc s") (simp_all add: outstanding_def)

lemma outstanding_single:
  "queue s = m # q \<Longrightarrow> outstanding junk s = [x] \<Longrightarrow>
   m = x \<and> q = [] \<and> (mc_pc s = MDone \<or> mc_pc s = MFault)"
  by (auto simp: outstanding_def split: mclient_pc.splits)

lemma mq_server_receive:
  assumes inv: "mq_inv junk f s" and pc: "ms_pc s = SReceive" and q: "queue s = m # q"
  shows "\<exists>t. mq_server_step s = Inr t \<and> mq_inv junk f t \<and> mq_rank t < mq_rank s"
proof -
  obtain ms where ms: "outstanding junk s = ms @ [lit ''quit'']" "no_quit (ms_buf s) ms"
    "\<forall>m \<in> set ms. length m \<le> MQ_SZ"
    "ms_output s @ concat ms = concat (mq_messages junk 0 (chunks MQ_CHUNK f))"
    using inv pc by (auto simp: mq_inv_def)
  have lb: "length (ms_buf s) = MQ_SZ" using inv by (simp add: mq_inv_def)
  let ?b = "m @ drop (length m) (ms_buf s)"
  show ?thesis
  proof (cases ms)
    case Nil
    then have m: "m = lit ''quit''" "q = []" "mc_pc s = MDone"
      using outstanding_single [OF q] ms(1) inv by (auto simp: mq_inv_def)
    let ?t = "s\<lparr>queue := q, ms_buf := ?b, ms_pc := SDone\<rparr>"
    have "take 5 ?b = lit ''quit''" using m by simp
    then have "mq_server_step s = Inr ?t"
      using mq_server_data(1) [OF pc q _ lb refl] m(1) by (simp add: mq_sizes)
    moreover have "mq_inv junk f ?t"
      using inv m ms(4) Nil lb unfolding mq_inv_def by (simp add: mq_sizes)
    moreover have "mq_rank ?t < mq_rank s" using q by (simp add: mq_rank_def)
    ultimately show ?thesis by blast
  next
    case (Cons m' ms')
    let ?t = "s\<lparr>queue := q, ms_buf := ?b, ms_output := ms_output s @ m\<rparr>"
    have o: "m' = m" "outstanding junk ?t = ms' @ [lit ''quit'']"
      using outstanding_pop [OF q, where b = ?b and ys = "ms_output s @ m" and junk = junk]
      ms(1) unfolding Cons by (simp_all only: append_Cons list.inject)
    have lm: "length m \<le> MQ_SZ" using ms(3) Cons o(1) by simp
    have nq: "take 5 ?b \<noteq> lit ''quit''" "no_quit ?b ms'"
      using ms(2) unfolding Cons o(1) no_quit.simps Let_def by blast+
    have "mq_server_step s = Inr ?t" by (rule mq_server_data(2) [OF pc q lm lb refl nq(1)])
    moreover have "length ?b = MQ_SZ" using lm lb by simp
    then have "mq_inv junk f ?t"
      using inv pc ms(3,4) o nq(2) Cons unfolding mq_inv_def by simp
    moreover have "mq_rank ?t < mq_rank s" using q by (simp add: mq_rank_def)
    ultimately show ?thesis by blast
  qed
qed

lemma mq_server_total:
  assumes "mq_inv junk f s" "mq_server_step s = r"
  shows "case r of Inl e \<Rightarrow> e = Blocked | Inr t \<Rightarrow> mq_inv junk f t \<and> mq_rank t < mq_rank s"
proof (cases "ms_pc s = SReceive \<and> queue s \<noteq> []")
  case True
  then obtain m q where "queue s = m # q" by (cases "queue s") auto
  with True assms mq_server_receive [OF assms(1)] show ?thesis by auto
next
  case False
  with assms show ?thesis by (cases "queue s") (auto simp: mq_server_step_def)
qed

lemma mq_step_ok:
  assumes "mq_inv junk f s" "mq_step junk s t"
  shows "mq_inv junk f t \<and> mq_rank t < mq_rank s"
  using assms(2)
proof (cases rule: mq_step.cases)
  case client
  then show ?thesis using mq_client_total [OF assms(1), of "Inr t"] by simp
next
  case (client_fault e)
  then show ?thesis using mq_client_total [OF assms(1), of "Inl e"] by simp
next
  case server
  then show ?thesis using mq_server_total [OF assms(1), of "Inr t"] by simp
next
  case (server_fault e)
  then show ?thesis using mq_server_total [OF assms(1), of "Inl e"] by simp
qed

lemma mq_progress:
  assumes "mq_inv junk f s" "\<not> mq_final s"
  shows "\<exists>t. mq_step junk s t"
proof (cases "queue s = []")
  case False
  then obtain m q where q: "queue s = m # q" by (cases "queue s") auto
  then have "ms_pc s = SReceive" using assms(1) by (cases "ms_pc s") (auto simp: mq_inv_def)
  then show ?thesis using mq_server_receive [OF assms(1) _ q] mq_step.server by blast
next
  case True
  show ?thesis
  proof (cases "mc_pc s = MFread")
    case True
    then have "\<exists>t. mq_client_step junk s = Inr t"
      using mq_fread_step [OF assms(1)] by (auto simp: mq_client_step_def)
    then show ?thesis using mq_step.client by blast
  next
    case False
    have "mc_pc s \<noteq> MDone"
    proof
      assume "mc_pc s = MDone"
      with True assms show False
        by (cases "ms_pc s") (auto simp: mq_inv_def mq_final_def outstanding_def)
    qed
    with False assms(1) have pc: "mc_pc s \<in> {MSend, MQuit}"
      by (cases "mc_pc s") (auto simp: mq_inv_def)
    then obtain q where "mq_send (queue s) (mc_buf s) (mc_len s) = Inr q"
      using mq_send_blocked [OF assms(1) pc] True by (cases "mq_send (queue s) (mc_buf s) (mc_len s)") auto
    with pc have "\<exists>t. mq_client_step junk s = Inr t" by (auto simp: mq_client_step_def)
    then show ?thesis using mq_step.client by blast
  qed
qed

definition mq_ok :: "(nat \<Rightarrow> bytes) \<Rightarrow> bytes \<Rightarrow> bytes \<Rightarrow> bool" where
  "mq_ok junk sbuf f \<longleftrightarrow> junk_ok junk \<and> length sbuf = MQ_SZ \<and>
     no_quit sbuf (mq_messages junk 0 (chunks MQ_CHUNK f))"

lemma mq_inv_start: "mq_ok junk sbuf f \<Longrightarrow> mq_inv junk f (mq_start sbuf f)"
  using mq_messages_length [of _ junk 0 "chunks MQ_CHUNK f"] chunks_member
  by (fastforce simp: mq_ok_def mq_inv_def mq_start_def outstanding_def)

interpretation mq_run: live_inv
  "\<lambda>s. \<exists>sbuf. mq_ok junk sbuf f \<and> s = mq_start sbuf f" "mq_step junk" "mq_inv junk f" mq_final mq_rank
  for junk f
  by unfold_locales (use mq_inv_start mq_step_ok mq_progress in blast)+

section \<open>The queue as a channel\<close>

text \<open>
  What the client sends in all, and how a state is seen as a bounded channel of messages: the
  channel is the queue, and what has arrived is the output and, at the end, the message
  that ended the server.
\<close>

definition mq_items :: "(nat \<Rightarrow> bytes) \<Rightarrow> bytes \<Rightarrow> bytes list" where
  "mq_items junk f = mq_messages junk 0 (chunks MQ_CHUNK f) @ [lit ''quit'']"

definition mq_written :: "mq \<Rightarrow> bytes list \<Rightarrow> bool" where
  "mq_written s ms \<longleftrightarrow>
     (if ms_pc s = SDone then \<exists>ds. ms = ds @ [lit ''quit''] \<and> ms_output s = concat ds
      else ms_output s = concat ms)"

definition mq_view :: "(nat \<Rightarrow> bytes) \<Rightarrow> mq \<Rightarrow> bytes channel \<Rightarrow> bool" where
  "mq_view junk s c \<longleftrightarrow> travelling c = queue s \<and> queue s @ unsent c = outstanding junk s \<and>
     mq_written s (arrived c)"

lemma mq_written_cong:
  "ms_pc t = ms_pc s \<Longrightarrow> ms_output t = ms_output s \<Longrightarrow> mq_written t ms = mq_written s ms"
  by (simp only: mq_written_def)

lemma mq_server_view:
  assumes inv: "mq_inv junk f s" and step: "mq_server_step s = Inr t" and view: "mq_view junk s c"
  shows "\<exists>d. chan_step MQ_MAXMSG c d \<and> mq_view junk t d"
proof -
  have pc: "ms_pc s = SReceive" using step by (auto simp: mq_server_step_def split: if_splits)
  then obtain m q where q: "queue s = m # q" using step by (cases "queue s") (auto simp: mq_server_step_def)
  obtain ms where ms: "outstanding junk s = ms @ [lit ''quit'']" "no_quit (ms_buf s) ms"
    "\<forall>m \<in> set ms. length m \<le> MQ_SZ"
    using inv pc by (auto simp: mq_inv_def)
  have lb: "length (ms_buf s) = MQ_SZ" using inv by (simp add: mq_inv_def)
  let ?b = "m @ drop (length m) (ms_buf s)"
  let ?d = "c\<lparr>travelling := q, arrived := arrived c @ [m]\<rparr>"
  have chan: "chan_step MQ_MAXMSG c ?d"
    by (rule chan_step.receive) (use view q in \<open>simp_all add: mq_view_def\<close>)
  have out: "ms_output s = concat (arrived c)" "queue s @ unsent c = outstanding junk s"
    using view pc by (simp_all add: mq_view_def mq_written_def)
  show ?thesis
  proof (cases ms)
    case Nil
    then have m: "m = lit ''quit''" "q = []" "mc_pc s = MDone"
      using outstanding_single [OF q] ms(1) inv by (auto simp: mq_inv_def)
    have "take 5 ?b = lit ''quit''" using m by simp
    then have "t = s\<lparr>queue := q, ms_buf := ?b, ms_pc := SDone\<rparr>"
      using mq_server_data(1) [OF pc q _ lb refl] m(1) step by (simp add: mq_sizes)
    then have "mq_view junk t ?d"
      using out m ms(1) Nil q by (simp add: mq_view_def mq_written_def outstanding_def)
    with chan show ?thesis by blast
  next
    case (Cons m' ms')
    have o: "outstanding junk s = m # outstanding junk (s\<lparr>queue := q, ms_buf := ?b, ms_output := ms_output s @ m\<rparr>)"
      by (rule outstanding_pop [OF q])
    then have m': "m' = m" using ms(1) Cons by simp
    have lm: "length m \<le> MQ_SZ" using ms(3) Cons m' by simp
    have nq: "take 5 ?b \<noteq> lit ''quit''"
      using ms(2) unfolding Cons m' no_quit.simps Let_def by blast
    have t: "t = s\<lparr>queue := q, ms_buf := ?b, ms_output := ms_output s @ m\<rparr>"
      using mq_server_data(2) [OF pc q lm lb refl nq] step by simp
    have "mq_view junk t ?d"
      using out o q pc unfolding t by (simp add: mq_view_def mq_written_def)
    with chan show ?thesis by blast
  qed
qed

lemma mq_client_view:
  assumes inv: "mq_inv junk f s" and step: "mq_client_step junk s = Inr t" and view: "mq_view junk s c"
  shows "mq_view junk t c \<or> (\<exists>d. chan_step MQ_MAXMSG c d \<and> mq_view junk t d)"
proof (cases "mc_pc s \<in> {MSend, MQuit}")
  case True
  let ?m = "take (mc_len s) (mc_buf s)"
  let ?d = "c\<lparr>unsent := tl (unsent c), travelling := travelling c @ [?m]\<rparr>"
  obtain q pc where q: "mq_send (queue s) (mc_buf s) (mc_len s) = Inr q" "t = s\<lparr>queue := q, mc_pc := pc\<rparr>"
    "mc_pc s = MSend \<and> pc = MFread \<or> mc_pc s = MQuit \<and> pc = MDone"
    using True step by (auto simp: mq_client_step_def bindS_eq_Inr_iff)
  then have qs: "q = queue s @ [?m]" "length (queue s) < MQ_MAXMSG"
    by (auto simp: mq_send_def peek_def split: if_splits)
  have u: "unsent c = [?m] @ tl (unsent c)" "travelling c = queue s"
    using view q(3) by (auto simp: mq_view_def outstanding_def)
  have "chan_step MQ_MAXMSG c ?d"
    by (rule chan_step.send [OF u(1)]) (use u(2) qs(2) in simp_all)
  moreover have "outstanding junk t = outstanding junk s" using q qs(1) by (auto simp: outstanding_def)
  then have "mq_view junk t ?d"
    using view u qs(1) q(2) mq_written_cong [of t s "arrived c"] by (auto simp: mq_view_def)
  ultimately show ?thesis by blast
next
  case False
  then have pc: "mc_pc s = MFread" using step by (cases "mc_pc s") (auto simp: mq_client_step_def)
  then have t: "mq_fread junk s = Inr t" using step by (simp add: mq_client_step_def)
  have "mq_view junk t c"
    using mq_fread_step [OF inv pc] t view mq_written_cong [of t s] by (auto simp: mq_view_def mq_same_def)
  then show ?thesis ..
qed

lemma mq_view_step:
  assumes "mq_inv junk f s" "mq_step junk s t" "mq_view junk s c"
  shows "mq_view junk t c \<or> (\<exists>d. chan_step MQ_MAXMSG c d \<and> mq_view junk t d)"
  using assms(2)
proof cases
  case client
  then show ?thesis using mq_client_view assms by blast
next
  case server
  then show ?thesis using mq_server_view assms by blast
next
  case (client_fault e)
  then show ?thesis using mq_client_total [OF assms(1), of "Inl e"] by simp
next
  case (server_fault e)
  then show ?thesis using mq_server_total [OF assms(1), of "Inl e"] by simp
qed

lemma mq_final_empty: "mq_inv junk f s \<Longrightarrow> mq_final s \<Longrightarrow> queue s = [] \<and> outstanding junk s = []"
  by (simp add: mq_inv_def mq_final_def outstanding_def)

interpretation mq_channel: medium
  "\<lambda>s. \<exists>sbuf. mq_ok junk sbuf f \<and> s = mq_start sbuf f" "mq_step junk" "mq_inv junk f"
  MQ_MAXMSG "mq_items junk f" "mq_view junk"
  for junk f
proof unfold_locales
  show "mq_view junk s (chan_start (mq_items junk f))"
    if "\<exists>sbuf. mq_ok junk sbuf f \<and> s = mq_start sbuf f" for s
    using that by (auto simp: mq_view_def mq_written_def mq_start_def outstanding_def mq_items_def)
qed (rule mq_view_step)


section \<open>Properties\<close>

text \<open>One byte per message is not from the file.\<close>

lemma mq_messages_extra:
  "\<exists>xs. length xs = length cs \<and> mq_messages junk i cs = map2 (\<lambda>c x. c @ [x]) cs xs"
proof (induction junk i cs rule: mq_messages.induct)
  case (2 junk i c cs)
  then obtain xs where "length xs = length cs" "mq_messages junk (Suc i) cs = map2 (\<lambda>c x. c @ [x]) cs xs"
    by blast
  then show ?case by (intro exI [of _ "(junk i ! length c) # xs"]) simp
qed simp

lemma length_mq_messages:
  "length (concat (mq_messages junk i cs)) = length (concat cs) + length cs"
  by (induction junk i cs rule: mq_messages.induct) auto

lemma take_4_5: "take 5 b = lit ''quit'' \<Longrightarrow> take 4 b = ''quit''"
proof -
  assume "take 5 b = lit ''quit''"
  moreover have "take 4 b = take 4 (take 5 b)" by simp
  ultimately show "take 4 b = ''quit''" by (simp del: take_take)
qed

lemma no_quit_chunks:
  assumes "\<forall>c \<in> set cs. 4 \<le> length c \<and> take 4 c \<noteq> ''quit''"
  shows "no_quit buf (mq_messages junk i cs)"
  using assms
proof (induction junk i cs arbitrary: buf rule: mq_messages.induct)
  case (2 junk i c cs)
  let ?b = "(c @ [junk i ! length c]) @ drop (Suc (length c)) buf"
  have "take 4 ?b = take 4 c" using "2.prems" by simp
  then have "take 4 ?b \<noteq> ''quit''" using "2.prems" by simp
  then have "take 5 ?b \<noteq> lit ''quit''"
    using take_4_5 [of ?b] by auto
  then show ?case using 2 by (simp add: Let_def)
qed simp


text \<open>
  C7. When the byte behind the client's buffer can be read and no message of the file reads
  as the string \<open>quit\<close> in the server's buffer, every interleaving can finish, and the output
  is the sequence of the chunks of the file, each followed by one byte that is not part of it.
  The second condition is needed: see \<open>mq_quit_in_file\<close>.
\<close>

theorem mq_transfer:
  assumes "mq_ok junk sbuf f" "(mq_step junk)\<^sup>*\<^sup>* (mq_start sbuf f) s"
  shows "(\<exists>t. (mq_step junk)\<^sup>*\<^sup>* s t \<and> mq_final t) \<and>
    (mq_final s \<longrightarrow> (\<exists>xs. length xs = length (chunks MQ_CHUNK f) \<and>
       ms_output s = concat (map2 (\<lambda>c x. c @ [x]) (chunks MQ_CHUNK f) xs)))"
proof -
  have inv: "mq_inv junk f s" using mq_run.reach_inv assms by blast
  then have "mq_final s \<longrightarrow> ms_output s = concat (mq_messages junk 0 (chunks MQ_CHUNK f))"
    by (simp add: mq_inv_def mq_final_def)
  then show ?thesis
    using mq_run.finishes_from [OF inv] mq_messages_extra [of "chunks MQ_CHUNK f" junk 0] by auto
qed

text \<open>
  A file of one chunk that begins with \<open>quit\<close> and a NUL byte: the server takes it for the end
  and stops, nothing is written, and the client's own \<open>quit\<close> stays in the queue for the next
  run.
\<close>

theorem mq_quit_in_file:
  assumes "junk_ok junk" "length sbuf = MQ_SZ" "f = lit ''quit'' @ r" "length f \<le> MQ_CHUNK"
  shows "\<exists>s. (mq_step junk)\<^sup>*\<^sup>* (mq_start sbuf f) s \<and> mq_final s \<and> ms_output s = [] \<and> queue s = [lit ''quit'']"
proof -
  have j: "MQ_SZ \<le> length (junk i)" for i using assms(1) by (simp add: junk_ok_def)
  have l: "length f \<le> 4095" "5 \<le> length f" using assms(3,4) by (simp_all add: mq_sizes)
  define m where "m = f @ [junk 0 ! length f]"
  define b where "b = f @ drop (length f) (junk 0)"
  let ?s0 = "mq_start sbuf f"
  let ?s1 = "?s0\<lparr>mc_buf := b, mc_len := Suc (length f), mc_input := [], mc_round := 1, mc_pc := MSend\<rparr>"
  let ?s2 = "?s1\<lparr>queue := [m], mc_pc := MFread\<rparr>"
  let ?s3 = "?s2\<lparr>queue := [], ms_buf := m @ drop (length m) sbuf, ms_pc := SDone\<rparr>"
  let ?b = "lit ''quit'' @ drop 5 (junk 1)"
  let ?s4 = "?s3\<lparr>mc_buf := ?b, mc_len := 5, mc_pc := MQuit\<rparr>"
  let ?s5 = "?s4\<lparr>queue := [lit ''quit''], mc_pc := MDone\<rparr>"
  have bm: "take (Suc (length f)) b = m" "Suc (length f) \<le> length b"
    using j [of 0] l take_splice_Suc [of f "junk 0"] by (simp_all add: b_def m_def mq_sizes)
  have "mq_client_step junk ?s0 = Inr ?s1"
    using j [of 0] l assms(3) by (simp add: mq_client_step_def mq_fread_def mq_start_def fread_def poke_def b_def mq_sizes)
  then have 1: "mq_step junk ?s0 ?s1" by (rule mq_step.client)
  have "mq_client_step junk ?s1 = Inr ?s2"
    using bm l by (simp add: mq_client_step_def mq_send_def mq_start_def peek_def mq_sizes)
  then have 2: "mq_step junk ?s1 ?s2" by (rule mq_step.client)
  have "take 5 (m @ drop (length m) sbuf) = lit ''quit''" using assms(3) by (simp add: m_def)
  moreover have "length m \<le> MQ_SZ" using l by (simp add: m_def mq_sizes)
  ultimately have "mq_server_step ?s2 = Inr ?s3"
    using mq_server_data(1) [of ?s2 m "[]" "m @ drop (length m) sbuf"] assms(2) by (simp add: mq_start_def)
  then have 3: "mq_step junk ?s2 ?s3" by (rule mq_step.server)
  have "mq_client_step junk ?s3 = Inr ?s4"
    using j [of 1] by (simp add: mq_client_step_def mq_fread_def mq_start_def fread_def quit_simps mq_sizes)
  then have 4: "mq_step junk ?s3 ?s4" by (rule mq_step.client)
  have "mq_client_step junk ?s4 = Inr ?s5"
    using j [of 1] by (simp add: mq_client_step_def mq_send_def mq_start_def peek_def mq_sizes)
  then have 5: "mq_step junk ?s4 ?s5" by (rule mq_step.client)
  have "(mq_step junk)\<^sup>*\<^sup>* ?s0 ?s5"
    using 1 2 3 4 5 by (meson converse_rtranclp_into_rtranclp rtranclp.rtrancl_refl)
  then show ?thesis by (intro exI [of _ ?s5]) (simp add: mq_final_def mq_start_def)
qed

theorem mq_quit_in_file_witness:
  "\<exists>s. (mq_step (\<lambda>_. replicate 4096 NUL))\<^sup>*\<^sup>* (mq_start (replicate 4096 NUL) (lit ''quit'' @ ''abc'')) s \<and>
    mq_final s \<and> ms_output s = []"
  using mq_quit_in_file [of "\<lambda>_. replicate 4096 NUL" "replicate 4096 NUL" "lit ''quit'' @ ''abc''" "''abc''"]
  by (auto simp: junk_ok_def mq_sizes)

lemma mq_ok_chunks:
  "junk_ok junk \<Longrightarrow> length sbuf = MQ_SZ \<Longrightarrow>
   \<forall>c \<in> set (chunks MQ_CHUNK f). 4 \<le> length c \<and> take 4 c \<noteq> ''quit'' \<Longrightarrow> mq_ok junk sbuf f"
  by (simp add: mq_ok_def no_quit_chunks)

lemma demo_mq_ok: "mq_ok (\<lambda>_. replicate 4096 NUL) (replicate 4096 NUL) ''abcd''"
  by (rule mq_ok_chunks) (simp_all add: junk_ok_def mq_sizes chunks_step [of 4095 "''abcd''"])

theorem mq_transfer_witness:
  "\<exists>t. (mq_step (\<lambda>_. replicate 4096 NUL))\<^sup>*\<^sup>* (mq_start (replicate 4096 NUL) ''abcd'') t \<and> mq_final t"
  using mq_transfer [OF demo_mq_ok] by blast

text \<open>
  C8. When the byte behind the client's buffer can be read and no message of the file reads as
  the string \<open>quit\<close> in the server's buffer, the transfer through the message queue refines the
  bounded channel of three messages: every
  state that the two processes can reach shows a state that the channel can reach when the
  messages of the file, in their order, and the message \<open>quit\<close> are put into it.  What the
  server has written are the messages that have arrived, \<open>quit\<close> apart.  At the end everything
  has arrived.
\<close>

theorem mq_refines_channel:
  assumes "mq_ok junk sbuf f" "(mq_step junk)\<^sup>*\<^sup>* (mq_start sbuf f) s"
  shows "\<exists>c. (chan_step MQ_MAXMSG)\<^sup>*\<^sup>* (chan_start (mq_items junk f)) c \<and> travelling c = queue s \<and>
    arrived c @ queue s @ unsent c = mq_items junk f \<and> length (queue s) \<le> MQ_MAXMSG \<and>
    mq_written s (arrived c) \<and> (mq_final s \<longrightarrow> arrived c = mq_items junk f)"
proof -
  obtain c where c: "(chan_step MQ_MAXMSG)\<^sup>*\<^sup>* (chan_start (mq_items junk f)) c" "mq_view junk s c"
    "arrived c @ travelling c @ unsent c = mq_items junk f" "length (travelling c) \<le> MQ_MAXMSG"
    using mq_channel.carries assms by blast
  have "queue s = [] \<and> outstanding junk s = []" if "mq_final s"
    using mq_run.reach_inv assms that by (intro mq_final_empty) blast+
  then show ?thesis using c unfolding mq_view_def by (intro exI [of _ c]) auto
qed

theorem mq_refines_channel_witness:
  "\<exists>c. (chan_step MQ_MAXMSG)\<^sup>*\<^sup>* (chan_start (mq_items (\<lambda>_. replicate 4096 NUL) ''abcd'')) c \<and>
    arrived c = mq_items (\<lambda>_. replicate 4096 NUL) ''abcd''"
proof -
  let ?j = "\<lambda>_. replicate 4096 NUL"
  obtain t where t: "(mq_step ?j)\<^sup>*\<^sup>* (mq_start (replicate 4096 NUL) ''abcd'') t" "mq_final t"
    using mq_run.finishes_from [OF mq_inv_start [OF demo_mq_ok]] by blast
  from mq_refines_channel [OF demo_mq_ok t(1)] t(2) show ?thesis by blast
qed

text \<open>
  The copy is never the file, unless the file is empty: it is longer by the number of
  chunks.
\<close>

theorem mq_copy_longer:
  assumes "mq_ok junk sbuf f" "(mq_step junk)\<^sup>*\<^sup>* (mq_start sbuf f) s" "mq_final s"
  shows "length (ms_output s) = length f + (length f + 4094) div 4095"
proof -
  have "mq_inv junk f s" using mq_run.reach_inv assms by blast
  then have "ms_output s = concat (mq_messages junk 0 (chunks MQ_CHUNK f))"
    using assms(3) by (simp add: mq_inv_def mq_final_def)
  then show ?thesis by (simp add: length_mq_messages length_chunks mq_sizes)
qed

theorem mq_copy_longer_witness:
  "\<exists>t. (mq_step (\<lambda>_. replicate 4096 NUL))\<^sup>*\<^sup>* (mq_start (replicate 4096 NUL) ''abcd'') t \<and>
    length (ms_output t) = 5"
proof -
  have "mq_inv (\<lambda>_. replicate 4096 NUL) ''abcd'' (mq_start (replicate 4096 NUL) ''abcd'')"
    by (rule mq_inv_start [OF demo_mq_ok])
  then obtain t where t: "(mq_step (\<lambda>_. replicate 4096 NUL))\<^sup>*\<^sup>* (mq_start (replicate 4096 NUL) ''abcd'') t"
    "mq_final t" using mq_run.finishes_from by blast
  with mq_copy_longer [OF demo_mq_ok t] show ?thesis by auto
qed

text \<open>
  Only \<open>MQ_CHUNK\<close> bytes belong to the client's buffer: with exactly these, the first
  full chunk makes \<open>mq_send\<close> read one byte behind it.
\<close>

theorem mq_reads_outside:
  assumes "length (junk 0) = MQ_CHUNK" "MQ_CHUNK \<le> length f"
  shows "\<exists>s. mq_client_step junk (mq_start sbuf f) = Inr s \<and>
    mq_client_step junk s = Inl OutOfBounds"
  using assms by (cases f)
    (auto simp: mq_client_step_def mq_fread_def mq_start_def fread_def poke_def mq_send_def peek_def
      mq_sizes Let_def)

theorem mq_reads_outside_witness:
  "\<exists>s. mq_client_step (\<lambda>_. replicate 4095 NUL) (mq_start [] (replicate 5000 CHR ''x'')) = Inr s \<and>
    mq_client_step (\<lambda>_. replicate 4095 NUL) s = Inl OutOfBounds"
  by (rule mq_reads_outside) (simp_all add: mq_sizes)

end
