(* ===== verification/Shmem.thy ===== *)
theory Shmem
  imports Kernel
begin

text \<open>
  The transfer of a file through a shared memory object,
  \<open>task_3/shmem_posix/shmem_client_posix.c\<close> and \<open>shmem_server_posix.c\<close>: a buffer of one
  slot, guarded by the semaphores \<open>full_sem\<close> (the slot may be filled), \<open>empty_sem\<close> (it
  may be emptied) and \<open>mutex\<close>.  Every library call is one step of one of the two
  processes.  Shown: mutual exclusion, freedom from deadlock and the exact output of a
  first run, and that a second run on the semaphores the first one leaves can never end.
  The transfer refines the bounded channel of \<open>Channel\<close>.
\<close>

section \<open>State\<close>

definition SHM_SIZE :: nat where
  "SHM_SIZE = 4096"

datatype xclient_pc =
    XFread | XWaitFull | XWaitMutex | XCopy | XPostMutex | XPostEmpty
  | QWaitFull | QWaitMutex | QWrite | QPostMutex | QPostEmpty | XExit | XFault

datatype xserver_pc =
    VWaitEmpty | VWaitMutex | VCompare | VWrite | VPostMutex | VPostFull | VExit | VFault

record shmem =
  full_sem :: nat
  empty_sem :: nat
  mutex_sem :: nat
  shm :: bytes
  xc_pc :: xclient_pc
  inter_buf :: bytes
  num_of_read :: nat
  xc_input :: bytes
  xs_pc :: xserver_pc
  xs_output :: bytes

text \<open>
  \<open>sem_open\<close> with \<open>O_CREAT\<close>: the initial value counts only when the semaphore does not
  exist yet.  A named semaphore outlives the processes and nothing ever unlinks these.
\<close>

definition sem_open :: "nat option \<Rightarrow> nat \<Rightarrow> nat" where
  "sem_open existing value = (case existing of None \<Rightarrow> value | Some v \<Rightarrow> v)"

definition sem_wait :: "nat \<Rightarrow> nat result" where
  "sem_wait n = (if n = 0 then Inl Blocked else Inr (n - 1))"

section \<open>The two programs\<close>

definition xclient_step :: "shmem \<Rightarrow> shmem result" where
  "xclient_step s =
     (case xc_pc s of
        XFread \<Rightarrow>
          (let (xs, rest) = fread SHM_SIZE (xc_input s)
           in if xs = [] then Inr (s\<lparr>num_of_read := 0, xc_pc := QWaitFull\<rparr>)
              else bindS (poke (inter_buf s) 0 xs) (\<lambda>b.
                     Inr (s\<lparr>inter_buf := b, num_of_read := length xs, xc_input := rest,
                            xc_pc := XWaitFull\<rparr>)))
      | XWaitFull \<Rightarrow> bindS (sem_wait (full_sem s)) (\<lambda>n. Inr (s\<lparr>full_sem := n, xc_pc := XWaitMutex\<rparr>))
      | XWaitMutex \<Rightarrow> bindS (sem_wait (mutex_sem s)) (\<lambda>n. Inr (s\<lparr>mutex_sem := n, xc_pc := XCopy\<rparr>))
      | XCopy \<Rightarrow>
          bindS (strncpy_bytes (inter_buf s) (num_of_read s)) (\<lambda>xs.
          bindS (poke (shm s) 0 xs) (\<lambda>m. Inr (s\<lparr>shm := m, xc_pc := XPostMutex\<rparr>)))
      | XPostMutex \<Rightarrow> Inr (s\<lparr>mutex_sem := Suc (mutex_sem s), xc_pc := XPostEmpty\<rparr>)
      | XPostEmpty \<Rightarrow> Inr (s\<lparr>empty_sem := Suc (empty_sem s), xc_pc := XFread\<rparr>)
      | QWaitFull \<Rightarrow> bindS (sem_wait (full_sem s)) (\<lambda>n. Inr (s\<lparr>full_sem := n, xc_pc := QWaitMutex\<rparr>))
      | QWaitMutex \<Rightarrow> bindS (sem_wait (mutex_sem s)) (\<lambda>n. Inr (s\<lparr>mutex_sem := n, xc_pc := QWrite\<rparr>))
      | QWrite \<Rightarrow> bindS (poke (shm s) 0 (lit ''quit'')) (\<lambda>m. Inr (s\<lparr>shm := m, xc_pc := QPostMutex\<rparr>))
      | QPostMutex \<Rightarrow> Inr (s\<lparr>mutex_sem := Suc (mutex_sem s), xc_pc := QPostEmpty\<rparr>)
      | QPostEmpty \<Rightarrow> Inr (s\<lparr>empty_sem := Suc (empty_sem s), xc_pc := XExit\<rparr>)
      | _ \<Rightarrow> Inl Blocked)"

text \<open>The server leaves its loop between \<open>sem_wait(mutex)\<close> and \<open>sem_post(mutex)\<close>.\<close>

definition xserver_step :: "shmem \<Rightarrow> shmem result" where
  "xserver_step s =
     (case xs_pc s of
        VWaitEmpty \<Rightarrow> bindS (sem_wait (empty_sem s)) (\<lambda>n. Inr (s\<lparr>empty_sem := n, xs_pc := VWaitMutex\<rparr>))
      | VWaitMutex \<Rightarrow> bindS (sem_wait (mutex_sem s)) (\<lambda>n. Inr (s\<lparr>mutex_sem := n, xs_pc := VCompare\<rparr>))
      | VCompare \<Rightarrow>
          bindS (strcmp_eq (shm s) (lit ''quit'')) (\<lambda>eq.
            Inr (s\<lparr>xs_pc := if eq then VExit else VWrite\<rparr>))
      | VWrite \<Rightarrow>
          bindS (peek (shm s) SHM_SIZE) (\<lambda>xs.
            Inr (s\<lparr>xs_output := xs_output s @ xs, xs_pc := VPostMutex\<rparr>))
      | VPostMutex \<Rightarrow> Inr (s\<lparr>mutex_sem := Suc (mutex_sem s), xs_pc := VPostFull\<rparr>)
      | VPostFull \<Rightarrow> Inr (s\<lparr>full_sem := Suc (full_sem s), xs_pc := VWaitEmpty\<rparr>)
      | _ \<Rightarrow> Inl Blocked)"

inductive shm_step :: "shmem \<Rightarrow> shmem \<Rightarrow> bool" where
  client: "xclient_step s = Inr t \<Longrightarrow> shm_step s t"
| client_fault: "xclient_step s = Inl e \<Longrightarrow> e \<noteq> Blocked \<Longrightarrow> shm_step s (s\<lparr>xc_pc := XFault\<rparr>)"
| server: "xserver_step s = Inr t \<Longrightarrow> shm_step s t"
| server_fault: "xserver_step s = Inl e \<Longrightarrow> e \<noteq> Blocked \<Longrightarrow> shm_step s (s\<lparr>xs_pc := VFault\<rparr>)"

text \<open>
  Both programs up to their loops, on the semaphores and the memory object that exist
  already (\<open>None\<close>: none of them does; a new object is all zeros).
\<close>

definition shm_start ::
  "nat option \<Rightarrow> nat option \<Rightarrow> nat option \<Rightarrow> bytes option \<Rightarrow> bytes \<Rightarrow> shmem" where
  "shm_start sem_full sem_empty sem_mutex obj f =
     \<lparr>full_sem = sem_open sem_full 1, empty_sem = sem_open sem_empty 0,
      mutex_sem = sem_open sem_mutex 1,
      shm = (case obj of None \<Rightarrow> replicate SHM_SIZE NUL | Some m \<Rightarrow> m),
      xc_pc = XFread, inter_buf = replicate SHM_SIZE NUL, num_of_read = 0, xc_input = f,
      xs_pc = VWaitEmpty, xs_output = []\<rparr>"

text \<open>Starting both programs again after a run: the semaphores persist, the server has
  unlinked the memory object.\<close>

definition shm_restart :: "shmem \<Rightarrow> bytes \<Rightarrow> shmem" where
  "shm_restart s f =
     shm_start (Some (full_sem s)) (Some (empty_sem s)) (Some (mutex_sem s)) None f"

definition shm_final :: "shmem \<Rightarrow> bool" where
  "shm_final s \<longleftrightarrow> xc_pc s = XExit \<and> xs_pc s = VExit"

section \<open>Mutual exclusion\<close>

fun client_in :: "xclient_pc \<Rightarrow> bool" where
  "client_in XCopy \<longleftrightarrow> True"
| "client_in XPostMutex \<longleftrightarrow> True"
| "client_in QWrite \<longleftrightarrow> True"
| "client_in QPostMutex \<longleftrightarrow> True"
| "client_in _ \<longleftrightarrow> False"

fun server_in :: "xserver_pc \<Rightarrow> bool" where
  "server_in VCompare \<longleftrightarrow> True"
| "server_in VWrite \<longleftrightarrow> True"
| "server_in VPostMutex \<longleftrightarrow> True"
| "server_in VExit \<longleftrightarrow> True"
| "server_in _ \<longleftrightarrow> False"

definition mutex_inv :: "shmem \<Rightarrow> bool" where
  "mutex_inv s \<longleftrightarrow>
     mutex_sem s + of_bool (client_in (xc_pc s)) + of_bool (server_in (xs_pc s)) \<le> 1"

lemma sem_wait_Inr: "sem_wait n = Inr m \<longleftrightarrow> n = Suc m"
  by (auto simp: sem_wait_def)

lemmas xclient_steps = xclient_step_def bindS_eq_Inr_iff sem_wait_Inr poke_Inr
lemmas xserver_steps = xserver_step_def bindS_eq_Inr_iff sem_wait_Inr peek_Inr

text \<open>The step relation of each process, one case per program point.\<close>

lemma xclient_stepE:
  assumes "xclient_step s = Inr t"
  obtains
    (eof) "xc_pc s = XFread" "take SHM_SIZE (xc_input s) = []" "t = s\<lparr>num_of_read := 0, xc_pc := QWaitFull\<rparr>"
  | (chunk) xs where "xc_pc s = XFread" "xs = take SHM_SIZE (xc_input s)" "xs \<noteq> []"
      "length xs \<le> length (inter_buf s)"
      "t = s\<lparr>inter_buf := xs @ drop (length xs) (inter_buf s), num_of_read := length xs,
             xc_input := drop SHM_SIZE (xc_input s), xc_pc := XWaitFull\<rparr>"
  | (full) n pc where "xc_pc s = XWaitFull \<and> pc = XWaitMutex \<or> xc_pc s = QWaitFull \<and> pc = QWaitMutex"
      "full_sem s = Suc n" "t = s\<lparr>full_sem := n, xc_pc := pc\<rparr>"
  | (lock) n pc where "xc_pc s = XWaitMutex \<and> pc = XCopy \<or> xc_pc s = QWaitMutex \<and> pc = QWrite"
      "mutex_sem s = Suc n" "t = s\<lparr>mutex_sem := n, xc_pc := pc\<rparr>"
  | (copy) xs where "xc_pc s = XCopy" "strncpy_bytes (inter_buf s) (num_of_read s) = Inr xs"
      "length xs \<le> length (shm s)"
      "t = s\<lparr>shm := xs @ drop (length xs) (shm s), xc_pc := XPostMutex\<rparr>"
  | (quit) "xc_pc s = QWrite" "5 \<le> length (shm s)"
      "t = s\<lparr>shm := lit ''quit'' @ drop 5 (shm s), xc_pc := QPostMutex\<rparr>"
  | (unlock) pc where "xc_pc s = XPostMutex \<and> pc = XPostEmpty \<or> xc_pc s = QPostMutex \<and> pc = QPostEmpty"
      "t = s\<lparr>mutex_sem := Suc (mutex_sem s), xc_pc := pc\<rparr>"
  | (post) pc where "xc_pc s = XPostEmpty \<and> pc = XFread \<or> xc_pc s = QPostEmpty \<and> pc = XExit"
      "t = s\<lparr>empty_sem := Suc (empty_sem s), xc_pc := pc\<rparr>"
proof (cases "xc_pc s")
  case XFread
  show ?thesis
  proof (cases "take SHM_SIZE (xc_input s) = []")
    case True
    with XFread assms show ?thesis by (intro eof) (simp_all add: xclient_step_def fread_def)
  next
    case False
    with XFread assms show ?thesis
      by (intro chunk [OF XFread refl False])
        (auto simp: xclient_step_def fread_def bindS_eq_Inr_iff poke_Inr)
  qed
next
  case XWaitFull
  with assms show ?thesis by (auto simp: xclient_steps intro: full)
next
  case QWaitFull
  with assms show ?thesis by (auto simp: xclient_steps intro: full)
next
  case XWaitMutex
  with assms show ?thesis by (auto simp: xclient_steps intro: lock)
next
  case QWaitMutex
  with assms show ?thesis by (auto simp: xclient_steps intro: lock)
next
  case XCopy
  with assms show ?thesis by (auto simp: xclient_steps intro: copy)
next
  case QWrite
  with assms have "5 \<le> length (shm s) \<and> t = s\<lparr>shm := lit ''quit'' @ drop 5 (shm s), xc_pc := QPostMutex\<rparr>"
    by (auto simp: xclient_steps eval_nat_numeral)
  with QWrite show ?thesis by (intro quit) simp_all
next
  case XPostMutex
  with assms show ?thesis by (auto simp: xclient_steps intro: unlock)
next
  case QPostMutex
  with assms show ?thesis by (auto simp: xclient_steps intro: unlock)
next
  case XPostEmpty
  with assms show ?thesis by (auto simp: xclient_steps intro: post)
next
  case QPostEmpty
  with assms show ?thesis by (auto simp: xclient_steps intro: post)
qed (use assms in \<open>simp_all add: xclient_step_def\<close>)

lemma xserver_stepE:
  assumes "xserver_step s = Inr t"
  obtains
    (empty) n where "xs_pc s = VWaitEmpty" "empty_sem s = Suc n" "t = s\<lparr>empty_sem := n, xs_pc := VWaitMutex\<rparr>"
  | (lock) n where "xs_pc s = VWaitMutex" "mutex_sem s = Suc n" "t = s\<lparr>mutex_sem := n, xs_pc := VCompare\<rparr>"
  | (compare) eq where "xs_pc s = VCompare" "strcmp_eq (shm s) (lit ''quit'') = Inr eq"
      "t = s\<lparr>xs_pc := if eq then VExit else VWrite\<rparr>"
  | (out) "xs_pc s = VWrite" "SHM_SIZE \<le> length (shm s)"
      "t = s\<lparr>xs_output := xs_output s @ take SHM_SIZE (shm s), xs_pc := VPostMutex\<rparr>"
  | (unlock) "xs_pc s = VPostMutex" "t = s\<lparr>mutex_sem := Suc (mutex_sem s), xs_pc := VPostFull\<rparr>"
  | (post) "xs_pc s = VPostFull" "t = s\<lparr>full_sem := Suc (full_sem s), xs_pc := VWaitEmpty\<rparr>"
proof (cases "xs_pc s")
  case VWaitEmpty
  with assms show ?thesis by (auto simp: xserver_steps intro: empty)
next
  case VWaitMutex
  with assms show ?thesis by (auto simp: xserver_steps intro: lock)
next
  case VCompare
  have "bindS (strcmp_eq (shm s) (lit ''quit''))
      (\<lambda>eq. Inr (s\<lparr>xs_pc := if eq then VExit else VWrite\<rparr>)) = (Inr t :: shmem result)"
    using assms VCompare by (simp only: xserver_step_def xserver_pc.case)
  then show ?thesis
    unfolding bindS_eq_Inr_iff by (elim exE conjE) (rule compare [OF VCompare], assumption, simp only: sum.inject)
next
  case VWrite
  with assms show ?thesis by (intro out) (auto simp: xserver_steps)
next
  case VPostMutex
  with assms show ?thesis by (auto simp: xserver_steps intro: unlock)
next
  case VPostFull
  with assms show ?thesis by (auto simp: xserver_steps intro: post)
next
  case VExit
  with assms show ?thesis by (simp add: xserver_step_def)
next
  case VFault
  with assms show ?thesis by (simp add: xserver_step_def)
qed

lemma mutex_client: "mutex_inv s \<Longrightarrow> xclient_step s = Inr t \<Longrightarrow> mutex_inv t"
  by (erule xclient_stepE; auto simp: mutex_inv_def)

lemma mutex_server: "mutex_inv s \<Longrightarrow> xserver_step s = Inr t \<Longrightarrow> mutex_inv t"
  by (erule xserver_stepE; auto simp: mutex_inv_def)

lemma mutex_step:
  assumes "mutex_inv s" "shm_step s t"
  shows "mutex_inv t"
  using assms(2)
proof cases
  case client
  with assms(1) show ?thesis by (rule mutex_client)
next
  case server
  with assms(1) show ?thesis by (rule mutex_server)
qed (use assms(1) in \<open>simp_all add: mutex_inv_def \<close>)

interpretation shm_mutex: trans_inv
  "\<lambda>s. \<exists>a b c m f. sem_open c 1 \<le> 1 \<and> s = shm_start a b c m f" shm_step mutex_inv
proof unfold_locales
  fix s t :: shmem
  show "\<exists>a b c m f. sem_open c 1 \<le> 1 \<and> s = shm_start a b c m f \<Longrightarrow> mutex_inv s"
    by (auto simp: mutex_inv_def shm_start_def )
  show "mutex_inv s \<Longrightarrow> shm_step s t \<Longrightarrow> mutex_inv t" by (rule mutex_step)
qed


section \<open>The slot\<close>

text \<open>
  What a chunk turns into in the slot: \<open>strncpy\<close> stops at the first NUL byte and fills up
  with NUL bytes, and behind a short chunk the slot keeps what it held.
\<close>

definition stored :: "bytes \<Rightarrow> bytes" where
  "stored c = cstr c @ replicate (length c - length (cstr c)) NUL"

fun slots :: "bytes \<Rightarrow> bytes list \<Rightarrow> bytes list" where
  "slots m [] = []"
| "slots m (c # cs) = (let m' = stored c @ drop (length c) m in m' # slots m' cs)"

definition shm_output :: "bytes \<Rightarrow> bytes list" where
  "shm_output f = slots (replicate SHM_SIZE NUL) (chunks SHM_SIZE f)"

definition shm_ok :: "bytes \<Rightarrow> bool" where
  "shm_ok f \<longleftrightarrow> (\<forall>m \<in> set (shm_output f). take 5 m \<noteq> lit ''quit'')"

lemma length_stored [simp]: "length (stored c) = length c"
  using length_cstr_le [of c] by (simp add: stored_def)

lemma strncpy_stored:
  "n \<le> length b \<Longrightarrow> strncpy_bytes b n = Inr (stored (take n b))"
  by (simp add: strncpy_bytes_def stored_def Let_def)

section \<open>The run\<close>

text \<open>The chunks that were not yet copied into the slot.\<close>

fun has_chunk :: "xclient_pc \<Rightarrow> bool" where
  "has_chunk XWaitFull \<longleftrightarrow> True"
| "has_chunk XWaitMutex \<longleftrightarrow> True"
| "has_chunk XCopy \<longleftrightarrow> True"
| "has_chunk _ \<longleftrightarrow> False"

definition uncopied :: "shmem \<Rightarrow> bytes list" where
  "uncopied s = (if has_chunk (xc_pc s)
     then [take (num_of_read s) (inter_buf s)] else []) @ chunks SHM_SIZE (xc_input s)"

fun client_filled :: "xclient_pc \<Rightarrow> bool" where
  "client_filled XPostMutex \<longleftrightarrow> True"
| "client_filled XPostEmpty \<longleftrightarrow> True"
| "client_filled QPostMutex \<longleftrightarrow> True"
| "client_filled QPostEmpty \<longleftrightarrow> True"
| "client_filled _ \<longleftrightarrow> False"

fun server_unread :: "xserver_pc \<Rightarrow> bool" where
  "server_unread VWaitMutex \<longleftrightarrow> True"
| "server_unread VCompare \<longleftrightarrow> True"
| "server_unread VWrite \<longleftrightarrow> True"
| "server_unread _ \<longleftrightarrow> False"

text \<open>The slot holds something the server has not written yet.\<close>

definition slot_full :: "shmem \<Rightarrow> bool" where
  "slot_full s \<longleftrightarrow> client_filled (xc_pc s) \<or> 0 < empty_sem s \<or> server_unread (xs_pc s)"

fun client_token :: "xclient_pc \<Rightarrow> bool" where
  "client_token XWaitMutex \<longleftrightarrow> True"
| "client_token XCopy \<longleftrightarrow> True"
| "client_token XPostMutex \<longleftrightarrow> True"
| "client_token XPostEmpty \<longleftrightarrow> True"
| "client_token QWaitMutex \<longleftrightarrow> True"
| "client_token QWrite \<longleftrightarrow> True"
| "client_token QPostMutex \<longleftrightarrow> True"
| "client_token QPostEmpty \<longleftrightarrow> True"
| "client_token _ \<longleftrightarrow> False"

fun server_token :: "xserver_pc \<Rightarrow> bool" where
  "server_token VWaitMutex \<longleftrightarrow> True"
| "server_token VCompare \<longleftrightarrow> True"
| "server_token VWrite \<longleftrightarrow> True"
| "server_token VPostMutex \<longleftrightarrow> True"
| "server_token VPostFull \<longleftrightarrow> True"
| "server_token VExit \<longleftrightarrow> True"
| "server_token _ \<longleftrightarrow> False"

fun quit_written :: "xclient_pc \<Rightarrow> bool" where
  "quit_written QPostMutex \<longleftrightarrow> True"
| "quit_written QPostEmpty \<longleftrightarrow> True"
| "quit_written XExit \<longleftrightarrow> True"
| "quit_written _ \<longleftrightarrow> False"

fun past_loop :: "xclient_pc \<Rightarrow> bool" where
  "past_loop QWaitFull \<longleftrightarrow> True"
| "past_loop QWaitMutex \<longleftrightarrow> True"
| "past_loop QWrite \<longleftrightarrow> True"
| "past_loop QPostMutex \<longleftrightarrow> True"
| "past_loop QPostEmpty \<longleftrightarrow> True"
| "past_loop XExit \<longleftrightarrow> True"
| "past_loop _ \<longleftrightarrow> False"

text \<open>Tokens, program points and sizes.\<close>

definition shm_frame :: "shmem \<Rightarrow> bool" where
  "shm_frame s \<longleftrightarrow>
     full_sem s + empty_sem s + of_bool (client_token (xc_pc s)) + of_bool (server_token (xs_pc s)) = 1 \<and>
     mutex_sem s + of_bool (client_in (xc_pc s)) + of_bool (server_in (xs_pc s)) = 1 \<and>
     length (shm s) = SHM_SIZE \<and> length (inter_buf s) = SHM_SIZE \<and>
     num_of_read s \<le> SHM_SIZE \<and>
     (has_chunk (xc_pc s) \<longrightarrow> 0 < num_of_read s) \<and>
     (past_loop (xc_pc s) \<longrightarrow> xc_input s = []) \<and>
     xc_pc s \<noteq> XFault \<and> xs_pc s \<noteq> VFault \<and>
     (xs_pc s = VExit \<longrightarrow> xc_pc s = XExit) \<and>
     (quit_written (xc_pc s) \<longrightarrow> slot_full s \<or> xs_pc s = VExit) \<and>
     (xs_pc s = VWrite \<longrightarrow> \<not> quit_written (xc_pc s))"

text \<open>What was written, what is in the slot and what is still to come.\<close>

definition shm_data :: "bytes \<Rightarrow> shmem \<Rightarrow> bool" where
  "shm_data f s \<longleftrightarrow>
     (if quit_written (xc_pc s)
      then take 5 (shm s) = lit ''quit'' \<and> xs_output s = concat (shm_output f)
      else xs_output s @ (if slot_full s then shm s else []) @ concat (slots (shm s) (uncopied s)) =
             concat (shm_output f) \<and>
           (slot_full s \<longrightarrow> take 5 (shm s) \<noteq> lit ''quit'') \<and>
           (\<forall>m \<in> set (slots (shm s) (uncopied s)). take 5 m \<noteq> lit ''quit''))"

definition shm_inv :: "bytes \<Rightarrow> shmem \<Rightarrow> bool" where
  "shm_inv f s \<longleftrightarrow> shm_frame s \<and> shm_data f s"

definition shm_rank :: "shmem \<Rightarrow> nat" where
  "shm_rank s = 12 * length (chunks SHM_SIZE (xc_input s)) + 6 * empty_sem s +
     (case xc_pc s of
        XFread \<Rightarrow> 12 | XWaitFull \<Rightarrow> 23 | XWaitMutex \<Rightarrow> 22 | XCopy \<Rightarrow> 21 | XPostMutex \<Rightarrow> 20
      | XPostEmpty \<Rightarrow> 19 | QWaitFull \<Rightarrow> 11 | QWaitMutex \<Rightarrow> 10 | QWrite \<Rightarrow> 9 | QPostMutex \<Rightarrow> 8
      | QPostEmpty \<Rightarrow> 7 | _ \<Rightarrow> 0) +
     (case xs_pc s of
        VWaitMutex \<Rightarrow> 5 | VCompare \<Rightarrow> 4 | VWrite \<Rightarrow> 3 | VPostMutex \<Rightarrow> 2 | VPostFull \<Rightarrow> 1 | _ \<Rightarrow> 0)"

lemma SHM_SIZE_pos: "SHM_SIZE = 4096"
  by (simp add: SHM_SIZE_def)



lemma server_unread_token: "server_unread pc \<Longrightarrow> server_token pc"
  by (cases pc) simp_all

text \<open>While the client has its token the slot is empty.\<close>

lemma client_slot_empty:
  "shm_frame s \<Longrightarrow> client_token (xc_pc s) \<Longrightarrow> \<not> client_filled (xc_pc s) \<Longrightarrow> \<not> slot_full s"
  using server_unread_token [of "xs_pc s"] by (auto simp: shm_frame_def slot_full_def)


lemma quit_sent: "quit_written pc \<Longrightarrow> \<not> client_token pc \<Longrightarrow> pc = XExit"
  by (cases pc) simp_all

lemma frame_client: "shm_frame s \<Longrightarrow> xclient_step s = Inr t \<Longrightarrow> shm_frame t"
  by (erule xclient_stepE; (elim disjE conjE)?; force simp: shm_frame_def slot_full_def SHM_SIZE_pos)

lemma compare_quit:
  assumes "shm_frame s" "shm_data f s" "xs_pc s = VCompare"
  shows "strcmp_eq (shm s) (lit ''quit'') = Inr (quit_written (xc_pc s))"
proof -
  have "slot_full s" using assms(3) by (simp add: slot_full_def)
  then have "take 5 (shm s) = lit ''quit'' \<longleftrightarrow> quit_written (xc_pc s)"
    using assms(2) by (simp add: shm_data_def split: if_splits)
  then show ?thesis
    using strcmp_quit [of "shm s"] assms(1) by (simp add: shm_frame_def SHM_SIZE_pos)
qed


lemma frame_server:
  assumes "shm_frame s" "shm_data f s" "xserver_step s = Inr t"
  shows "shm_frame t"
  using assms(3)
proof (cases rule: xserver_stepE)
  case (compare eq)
  then have "eq = quit_written (xc_pc s)" using compare_quit [OF assms(1,2)] by simp
  moreover have "\<not> client_token (xc_pc s)" using compare assms(1) by (simp add: shm_frame_def)
  ultimately show ?thesis
    using compare assms(1) quit_sent [of "xc_pc s"]
    by (auto simp: shm_frame_def slot_full_def)
next
  case empty
  with assms(1) show ?thesis by (force simp: shm_frame_def slot_full_def)
next
  case lock
  with assms(1) show ?thesis by (force simp: shm_frame_def slot_full_def)
next
  case out
  with assms(1) show ?thesis by (force simp: shm_frame_def slot_full_def)
next
  case unlock
  with assms(1) show ?thesis by (force simp: shm_frame_def slot_full_def)
next
  case post
  with assms(1) show ?thesis by (force simp: shm_frame_def slot_full_def)
qed

text \<open>Most steps leave the data alone.\<close>

lemma shm_data_same:
  "shm_data f s \<Longrightarrow> quit_written (xc_pc t) = quit_written (xc_pc s) \<Longrightarrow>
   (\<not> quit_written (xc_pc s) \<Longrightarrow> slot_full t = slot_full s) \<Longrightarrow> uncopied t = uncopied s \<Longrightarrow>
   shm t = shm s \<Longrightarrow> xs_output t = xs_output s \<Longrightarrow> shm_data f t"
  by (cases "quit_written (xc_pc s)"; cases "slot_full s") (simp_all add: shm_data_def)

lemma data_client:
  assumes "shm_frame s" "shm_data f s" "xclient_step s = Inr t"
  shows "shm_data f t"
  using assms(3)
proof (cases rule: xclient_stepE)
  case eof
  then show ?thesis
    by (intro shm_data_same [OF assms(2)]) (simp_all add: uncopied_def slot_full_def SHM_SIZE_pos)
next
  case (chunk xs)
  then show ?thesis using chunks_step [of SHM_SIZE "xc_input s"]
    by (intro shm_data_same [OF assms(2)]) (simp_all add: uncopied_def slot_full_def SHM_SIZE_pos)
next
  case (full n pc)
  then show ?thesis
    by (intro shm_data_same [OF assms(2)]; elim disjE conjE; simp add: uncopied_def slot_full_def)
next
  case (lock n pc)
  then show ?thesis
    by (intro shm_data_same [OF assms(2)]; elim disjE conjE; simp add: uncopied_def slot_full_def)
next
  case (copy xs)
  have e: "\<not> slot_full s" using client_slot_empty [OF assms(1)] copy by simp
  have u: "uncopied s = take (num_of_read s) (inter_buf s) # uncopied t"
    using copy by (simp add: uncopied_def)
  have xs: "xs = stored (take (num_of_read s) (inter_buf s))"
    using copy assms(1) by (simp add: strncpy_stored shm_frame_def SHM_SIZE_pos)
  have "length xs = length (take (num_of_read s) (inter_buf s))" by (simp add: xs)
  moreover have "slot_full t" using copy by (simp add: slot_full_def)
  ultimately show ?thesis
    using assms(2) e u xs copy by (simp add: shm_data_def Let_def)
next
  case quit
  have e: "\<not> slot_full s" using client_slot_empty [OF assms(1)] quit by simp
  moreover have "uncopied s = []" using quit assms(1) by (simp add: uncopied_def shm_frame_def)
  ultimately show ?thesis using quit assms(2) by (simp add: shm_data_def)
next
  case (unlock pc)
  then show ?thesis
    by (intro shm_data_same [OF assms(2)]; elim disjE conjE; simp add: uncopied_def slot_full_def)
next
  case (post pc)
  then show ?thesis
    by (intro shm_data_same [OF assms(2)]; elim disjE conjE; simp add: uncopied_def slot_full_def)
qed

lemma data_server:
  assumes "shm_frame s" "shm_data f s" "xserver_step s = Inr t"
  shows "shm_data f t"
  using assms(3)
proof (cases rule: xserver_stepE)
  case (compare eq)
  then have "eq = quit_written (xc_pc s)" using compare_quit [OF assms(1,2)] by simp
  with compare show ?thesis
    by (intro shm_data_same [OF assms(2)]) (simp_all add: uncopied_def slot_full_def)
next
  case out
  have "\<not> quit_written (xc_pc s)" "slot_full s" "length (shm s) = SHM_SIZE"
    using out assms(1) by (simp_all add: shm_frame_def slot_full_def)
  moreover have "\<not> slot_full t"
    using out assms(1) by (cases "xc_pc s"; simp add: shm_frame_def slot_full_def)
  moreover have "uncopied t = uncopied s" using out by (simp add: uncopied_def)
  ultimately show ?thesis using out assms(2) by (simp add: shm_data_def)
next
  case empty
  then show ?thesis
    by (intro shm_data_same [OF assms(2)]) (simp_all add: uncopied_def slot_full_def)
next
  case lock
  then show ?thesis
    by (intro shm_data_same [OF assms(2)]) (simp_all add: uncopied_def slot_full_def)
next
  case unlock
  then show ?thesis
    by (intro shm_data_same [OF assms(2)]) (simp_all add: uncopied_def slot_full_def)
next
  case post
  then show ?thesis
    by (intro shm_data_same [OF assms(2)]) (simp_all add: uncopied_def slot_full_def)
qed

text \<open>Faults do not happen, and every step lowers the rank.\<close>

lemma xclient_no_fault:
  "shm_frame s \<Longrightarrow> xclient_step s = Inl e \<Longrightarrow> e = Blocked"
  by (cases "xc_pc s";
      auto simp: shm_frame_def xclient_step_def sem_wait_def fread_def strncpy_stored poke_def SHM_SIZE_pos
        split: if_splits)

lemma xserver_no_fault:
  "shm_frame s \<Longrightarrow> shm_data f s \<Longrightarrow> xserver_step s = Inl e \<Longrightarrow> e = Blocked"
  using compare_quit [of s f]
  by (cases "xs_pc s"; auto simp: shm_frame_def xserver_step_def sem_wait_def peek_def SHM_SIZE_pos
      split: if_splits)

lemma rank_client: "xclient_step s = Inr t \<Longrightarrow> shm_rank t < shm_rank s"
  by (erule xclient_stepE; (elim disjE conjE)?;
      simp add: shm_rank_def chunks_step [of 4096 "xc_input s"] SHM_SIZE_pos)

lemma rank_server: "xserver_step s = Inr t \<Longrightarrow> shm_rank t < shm_rank s"
  by (erule xserver_stepE; simp add: shm_rank_def)


lemma shm_step_ok:
  assumes "shm_inv f s" "shm_step s t"
  shows "shm_inv f t \<and> shm_rank t < shm_rank s"
proof -
  have fr: "shm_frame s" and da: "shm_data f s" using assms(1) by (simp_all add: shm_inv_def)
  from assms(2) show ?thesis
  proof (cases rule: shm_step.cases)
    case client
    then show ?thesis
      unfolding shm_inv_def using frame_client [OF fr] data_client [OF fr da] rank_client by blast
  next
    case server
    then show ?thesis
      unfolding shm_inv_def using frame_server [OF fr da] data_server [OF fr da] rank_server by blast
  next
    case (client_fault e)
    then show ?thesis using xclient_no_fault [OF fr] by blast
  next
    case (server_fault e)
    then show ?thesis using xserver_no_fault [OF fr da] by blast
  qed
qed

text \<open>Some process can always go on: a process that waits for the mutex holds the token, so
  the other one is outside its critical section.\<close>

lemma xclient_goes:
  assumes "shm_frame s" "xc_pc s \<noteq> XExit"
    and "xc_pc s \<in> {XWaitFull, QWaitFull} \<longrightarrow> 0 < full_sem s"
    and "xc_pc s \<in> {XWaitMutex, QWaitMutex} \<longrightarrow> 0 < mutex_sem s"
  shows "\<exists>t. xclient_step s = Inr t"
  using assms
  by (cases "xc_pc s";
      simp add: shm_frame_def xclient_step_def sem_wait_def fread_def strncpy_stored poke_def Let_def
        SHM_SIZE_pos)

lemma xserver_goes:
  assumes "shm_frame s" "shm_data f s" "xs_pc s \<noteq> VExit"
    and "xs_pc s = VWaitEmpty \<longrightarrow> 0 < empty_sem s" "xs_pc s = VWaitMutex \<longrightarrow> 0 < mutex_sem s"
  shows "\<exists>t. xserver_step s = Inr t"
  using assms compare_quit [OF assms(1,2)]
  by (cases "xs_pc s"; simp add: shm_frame_def xserver_step_def sem_wait_def peek_def SHM_SIZE_pos)

lemma shm_token_moves:
  assumes "shm_frame s" "shm_data f s" "server_token (xs_pc s)" "xs_pc s \<noteq> VExit"
  shows "\<exists>t. xserver_step s = Inr t"
proof (rule xserver_goes [OF assms(1,2,4)])
  show "xs_pc s = VWaitEmpty \<longrightarrow> 0 < empty_sem s" using assms(3) by auto
  show "xs_pc s = VWaitMutex \<longrightarrow> 0 < mutex_sem s"
    using assms(1) by (intro impI) (cases "xc_pc s"; simp add: shm_frame_def)
qed

lemma shm_idle_server_moves:
  assumes "shm_frame s" "xs_pc s = VWaitEmpty" "empty_sem s = 0"
  shows "\<exists>t. xclient_step s = Inr t"
proof (rule xclient_goes [OF assms(1)])
  show "xc_pc s \<noteq> XExit" using assms by (auto simp: shm_frame_def slot_full_def)
  show "xc_pc s \<in> {XWaitFull, QWaitFull} \<longrightarrow> 0 < full_sem s"
    using assms by (auto simp: shm_frame_def)
  show "xc_pc s \<in> {XWaitMutex, QWaitMutex} \<longrightarrow> 0 < mutex_sem s"
    using assms by (auto simp: shm_frame_def)
qed

lemma shm_progress:
  assumes "shm_inv f s" "\<not> shm_final s"
  shows "\<exists>t. shm_step s t"
proof -
  have fr: "shm_frame s" and da: "shm_data f s" using assms(1) by (simp_all add: shm_inv_def)
  have "xs_pc s \<noteq> VExit" using assms(2) fr by (auto simp: shm_final_def shm_frame_def)
  then consider "server_token (xs_pc s)" | "xs_pc s = VWaitEmpty"
    using fr by (cases "xs_pc s") (simp_all add: shm_frame_def)
  then have "(\<exists>t. xclient_step s = Inr t) \<or> (\<exists>t. xserver_step s = Inr t)"
  proof cases
    case 1
    then show ?thesis using shm_token_moves [OF fr da] \<open>xs_pc s \<noteq> VExit\<close> by blast
  next
    case 2
    then show ?thesis
      using xserver_goes [OF fr da] shm_idle_server_moves [OF fr] by (cases "empty_sem s = 0") auto
  qed
  then show ?thesis using shm_step.client shm_step.server by blast
qed

abbreviation fresh_start :: "bytes \<Rightarrow> shmem" where
  "fresh_start f \<equiv> shm_start None None None None f"

lemma shm_inv_start: "shm_ok f \<Longrightarrow> shm_inv f (fresh_start f)"
  by (simp add: shm_inv_def shm_frame_def shm_data_def shm_start_def sem_open_def slot_full_def
      uncopied_def shm_ok_def shm_output_def)

interpretation shm_run: live_inv
  "\<lambda>s. shm_ok f \<and> s = fresh_start f" shm_step "shm_inv f" shm_final shm_rank for f
  by unfold_locales (use shm_inv_start shm_step_ok shm_progress in blast)+

section \<open>The slot as a channel\<close>

text \<open>
  What the client puts into the slot, one after the other: for each chunk the content that
  the slot then has, and at the end \<open>quit\<close> over the last content.  Seen from outside the slot is
  a channel that holds one item at most.
\<close>

fun shm_sends :: "bytes \<Rightarrow> bytes list \<Rightarrow> bytes list" where
  "shm_sends m [] = [lit ''quit'' @ drop 5 m]"
| "shm_sends m (c # cs) = (let m' = stored c @ drop (length c) m in m' # shm_sends m' cs)"

definition shm_items :: "bytes \<Rightarrow> bytes list" where
  "shm_items f = shm_sends (replicate SHM_SIZE NUL) (chunks SHM_SIZE f)"

definition shm_written :: "shmem \<Rightarrow> bytes list \<Rightarrow> bool" where
  "shm_written s ms \<longleftrightarrow>
     (if xs_pc s = VExit then \<exists>ds q. ms = ds @ [q] \<and> take 5 q = lit ''quit'' \<and> xs_output s = concat ds
      else xs_output s = concat ms)"

definition slot_content :: "shmem \<Rightarrow> bytes list" where
  "slot_content s = (if slot_full s then [shm s] else [])"

definition shm_to_come :: "shmem \<Rightarrow> bytes list" where
  "shm_to_come s = (if quit_written (xc_pc s) then [] else shm_sends (shm s) (uncopied s))"

definition shm_view :: "shmem \<Rightarrow> bytes channel \<Rightarrow> bool" where
  "shm_view s c \<longleftrightarrow> travelling c = slot_content s \<and> unsent c = shm_to_come s \<and> shm_written s (arrived c)"

lemma shm_written_cong:
  "(xs_pc t = VExit) = (xs_pc s = VExit) \<Longrightarrow> xs_output t = xs_output s \<Longrightarrow> shm_written t ms = shm_written s ms"
  by (simp only: shm_written_def)

text \<open>Most steps are invisible.\<close>

lemma shm_view_same:
  assumes "shm_view s c" "xs_output t = xs_output s" "xs_pc t = VExit \<longleftrightarrow> xs_pc s = VExit" "shm t = shm s"
    and "slot_full t = slot_full s" "uncopied t = uncopied s" "quit_written (xc_pc t) = quit_written (xc_pc s)"
  shows "shm_view t c"
  using assms shm_written_cong [of t s] by (simp add: shm_view_def slot_content_def shm_to_come_def)

text \<open>The client fills the empty slot.\<close>

lemma shm_view_fill:
  assumes "shm_view s c" "\<not> slot_full s" "slot_full t" "shm_to_come s = shm t # shm_to_come t"
    and "xs_output t = xs_output s" "xs_pc t = xs_pc s"
  shows "\<exists>d. chan_step 1 c d \<and> shm_view t d"
proof (intro exI conjI)
  let ?d = "c\<lparr>unsent := shm_to_come t, travelling := travelling c @ [shm t]\<rparr>"
  show "chan_step 1 c ?d"
    by (rule chan_step.send) (use assms in \<open>simp_all add: shm_view_def slot_content_def\<close>)
  show "shm_view t ?d"
    using assms shm_written_cong [of t s] by (simp add: shm_view_def slot_content_def)
qed

text \<open>The server empties it.\<close>

lemma shm_view_drain:
  assumes "shm_view s c" "slot_full s" "\<not> slot_full t" "shm_to_come t = shm_to_come s"
    and "shm_written t (arrived c @ [shm s])"
  shows "\<exists>d. chan_step 1 c d \<and> shm_view t d"
proof (intro exI conjI)
  let ?d = "c\<lparr>travelling := [], arrived := arrived c @ [shm s]\<rparr>"
  show "chan_step 1 c ?d"
    by (rule chan_step.receive) (use assms in \<open>simp_all add: shm_view_def slot_content_def\<close>)
  show "shm_view t ?d" using assms by (simp add: shm_view_def slot_content_def)
qed

lemma shm_client_view:
  assumes fr: "shm_frame s" and step: "xclient_step s = Inr t" and view: "shm_view s c"
  shows "shm_view t c \<or> (\<exists>d. chan_step 1 c d \<and> shm_view t d)"
  using step
proof (cases rule: xclient_stepE)
  case eof
  then show ?thesis
    by (intro disjI1 shm_view_same [OF view]) (simp_all add: uncopied_def slot_full_def SHM_SIZE_pos)
next
  case (chunk xs)
  then show ?thesis using chunks_step [of SHM_SIZE "xc_input s"]
    by (intro disjI1 shm_view_same [OF view]) (simp_all add: uncopied_def slot_full_def SHM_SIZE_pos)
next
  case (full n pc)
  then show ?thesis
    by (intro disjI1 shm_view_same [OF view]; elim disjE conjE; simp add: uncopied_def slot_full_def)
next
  case (lock n pc)
  then show ?thesis
    by (intro disjI1 shm_view_same [OF view]; elim disjE conjE; simp add: uncopied_def slot_full_def)
next
  case (copy xs)
  have u: "uncopied s = take (num_of_read s) (inter_buf s) # uncopied t"
    using copy by (simp add: uncopied_def)
  have xs: "xs = stored (take (num_of_read s) (inter_buf s))"
    using copy fr by (simp add: strncpy_stored shm_frame_def SHM_SIZE_pos)
  have "length xs = length (take (num_of_read s) (inter_buf s))" by (simp add: xs)
  then have "shm_to_come s = shm t # shm_to_come t"
    using copy u xs by (simp add: shm_to_come_def Let_def)
  then show ?thesis
    using client_slot_empty [OF fr] copy by (intro disjI2 shm_view_fill [OF view]) (simp_all add: slot_full_def)
next
  case quit
  then have "uncopied s = []" using fr by (simp add: uncopied_def shm_frame_def)
  then have "shm_to_come s = shm t # shm_to_come t" using quit by (simp add: shm_to_come_def)
  then show ?thesis
    using client_slot_empty [OF fr] quit by (intro disjI2 shm_view_fill [OF view]) (simp_all add: slot_full_def)
next
  case (unlock pc)
  then show ?thesis
    by (intro disjI1 shm_view_same [OF view]; elim disjE conjE; simp add: uncopied_def slot_full_def)
next
  case (post pc)
  then show ?thesis
    by (intro disjI1 shm_view_same [OF view]; elim disjE conjE; simp add: uncopied_def slot_full_def)
qed

lemma shm_server_view:
  assumes fr: "shm_frame s" and da: "shm_data f s" and step: "xserver_step s = Inr t" and view: "shm_view s c"
  shows "shm_view t c \<or> (\<exists>d. chan_step 1 c d \<and> shm_view t d)"
  using step
proof (cases rule: xserver_stepE)
  case (compare eq)
  then have eq: "eq = quit_written (xc_pc s)" using compare_quit [OF fr da] by simp
  have full: "slot_full s" using compare by (simp add: slot_full_def)
  show ?thesis
  proof (cases eq)
    case False
    with compare show ?thesis
      by (intro disjI1 shm_view_same [OF view]) (simp_all add: uncopied_def slot_full_def)
  next
    case True
    have "take 5 (shm s) = lit ''quit''" using True eq da by (simp add: shm_data_def)
    moreover have "xs_output s = concat (arrived c)" using view compare by (simp add: shm_view_def shm_written_def)
    ultimately have "shm_written t (arrived c @ [shm s])" using compare True by (simp add: shm_written_def)
    moreover have "\<not> slot_full t" "shm_to_come t = shm_to_come s"
      using compare True eq fr quit_sent [of "xc_pc s"]
      by (auto simp: shm_frame_def slot_full_def shm_to_come_def uncopied_def)
    ultimately show ?thesis using full by (intro disjI2 shm_view_drain [OF view])
  qed
next
  case out
  have "\<not> quit_written (xc_pc s)" "slot_full s" "length (shm s) = SHM_SIZE"
    using out fr by (simp_all add: shm_frame_def slot_full_def)
  moreover have "\<not> slot_full t"
    using out fr by (cases "xc_pc s"; simp add: shm_frame_def slot_full_def)
  moreover have "shm_to_come t = shm_to_come s" using out by (simp add: shm_to_come_def uncopied_def)
  moreover have "xs_output s = concat (arrived c)" using view out by (simp add: shm_view_def shm_written_def)
  ultimately show ?thesis using out
    by (intro disjI2 shm_view_drain [OF view]) (simp_all add: shm_written_def)
next
  case empty
  then show ?thesis
    by (intro disjI1 shm_view_same [OF view]) (simp_all add: uncopied_def slot_full_def)
next
  case lock
  then show ?thesis
    by (intro disjI1 shm_view_same [OF view]) (simp_all add: uncopied_def slot_full_def)
next
  case unlock
  then show ?thesis
    by (intro disjI1 shm_view_same [OF view]) (simp_all add: uncopied_def slot_full_def)
next
  case post
  then show ?thesis
    by (intro disjI1 shm_view_same [OF view]) (simp_all add: uncopied_def slot_full_def)
qed

lemma shm_view_step:
  assumes "shm_inv f s" "shm_step s t" "shm_view s c"
  shows "shm_view t c \<or> (\<exists>d. chan_step 1 c d \<and> shm_view t d)"
proof -
  have fr: "shm_frame s" and da: "shm_data f s" using assms(1) by (simp_all add: shm_inv_def)
  from assms(2) show ?thesis
  proof (cases rule: shm_step.cases)
    case client
    then show ?thesis using shm_client_view [OF fr _ assms(3)] by blast
  next
    case server
    then show ?thesis using shm_server_view [OF fr da _ assms(3)] by blast
  next
    case (client_fault e)
    then show ?thesis using xclient_no_fault [OF fr] by blast
  next
    case (server_fault e)
    then show ?thesis using xserver_no_fault [OF fr da] by blast
  qed
qed

lemma shm_view_start: "shm_view (fresh_start f) (chan_start (shm_items f))"
  by (simp add: shm_view_def shm_written_def slot_content_def shm_to_come_def slot_full_def uncopied_def
      shm_start_def sem_open_def shm_items_def)

interpretation shm_channel: medium
  "\<lambda>s. shm_ok f \<and> s = fresh_start f" shm_step "shm_inv f" 1 "shm_items f" shm_view for f
proof unfold_locales
  show "shm_view s (chan_start (shm_items f))" if "shm_ok f \<and> s = fresh_start f" for s
    using that shm_view_start by blast
qed (rule shm_view_step)

lemma shm_final_empty: "shm_inv f s \<Longrightarrow> shm_final s \<Longrightarrow> slot_content s = [] \<and> shm_to_come s = []"
  by (simp add: shm_inv_def shm_frame_def shm_final_def slot_content_def shm_to_come_def slot_full_def)


section \<open>A second run\<close>

text \<open>After a complete run no semaphore can be taken any more.\<close>

definition spent :: "shmem \<Rightarrow> bool" where
  "spent s \<longleftrightarrow> full_sem s = 0 \<and> empty_sem s = 0 \<and> mutex_sem s = 0"

definition dead :: "shmem \<Rightarrow> bool" where
  "dead s \<longleftrightarrow> spent s \<and> xs_pc s = VWaitEmpty \<and> xc_pc s \<in> {XFread, XWaitFull, QWaitFull, XFault}"

lemma final_spent: "shm_inv f s \<Longrightarrow> shm_final s \<Longrightarrow> spent s"
  by (auto simp: shm_inv_def shm_frame_def shm_final_def spent_def)

lemma dead_start: "spent s \<Longrightarrow> dead (shm_restart s g)"
  by (simp add: dead_def spent_def shm_restart_def shm_start_def sem_open_def)

lemma dead_step:
  assumes "dead s" "shm_step s t"
  shows "dead t"
  using assms(2)
proof (cases rule: shm_step.cases)
  case client
  then show ?thesis
    using assms(1) by (cases rule: xclient_stepE) (auto simp: dead_def spent_def)
next
  case server
  then show ?thesis
    using assms(1) by (cases rule: xserver_stepE) (auto simp: dead_def spent_def)
next
  case (client_fault e)
  then show ?thesis using assms(1) by (simp add: dead_def spent_def)
next
  case (server_fault e)
  then show ?thesis using assms(1) by (simp add: dead_def spent_def xserver_step_def sem_wait_def)
qed

interpretation shm_dead: trans_inv "\<lambda>s. \<exists>r g. spent r \<and> s = shm_restart r g" shm_step dead
  by unfold_locales (use dead_start dead_step in blast)+

section \<open>Properties\<close>

text \<open>
  C9. Mutual exclusion, whatever the two counting semaphores and the memory object hold at
  the start: as long as \<open>mutex\<close> is at most one, the client is never between its
  \<open>sem_wait(mutex)\<close> and \<open>sem_post(mutex)\<close> while the server is between its own.
\<close>

theorem shm_mutual_exclusion:
  assumes "sem_open m 1 \<le> 1" "shm_step\<^sup>*\<^sup>* (shm_start a b m obj f) s"
  shows "\<not> (client_in (xc_pc s) \<and> server_in (xs_pc s))"
proof -
  have "mutex_inv s" using shm_mutex.reach_inv assms by blast
  then show ?thesis by (auto simp: mutex_inv_def)
qed

theorem shm_mutual_exclusion_witness:
  "\<not> (client_in (xc_pc (fresh_start ''abc'')) \<and> server_in (xs_pc (fresh_start ''abc'')))"
  by (rule shm_mutual_exclusion [where m = None and a = None and b = None and obj = None and f = "''abc''"])
    (simp_all add: sem_open_def)

text \<open>
  A first run, on new semaphores: no interleaving deadlocks, and when both processes
  have finished, the output is the sequence of the slot contents, \<open>shm_output\<close>: one slot of
  4096 bytes per chunk, each chunk cut at its first NUL byte.
\<close>

theorem shm_first_run:
  assumes "shm_ok f" "shm_step\<^sup>*\<^sup>* (fresh_start f) s"
  shows "(\<exists>t. shm_step\<^sup>*\<^sup>* s t \<and> shm_final t) \<and>
    (shm_final s \<longrightarrow> xs_output s = concat (shm_output f))"
proof -
  have inv: "shm_inv f s" using shm_run.reach_inv assms by blast
  then have "shm_final s \<longrightarrow> xs_output s = concat (shm_output f)"
    by (simp add: shm_inv_def shm_data_def shm_final_def)
  then show ?thesis using shm_run.finishes_from [OF inv] by blast
qed

lemma stored_text: "NUL \<notin> set c \<Longrightarrow> stored c = c"
  by (simp add: stored_def)

lemma slots_full:
  "\<forall>c \<in> set cs. NUL \<notin> set c \<and> length c = n \<Longrightarrow> length m = n \<Longrightarrow> slots m cs = cs"
  by (induction cs arbitrary: m) (auto simp: stored_text Let_def)

lemma shm_output_text:
  assumes "NUL \<notin> set f" "SHM_SIZE dvd length f"
  shows "shm_output f = chunks SHM_SIZE f" "shm_ok f"
proof -
  have c: "\<forall>c \<in> set (chunks SHM_SIZE f). NUL \<notin> set c \<and> length c = SHM_SIZE"
    using assms chunks_full_multiple [of SHM_SIZE f] set_chunks_subset [of _ SHM_SIZE f]
    by (fastforce simp: SHM_SIZE_pos)
  then show o: "shm_output f = chunks SHM_SIZE f"
    unfolding shm_output_def by (intro slots_full) simp_all
  show "shm_ok f"
    unfolding shm_ok_def o
  proof
    fix m assume "m \<in> set (chunks SHM_SIZE f)"
    with c have "NUL \<notin> set (take 5 m)" by (metis in_set_takeD)
    then show "take 5 m \<noteq> lit ''quit''" by (metis in_set_conv_decomp)
  qed
qed

text \<open>
  A file without NUL bytes whose length is a multiple of 4096 is copied exactly.
\<close>

theorem shm_exact_copy:
  assumes "NUL \<notin> set f" "SHM_SIZE dvd length f"
    and "shm_step\<^sup>*\<^sup>* (fresh_start f) s" "shm_final s"
  shows "xs_output s = f"
proof -
  have "shm_inv f s" using shm_run.reach_inv shm_output_text(2) [OF assms(1,2)] assms(3) by blast
  then have "xs_output s = concat (shm_output f)"
    using assms(4) by (simp add: shm_inv_def shm_data_def shm_final_def)
  then show ?thesis using shm_output_text(1) [OF assms(1,2)] by (simp add: SHM_SIZE_pos)
qed

lemma shm_some_final:
  assumes "shm_ok f"
  obtains s where "shm_step\<^sup>*\<^sup>* (fresh_start f) s" "shm_final s"
  using shm_run.finishes_from [OF shm_inv_start [OF assms]] by blast

theorem shm_first_run_witness:
  "\<exists>t. shm_step\<^sup>*\<^sup>* (fresh_start []) t \<and> shm_final t"
  using shm_first_run [of "[]" "fresh_start []"] by (simp add: shm_ok_def shm_output_def)

theorem shm_exact_copy_witness:
  "\<exists>s. shm_step\<^sup>*\<^sup>* (fresh_start (replicate 4096 CHR ''x'')) s \<and>
    xs_output s = replicate 4096 CHR ''x''"
proof -
  have t: "NUL \<notin> set (replicate 4096 CHR ''x'')" "SHM_SIZE dvd length (replicate 4096 CHR ''x'')"
    by (simp_all add: SHM_SIZE_pos)
  obtain s where s: "shm_step\<^sup>*\<^sup>* (fresh_start (replicate 4096 CHR ''x'')) s" "shm_final s"
    by (rule shm_some_final [OF shm_output_text(2) [OF t]])
  with shm_exact_copy [OF t] show ?thesis by blast
qed


lemma shm_ok_abc: "shm_ok ''abc''"
proof -
  have "take 5 (''abc'' @ drop 3 (replicate 4096 NUL)) = ''abc'' @ [NUL, NUL]"
    by (simp add: eval_nat_numeral)
  then show ?thesis
    by (simp add: shm_ok_def shm_output_def chunks_step [of 4096 "''abc''"] SHM_SIZE_pos stored_text Let_def)
qed


text \<open>
  A file whose first chunk begins with \<open>quit\<close> and a NUL byte: the server takes it for the end and
  leaves with the mutex, and the client waits for ever.
\<close>

lemma stored_quit: "stored (lit ''quit'' @ r) = lit ''quit'' @ replicate (length r) NUL"
  by (simp add: stored_def cstr_def)

theorem shm_quit_in_file:
  assumes "f = lit ''quit'' @ r" "length f \<le> SHM_SIZE"
  shows "\<exists>s. shm_step\<^sup>*\<^sup>* (fresh_start f) s \<and> \<not> shm_final s \<and> xs_output s = [] \<and> (\<forall>t. \<not> shm_step s t)"
proof -
  let ?s0 = "fresh_start f"
  let ?b = "f @ drop (length f) (replicate SHM_SIZE NUL)"
  let ?m = "stored f @ drop (length f) (replicate SHM_SIZE NUL)"
  let ?s1 = "?s0\<lparr>inter_buf := ?b, num_of_read := length f, xc_input := [], xc_pc := XWaitFull\<rparr>"
  let ?s2 = "?s1\<lparr>full_sem := 0, xc_pc := XWaitMutex\<rparr>"
  let ?s3 = "?s2\<lparr>mutex_sem := 0, xc_pc := XCopy\<rparr>"
  let ?s4 = "?s3\<lparr>shm := ?m, xc_pc := XPostMutex\<rparr>"
  let ?s5 = "?s4\<lparr>mutex_sem := 1, xc_pc := XPostEmpty\<rparr>"
  let ?s6 = "?s5\<lparr>empty_sem := 1, xc_pc := XFread\<rparr>"
  let ?s7 = "?s6\<lparr>num_of_read := 0, xc_pc := QWaitFull\<rparr>"
  let ?s8 = "?s7\<lparr>empty_sem := 0, xs_pc := VWaitMutex\<rparr>"
  let ?s9 = "?s8\<lparr>mutex_sem := 0, xs_pc := VCompare\<rparr>"
  let ?s10 = "?s9\<lparr>xs_pc := VExit\<rparr>"
  note d = xclient_step_def shm_start_def sem_open_def sem_wait_def
  have c1: "xclient_step ?s0 = Inr ?s1" using assms by (simp add: d fread_def poke_def)
  have c2: "xclient_step ?s1 = Inr ?s2" by (simp add: d)
  have c3: "xclient_step ?s2 = Inr ?s3" by (simp add: d)
  have "strncpy_bytes ?b (length f) = Inr (stored f)" using strncpy_stored [of "length f" ?b] by simp
  then have c4: "xclient_step ?s3 = Inr ?s4" using assms(2) by (simp add: d poke_def)
  have c5: "xclient_step ?s4 = Inr ?s5" by (simp add: d)
  have c6: "xclient_step ?s5 = Inr ?s6" by (simp add: d)
  have c7: "xclient_step ?s6 = Inr ?s7" by (simp add: d fread_def)
  have v1: "xserver_step ?s7 = Inr ?s8" by (simp add: d xserver_step_def)
  have v2: "xserver_step ?s8 = Inr ?s9" by (simp add: d xserver_step_def)
  have "strcmp_eq ?m (lit ''quit'') = Inr True" unfolding assms(1) stored_quit by simp
  then have v3: "xserver_step ?s9 = Inr ?s10" by (simp add: xserver_step_def)
  have run: "shm_step\<^sup>*\<^sup>* ?s0 ?s10"
    using c1 c2 c3 c4 c5 c6 c7 v1 v2 v3 shm_step.client shm_step.server
    by (meson converse_rtranclp_into_rtranclp rtranclp.rtrancl_refl)
  have "xclient_step ?s10 = Inl Blocked" "xserver_step ?s10 = Inl Blocked"
    by (simp_all add: d xserver_step_def)
  then have "\<not> shm_step ?s10 t" for t by (auto elim!: shm_step.cases)
  moreover have "\<not> shm_final ?s10" "xs_output ?s10 = []" by (simp_all add: shm_final_def shm_start_def)
  ultimately show ?thesis using run by blast
qed

theorem shm_quit_in_file_witness:
  "\<exists>s. shm_step\<^sup>*\<^sup>* (fresh_start (lit ''quit'')) s \<and> \<not> shm_final s \<and> (\<forall>t. \<not> shm_step s t)"
  using shm_quit_in_file [of "lit ''quit''" "[]"] by (auto simp: SHM_SIZE_pos)

lemma length_slots:
  "\<forall>c \<in> set cs. length c \<le> n \<Longrightarrow> length m = n \<Longrightarrow> x \<in> set (slots m cs) \<Longrightarrow> length x = n"
proof (induction cs arbitrary: m)
  case (Cons c cs)
  let ?m = "stored c @ drop (length c) m"
  have "length ?m = n" using Cons.prems by simp
  moreover have "x = ?m \<or> x \<in> set (slots ?m cs)" using Cons.prems(3) by (simp add: Let_def)
  ultimately show ?case using Cons.IH [of ?m] Cons.prems(1) by auto
qed simp

lemma slots_same_length: "length (slots m cs) = length cs"
  by (induction m cs rule: slots.induct) (auto simp: Let_def)

lemma length_concat_const: "\<forall>x \<in> set xs. length x = n \<Longrightarrow> length (concat xs) = n * length xs"
  by (induction xs) auto

text \<open>
  The size of the copy is always a multiple of 4096: a last chunk that is shorter
  takes the rest of its slot with it.
\<close>

theorem shm_copy_length:
  assumes "shm_ok f" "shm_step\<^sup>*\<^sup>* (fresh_start f) s" "shm_final s"
  shows "length (xs_output s) = 4096 * ((length f + 4095) div 4096)"
proof -
  have "shm_inv f s" using shm_run.reach_inv assms by blast
  then have "xs_output s = concat (shm_output f)"
    using assms(3) by (simp add: shm_inv_def shm_data_def shm_final_def)
  moreover have "\<forall>x \<in> set (shm_output f). length x = SHM_SIZE"
    using length_slots [of "chunks SHM_SIZE f" SHM_SIZE "replicate SHM_SIZE NUL"] chunks_member
    by (simp add: shm_output_def) blast
  moreover have "length (shm_output f) = (length f + 4095) div 4096"
    by (simp add: shm_output_def slots_same_length length_chunks SHM_SIZE_pos)
  ultimately show ?thesis
    using length_concat_const [of "shm_output f" 4096] by (simp add: SHM_SIZE_pos)
qed

theorem shm_copy_length_witness:
  "\<exists>s. shm_step\<^sup>*\<^sup>* (fresh_start ''abc'') s \<and> length (xs_output s) = 4096"
proof -
  obtain s where s: "shm_step\<^sup>*\<^sup>* (fresh_start ''abc'') s" "shm_final s" by (rule shm_some_final [OF shm_ok_abc])
  with shm_copy_length [OF shm_ok_abc s] show ?thesis by auto
qed

text \<open>
  C10. The server leaves its loop with the mutex locked and the token in its hands, and
  nothing removes the semaphores: after one complete run, the next run can never finish.
\<close>

theorem shm_second_run_hangs:
  assumes "shm_ok f" "shm_step\<^sup>*\<^sup>* (fresh_start f) s" "shm_final s"
    and "shm_step\<^sup>*\<^sup>* (shm_restart s g) t"
  shows "\<not> shm_final t \<and> xs_pc t = VWaitEmpty"
proof -
  have "shm_inv f s" using shm_run.reach_inv assms by blast
  then have "spent s" using assms(3) by (rule final_spent)
  then have "dead t" using shm_dead.reach_inv assms(4) by blast
  then show ?thesis by (auto simp: dead_def shm_final_def)
qed


theorem shm_second_run_hangs_witness:
  "\<exists>s t. shm_step\<^sup>*\<^sup>* (fresh_start ''abc'') s \<and> shm_final s \<and> shm_step (shm_restart s ''abc'') t \<and>
    \<not> shm_final t \<and> xs_pc t = VWaitEmpty"
proof -
  obtain s where s: "shm_step\<^sup>*\<^sup>* (fresh_start ''abc'') s" "shm_final s" by (rule shm_some_final [OF shm_ok_abc])
  let ?r = "shm_restart s ''abc''"
  have "\<exists>t. xclient_step ?r = Inr t"
    by (simp add: xclient_step_def shm_restart_def shm_start_def fread_def poke_def SHM_SIZE_pos)
  then obtain t where t: "shm_step ?r t" using shm_step.client by blast
  then have "shm_step\<^sup>*\<^sup>* ?r t" by (rule r_into_rtranclp)
  with shm_second_run_hangs [OF shm_ok_abc s] s t show ?thesis by blast
qed

end
