(* ===== verification/Signals.thy ===== *)
theory Signals
  imports Kernel "HOL-Library.Word" "HOL-Library.Sublist"
begin

unbundle bit_operations_syntax

text \<open>
  The transfer of a file through signals, \<open>task_5/tiazhelkov.ve/sig_snd.c\<close> and
  \<open>sig_rcv.c\<close>: three bytes and their number travel in the \<open>int\<close> that comes with SIGUSR1,
  SIGUSR2 ends the transfer, SIGINT carries the process number one way and is the
  acknowledgement the other way.  The codec is shown to be a round trip; the protocol is
  a step relation in which a signal that is already pending swallows the next one and a
  signal that arrives before \<open>pause\<close> does not end it.
\<close>

section \<open>Packages\<close>

text \<open>\<open>*(int* ) package\<close> and back, on a little-endian machine.\<close>

definition int_of_package :: "bytes \<Rightarrow> 32 word" where
  "int_of_package p = of_nat (horner_sum of_char 256 p)"

definition package_of_int :: "32 word \<Rightarrow> bytes" where
  "package_of_int v = map (\<lambda>i. char_of (unat v div 256 ^ i)) [0..<4]"

text \<open>\<open>memcpy(package, ..., n)\<close> and \<open>package[3] = n\<close>; the bytes between keep their values.\<close>

definition fill_package :: "bytes \<Rightarrow> bytes \<Rightarrow> bytes" where
  "fill_package package c =
     c @ drop (length c) (take 3 package) @ [char_of (length c)]"

text \<open>\<open>fwrite(VAL, (int) VAL[3], sizeof(char), output)\<close> for lengths that are not negative.\<close>

definition written :: "bytes \<Rightarrow> bytes" where
  "written v = take (of_char (v ! 3)) v"

text \<open>The packages of one buffer, by the two loops of \<open>snd_file\<close>.\<close>

function package_loop :: "bytes \<Rightarrow> nat \<Rightarrow> bytes list" where
  "package_loop buffer i =
     (if 3 < int (length buffer) - int i then take 3 (drop i buffer) # package_loop buffer (i + 3)
      else if i < length buffer then [drop i buffer]
      else [])"
  by pat_completeness auto
termination
  by (relation "measure (\<lambda>(b, i). length b - i)") auto

declare package_loop.simps [simp del]

definition BUFF :: nat where
  "BUFF = 4096"

definition file_packages :: "bytes \<Rightarrow> bytes list" where
  "file_packages f = concat (map (\<lambda>b. package_loop b 0) (chunks BUFF f))"

lemma package_loop_chunks: "package_loop buffer i = chunks 3 (drop i buffer)"
proof (induction buffer i rule: package_loop.induct)
  case (1 buffer i)
  show ?case
  proof (cases "3 < int (length buffer) - int i")
    case True
    then have "drop i buffer \<noteq> []" by auto
    with True 1 show ?thesis
      by (simp add: package_loop.simps [of buffer i] chunks_step [of 3 "drop i buffer"] add.commute)
  next
    case False
    then show ?thesis
      by (cases "i < length buffer")
        (simp_all add: package_loop.simps [of buffer i] chunks_step [of 3 "drop i buffer"])
  qed
qed

lemma char_of_nat_iff: "char_of (n :: nat) = c \<longleftrightarrow> n mod 256 = of_char c"
  by (simp add: char_of_eq_iff take_bit_eq_mod)

lemma four_digits:
  "a \<le> 255 \<Longrightarrow> b \<le> 255 \<Longrightarrow> c \<le> 255 \<Longrightarrow> d \<le> 255 \<Longrightarrow>
   a + 256 * (b + 256 * (c + 256 * d)) \<le> (4294967295 :: nat)"
  by (simp add: algebra_simps)

lemma package_int_round:
  assumes "length p = 4"
  shows "package_of_int (int_of_package p) = p"
proof -
  obtain a b c d where p: "p = [a, b, c, d]"
    using assms by (auto simp: length_Suc_conv eval_nat_numeral)
  let ?n = "of_char a + 256 * (of_char b + 256 * (of_char c + 256 * of_char d)) :: nat"
  have lt: "of_char x < (256 :: nat)" for x :: char
    by (metis char_of_nat_iff char_of_char mod_less_divisor zero_less_numeral)
  have le: "of_char x \<le> (255 :: nat)" for x :: char using lt [of x] by linarith
  have "?n \<le> 4294967295" by (intro four_digits le)
  moreover have "horner_sum of_char 256 p = ?n" by (simp add: p)
  moreover from calculation have "?n mod 2 ^ LENGTH(32) = ?n" by (intro mod_less) simp
  ultimately have n: "unat (int_of_package p) = ?n"
    by (simp only: int_of_package_def unat_of_nat)
  have low: "(of_char x + 256 * m) mod 256 = of_char x" "(of_char x + 256 * m) div 256 = m"
    for x :: char and m :: nat using lt [of x] by simp_all
  have "?n div 65536 = ?n div 256 div 256" "?n div 16777216 = ?n div 256 div 256 div 256"
    by (simp_all add: div_mult2_eq [symmetric])
  then have d: "?n mod 256 = of_char a" "?n div 256 mod 256 = of_char b"
    "?n div 65536 mod 256 = of_char c" "?n div 16777216 mod 256 = of_char d"
    using lt [of d] by (simp_all only: low mod_less)
  have "[0..<4] = [0, 1, 2, 3 :: nat]" by (simp add: upt_rec)
  then show ?thesis
    using d by (simp add: package_of_int_def n [unfolded p] p char_of_nat_iff)
qed

lemma length_fill_package: "length package = 4 \<Longrightarrow> length c \<le> 3 \<Longrightarrow> length (fill_package package c) = 4"
  by (simp add: fill_package_def)

lemma written_fill_package:
  assumes "length package = 4" "length c \<le> 3"
  shows "written (fill_package package c) = c"
proof -
  have "fill_package package c ! 3 = char_of (length c)"
    using assms by (simp add: fill_package_def nth_append)
  moreover have "of_char (char_of (length c) :: char) = length c"
    using assms(2) by simp
  ultimately have "written (fill_package package c) = take (length c) (fill_package package c)"
    unfolding written_def by (simp only:)
  then show ?thesis by (simp add: fill_package_def)
qed

interpretation package: chunk_codec 3
  "\<lambda>c. int_of_package (fill_package (replicate 4 NUL) c)" "\<lambda>v. written (package_of_int v)"
  by unfold_locales (simp_all add: package_int_round length_fill_package written_fill_package)

lemma concat_file_packages: "concat (file_packages f) = f"
proof -
  have "concat (concat (map (\<lambda>b. chunks 3 b) bs)) = concat bs" for bs :: "bytes list"
    by (induction bs) simp_all
  then show ?thesis by (simp add: file_packages_def package_loop_chunks BUFF_def)
qed

lemma file_packages_size: "c \<in> set (file_packages f) \<Longrightarrow> c \<noteq> [] \<and> length c \<le> 3"
  using chunks_member by (auto simp: file_packages_def package_loop_chunks)


section \<open>The two processes\<close>

text \<open>
  \<open>RCopy n\<close> stands between the reading of \<open>VAL[3]\<close>, which gave \<open>n\<close>, and the copy of \<open>n\<close> bytes of
  \<open>VAL\<close> in \<open>fwrite\<close>: a handler that runs there replaces the bytes but not the number.
  \<open>SCall\<close> and \<open>RCall\<close> stand before the call of \<open>pause\<close>, \<open>SPause\<close> and \<open>RPause\<close> inside it.  A
  process that is inside leaves \<open>pause\<close> when a handler has run; a handler that runs
  earlier does not count.  The \<open>bool\<close> tells the second \<open>pause\<close> of \<open>snd_file\<close> from the
  first.
\<close>

datatype snd_pc = SPid | SFread | SFor | SCall bool | SPause bool | SEnd | SDone
datatype rcv_pc = RCall | RPause | RTest | RWrite | RCopy nat | RClear | REnd | RAck | RLastAck | RDone

record sig =
  s_pc :: snd_pc
  s_input :: bytes
  s_buffer :: bytes
  s_i :: nat
  s_package :: bytes
  s_pending :: bool
  r_pc :: rcv_pc
  r_pid :: bool
  r_val :: bytes
  r_write :: bool
  r_end :: bool
  r_out :: bytes
  p_int :: bool
  p_usr1 :: "32 word option"
  p_usr2 :: bool

text \<open>\<open>sigqueue\<close> with a standard signal: while one is pending, the next one is dropped.\<close>

definition sigqueue_usr1 :: "32 word option \<Rightarrow> 32 word \<Rightarrow> 32 word option" where
  "sigqueue_usr1 pending v = (case pending of None \<Rightarrow> Some v | Some w \<Rightarrow> Some w)"

definition send_package :: "sig \<Rightarrow> bytes \<Rightarrow> bool \<Rightarrow> sig" where
  "send_package s c rest_of =
     (let package = fill_package (s_package s) c
      in s\<lparr>s_package := package, p_usr1 := sigqueue_usr1 (p_usr1 s) (int_of_package package),
           s_pc := SCall rest_of\<rparr>)"

text \<open>The sender: \<open>snd_pid\<close>, then \<open>snd_file\<close>.  Only the bytes \<open>fread\<close> delivered are kept of
  the buffer; the loops read no others.\<close>

definition sender_step :: "sig \<Rightarrow> sig option" where
  "sender_step s =
     (case s_pc s of
        SPid \<Rightarrow> Some (s\<lparr>p_int := True, s_pc := SFread\<rparr>)
      | SFread \<Rightarrow>
          (let (xs, rest) = fread BUFF (s_input s)
           in if xs = [] then Some (s\<lparr>s_pc := SEnd\<rparr>)
              else Some (s\<lparr>s_buffer := xs, s_i := 0, s_package := replicate 4 NUL,
                           s_input := rest, s_pc := SFor\<rparr>))
      | SFor \<Rightarrow>
          (if 3 < int (length (s_buffer s)) - int (s_i s)
           then Some (send_package s (take 3 (drop (s_i s) (s_buffer s))) False)
           else if s_i s < length (s_buffer s)
           then Some (send_package s (drop (s_i s) (s_buffer s)) True)
           else Some (s\<lparr>s_pc := SFread\<rparr>))
      | SCall rest_of \<Rightarrow> Some (s\<lparr>s_pc := SPause rest_of\<rparr>)
      | SEnd \<Rightarrow> Some (s\<lparr>p_usr2 := True, s_pc := SDone\<rparr>)
      | _ \<Rightarrow> None)"

text \<open>The sender's handler does nothing, but it ends a \<open>pause\<close>.\<close>

definition sender_signal :: "sig \<Rightarrow> sig option" where
  "sender_signal s =
     (if \<not> s_pending s then None
      else let s' = s\<lparr>s_pending := False\<rparr>
           in Some (case s_pc s of
                SPause False \<Rightarrow> s'\<lparr>s_i := s_i s + 3, s_pc := SFor\<rparr>
              | SPause True \<Rightarrow> s'\<lparr>s_pc := SFread\<rparr>
              | _ \<Rightarrow> s'))"

text \<open>\<open>kill(SND_PID, SIGINT)\<close>: process 0 is the receiver's own group.\<close>

definition ack :: "sig \<Rightarrow> sig" where
  "ack s = (if r_pid s then s\<lparr>s_pending := True\<rparr> else s\<lparr>p_int := True\<rparr>)"

text \<open>The loop of \<open>rcv_file\<close>.\<close>

definition receiver_step :: "sig \<Rightarrow> sig option" where
  "receiver_step s =
     (case r_pc s of
        RCall \<Rightarrow> Some (s\<lparr>r_pc := RPause\<rparr>)
      | RTest \<Rightarrow> Some (s\<lparr>r_pc := if r_write s then RWrite else REnd\<rparr>)
      | RWrite \<Rightarrow> Some (s\<lparr>r_pc := RCopy (of_char (r_val s ! 3))\<rparr>)
      | RCopy n \<Rightarrow> Some (s\<lparr>r_out := r_out s @ take n (r_val s), r_pc := RClear\<rparr>)
      | RClear \<Rightarrow> Some (s\<lparr>r_write := False, r_pc := REnd\<rparr>)
      | REnd \<Rightarrow> Some (s\<lparr>r_pc := if r_end s then RLastAck else RAck\<rparr>)
      | RAck \<Rightarrow> Some ((ack s)\<lparr>r_pc := RCall\<rparr>)
      | RLastAck \<Rightarrow> Some ((ack s)\<lparr>r_pc := RDone\<rparr>)
      | _ \<Rightarrow> None)"

text \<open>
  The receiver's handlers.  Pending signals are delivered lowest number first (SIGINT,
  SIGUSR1, SIGUSR2), at any time until the process has ended.
\<close>

definition wake :: "sig \<Rightarrow> sig" where
  "wake s = (if r_pc s = RPause then s\<lparr>r_pc := RTest\<rparr> else s)"

definition receiver_signal :: "sig \<Rightarrow> sig option" where
  "receiver_signal s =
     (if r_pc s = RDone then None
      else if p_int s then Some (wake (s\<lparr>p_int := False, r_pid := True\<rparr>))
      else case p_usr1 s of
        Some v \<Rightarrow> Some (wake (s\<lparr>p_usr1 := None, r_val := package_of_int v, r_write := True\<rparr>))
      | None \<Rightarrow>
          if p_usr2 s then Some (wake (s\<lparr>p_usr2 := False, r_end := True\<rparr>)) else None)"

datatype act = Send | SendSignal | Receive | ReceiveSignal

fun sig_act :: "act \<Rightarrow> sig \<Rightarrow> sig option" where
  "sig_act Send s = sender_step s"
| "sig_act SendSignal s = sender_signal s"
| "sig_act Receive s = receiver_step s"
| "sig_act ReceiveSignal s = receiver_signal s"

inductive sig_step :: "sig \<Rightarrow> sig \<Rightarrow> bool" where
  "sig_act a s = Some t \<Longrightarrow> sig_step s t"

inductive_simps sig_step_iff: "sig_step s t"

text \<open>
  A step that stores no other package while the receiver stands between the number and the
  bytes.
\<close>

fun copying :: "rcv_pc \<Rightarrow> bool" where
  "copying (RCopy n) \<longleftrightarrow> True"
| "copying _ \<longleftrightarrow> False"

definition calm_step :: "sig \<Rightarrow> sig \<Rightarrow> bool" where
  "calm_step s t \<longleftrightarrow> sig_step s t \<and> (copying (r_pc s) \<longrightarrow> r_val t = r_val s)"

definition sig_start :: "bytes \<Rightarrow> sig" where
  "sig_start f =
     \<lparr>s_pc = SPid, s_input = f, s_buffer = [], s_i = 0, s_package = replicate 4 NUL,
      s_pending = False, r_pc = RCall, r_pid = False, r_val = replicate 4 NUL, r_write = False,
      r_end = False, r_out = [], p_int = False, p_usr1 = None, p_usr2 = False\<rparr>"

definition sig_final :: "sig \<Rightarrow> bool" where
  "sig_final s \<longleftrightarrow> s_pc s = SDone \<and> r_pc s = RDone"

text \<open>A schedule, and the state it leads to.\<close>

fun sig_run :: "act list \<Rightarrow> sig \<Rightarrow> sig option" where
  "sig_run [] s = Some s"
| "sig_run (a # as) s = (case sig_act a s of None \<Rightarrow> None | Some t \<Rightarrow> sig_run as t)"

lemma sig_run_steps: "sig_run as s = Some t \<Longrightarrow> sig_step\<^sup>*\<^sup>* s t"
proof (induction as arbitrary: s)
  case (Cons a as)
  then obtain u where "sig_act a s = Some u" "sig_run as u = Some t"
    by (auto split: option.splits)
  with Cons.IH show ?case by (meson converse_rtranclp_into_rtranclp sig_step.intros)
qed simp

lemmas sig_defs = sender_step_def sender_signal_def receiver_step_def receiver_signal_def
  send_package_def sigqueue_usr1_def ack_def wake_def

section \<open>Nothing is invented, doubled or reordered\<close>

text \<open>
  The packages the sender has not queued yet, and the one that is on its way: pending, or
  in \<open>VAL\<close> and not written.
\<close>

definition unsent :: "sig \<Rightarrow> bytes list" where
  "unsent s =
     (case s_pc s of
        SFor \<Rightarrow> package_loop (s_buffer s) (s_i s)
      | SCall False \<Rightarrow> package_loop (s_buffer s) (s_i s + 3)
      | SPause False \<Rightarrow> package_loop (s_buffer s) (s_i s + 3)
      | _ \<Rightarrow> []) @ file_packages (s_input s)"

definition pending_package :: "sig \<Rightarrow> bytes list" where
  "pending_package s = (case p_usr1 s of None \<Rightarrow> [] | Some v \<Rightarrow> [written (package_of_int v)])"

text \<open>
  \<open>calm\<close> is set for the runs by \<open>calm_step\<close>: there the bytes at \<open>fwrite\<close> are those of the package
  that gave their number; in other runs only the number is.
\<close>

definition held_ok :: "bool \<Rightarrow> sig \<Rightarrow> bytes list \<Rightarrow> bool" where
  "held_ok calm s held \<longleftrightarrow>
     (case r_pc s of
        RCopy n \<Rightarrow> (\<exists>c. held = [c] \<and> length c = n \<and> (calm \<longrightarrow> c = written (r_val s)))
      | RClear \<Rightarrow> held = []
      | _ \<Rightarrow> held = (if r_write s then [written (r_val s)] else []))"

text \<open>\<open>bs\<close> is what the calls of \<open>fwrite\<close> wrote, \<open>ps\<close> the packages that gave their numbers.\<close>

definition blocks_ok :: "bool \<Rightarrow> bytes list \<Rightarrow> bytes list \<Rightarrow> bool" where
  "blocks_ok calm bs ps \<longleftrightarrow> map length bs = map length ps \<and> (calm \<longrightarrow> bs = ps)"

definition sig_inv :: "bool \<Rightarrow> bytes \<Rightarrow> sig \<Rightarrow> bool" where
  "sig_inv calm f s \<longleftrightarrow>
     length (s_package s) = 4 \<and> length (r_val s) = 4 \<and>
     (\<exists>bs ps held. r_out s = concat bs \<and> blocks_ok calm bs ps \<and> held_ok calm s held \<and>
        subseq (ps @ held @ pending_package s @ unsent s) (file_packages f))"

lemma file_packages_step:
  "f \<noteq> [] \<Longrightarrow> file_packages f = package_loop (take BUFF f) 0 @ file_packages (drop BUFF f)"
  using chunks_step [of BUFF f] by (simp add: file_packages_def BUFF_def)


lemma sig_inv_drop:
  assumes "sig_inv calm f s" "length (s_package t) = 4" "length (r_val t) = 4" "r_out t = r_out s"
    and "\<And>held. held_ok calm s held \<Longrightarrow> \<exists>held'. held_ok calm t held' \<and>
      subseq (held' @ pending_package t @ unsent t) (held @ pending_package s @ unsent s)"
  shows "sig_inv calm f t"
proof -
  obtain bs ps held where s: "r_out s = concat bs" "blocks_ok calm bs ps" "held_ok calm s held"
    "subseq (ps @ held @ pending_package s @ unsent s) (file_packages f)"
    using assms(1) by (auto simp: sig_inv_def)
  obtain held' where t: "held_ok calm t held'"
    "subseq (held' @ pending_package t @ unsent t) (held @ pending_package s @ unsent s)"
    using assms(5) [OF s(3)] by blast
  then have "subseq (ps @ held' @ pending_package t @ unsent t) (file_packages f)"
    using s(4) by (meson subseq_append' subseq_order.order_trans)
  with s(1,2) t(1) assms(2-4) show ?thesis unfolding sig_inv_def by metis
qed

text \<open>The steps of the sender do not touch the receiver.\<close>

lemma sig_inv_same:
  assumes "sig_inv calm f s" "length (s_package t) = 4" "r_out t = r_out s" "r_val t = r_val s"
    and "r_pc t = r_pc s" "r_write t = r_write s"
    and "subseq (pending_package t @ unsent t) (pending_package s @ unsent s)"
  shows "sig_inv calm f t"
proof (rule sig_inv_drop [OF assms(1,2)])
  show "length (r_val t) = 4" using assms(1,4) by (simp add: sig_inv_def)
  show "r_out t = r_out s" by (rule assms)
  fix held assume "held_ok calm s held"
  then have "held_ok calm t held" unfolding held_ok_def assms(4-6) .
  then show "\<exists>held'. held_ok calm t held' \<and>
      subseq (held' @ pending_package t @ unsent t) (held @ pending_package s @ unsent s)"
    using assms(7) by (metis subseq_append')
qed

lemma package_loop_full:
  "3 < int (length b) - int i \<Longrightarrow> package_loop b i = take 3 (drop i b) # package_loop b (i + 3)"
  by (simp add: package_loop.simps [of b i])

lemma package_loop_last:
  "\<not> 3 < int (length b) - int i \<Longrightarrow> i < length b \<Longrightarrow> package_loop b i = [drop i b]"
  by (simp add: package_loop.simps [of b i])

lemma package_loop_done: "\<not> i < length b \<Longrightarrow> package_loop b i = []"
  by (simp add: package_loop.simps [of b i])

text \<open>Queueing a package moves it from the unsent ones to the pending one, or loses it.\<close>

lemma send_package_pending:
  assumes "length (s_package s) = 4" "length c \<le> 3"
  shows "subseq (pending_package (send_package s c e)) (pending_package s @ [c])"
    and "length (s_package (send_package s c e)) = 4"
  using assms
  by (auto simp: send_package_def sigqueue_usr1_def pending_package_def Let_def
      length_fill_package package_int_round written_fill_package split: option.splits)

lemma sig_inv_send:
  assumes "sig_inv calm f s" "length c \<le> 3" "unsent s = c # unsent (send_package s c e)"
  shows "sig_inv calm f (send_package s c e)"
proof (rule sig_inv_same [OF assms(1)])
  have l: "length (s_package s) = 4" using assms(1) by (simp add: sig_inv_def)
  note sp = send_package_pending [OF l assms(2), of e]
  show "length (s_package (send_package s c e)) = 4" by (rule sp)
  have "subseq (pending_package (send_package s c e) @ unsent (send_package s c e))
      ((pending_package s @ [c]) @ unsent (send_package s c e))"
    by (rule list_emb_append_mono [OF sp(1)]) simp
  then show "subseq (pending_package (send_package s c e) @ unsent (send_package s c e))
      (pending_package s @ unsent s)" by (simp add: assms(3))
qed (simp_all add: send_package_def Let_def)

lemma sig_inv_sender:
  assumes "sig_inv calm f s" "sender_step s = Some t"
  shows "sig_inv calm f t"
proof -
  have same: "sig_inv calm f u" if "unsent u = unsent s" "length (s_package u) = 4" "r_out u = r_out s"
    "r_val u = r_val s" "r_pc u = r_pc s" "r_write u = r_write s" "pending_package u = pending_package s" for u
    using sig_inv_same [OF assms(1), of u] that by simp
  have l: "length (s_package s) = 4" using assms(1) by (simp add: sig_inv_def)
  show ?thesis
  proof (cases "s_pc s")
    case SFor
    let ?b = "s_buffer s" and ?i = "s_i s"
    consider "3 < int (length ?b) - int ?i" | "\<not> 3 < int (length ?b) - int ?i" "?i < length ?b"
      | "\<not> ?i < length ?b" by blast
    then show ?thesis
    proof cases
      case 1
      then have "t = send_package s (take 3 (drop ?i ?b)) False"
        using SFor assms(2) by (simp add: sender_step_def)
      moreover have "unsent s = take 3 (drop ?i ?b) # unsent (send_package s (take 3 (drop ?i ?b)) False)"
        using 1 SFor by (simp add: unsent_def package_loop_full send_package_def Let_def)
      ultimately show ?thesis using sig_inv_send [OF assms(1)] by simp
    next
      case 2
      then have "t = send_package s (drop ?i ?b) True"
        using SFor assms(2) by (simp add: sender_step_def)
      moreover have "unsent s = drop ?i ?b # unsent (send_package s (drop ?i ?b) True)"
        using 2 SFor by (simp add: unsent_def package_loop_last send_package_def Let_def)
      ultimately show ?thesis using sig_inv_send [OF assms(1)] 2 by simp
    next
      case 3
      then have "t = s\<lparr>s_pc := SFread\<rparr>" using SFor assms(2) by (simp add: sender_step_def)
      with 3 SFor l show ?thesis
        by (intro same) (simp_all add: unsent_def package_loop_done pending_package_def)
    qed
  next
    case SFread
    show ?thesis
    proof (cases "s_input s = []")
      case True
      with SFread assms(2) l show ?thesis
        by (intro same) (auto simp: sender_step_def fread_def unsent_def pending_package_def)
    next
      case False
      with SFread assms(2) have "t = s\<lparr>s_buffer := take BUFF (s_input s), s_i := 0,
          s_package := replicate 4 NUL, s_input := drop BUFF (s_input s), s_pc := SFor\<rparr>"
        by (simp add: sender_step_def fread_def BUFF_def)
      with False SFread show ?thesis
        by (intro same) (simp_all add: unsent_def file_packages_step pending_package_def)
    qed
  qed (use assms(2) l in \<open>auto intro!: same simp: sender_step_def unsent_def
        pending_package_def split: bool.splits\<close>)
qed

text \<open>The three effects of a signal at the sender.\<close>

lemma sender_signal_cases:
  assumes "sender_signal s = Some t"
  obtains "s_pc s = SPause False" "t = s\<lparr>s_pending := False, s_i := s_i s + 3, s_pc := SFor\<rparr>"
  | "s_pc s = SPause True" "t = s\<lparr>s_pending := False, s_pc := SFread\<rparr>"
  | "\<forall>e. s_pc s \<noteq> SPause e" "t = s\<lparr>s_pending := False\<rparr>"
proof (cases "s_pc s")
  case (SPause e)
  with assms that(1,2) show ?thesis by (cases e) (simp_all add: sender_signal_def split: if_splits)
qed (use assms that(3) in \<open>simp_all add: sender_signal_def split: if_splits\<close>)

lemma sig_inv_sender_signal:
  assumes "sig_inv calm f s" "sender_signal s = Some t"
  shows "sig_inv calm f t"
proof -
  have l: "length (s_package s) = 4" using assms(1) by (simp add: sig_inv_def)
  have *: "sig_inv calm f t" if "unsent t = unsent s" "length (s_package t) = 4" "r_out t = r_out s"
    "r_val t = r_val s" "r_pc t = r_pc s" "r_write t = r_write s" "pending_package t = pending_package s"
    using sig_inv_same [OF assms(1), of t] that by simp
  show ?thesis
    using assms(2)
  proof (cases rule: sender_signal_cases)
    case 3
    have "unsent t = unsent s"
      unfolding 3 unsent_def by (simp split: snd_pc.split bool.split)
    then show ?thesis by (intro *) (simp_all add: 3 l pending_package_def)
  qed (intro *; simp add: l unsent_def pending_package_def)+
qed

lemma unsent_receiver [simp]:
  "unsent (s\<lparr>r_pc := pc\<rparr>) = unsent s"
  "unsent (s\<lparr>r_out := xs\<rparr>) = unsent s"
  "unsent (s\<lparr>r_write := b\<rparr>) = unsent s"
  "unsent (s\<lparr>r_val := v\<rparr>) = unsent s"
  "unsent (s\<lparr>r_pid := b\<rparr>) = unsent s"
  "unsent (s\<lparr>r_end := b\<rparr>) = unsent s"
  "unsent (s\<lparr>s_pending := b\<rparr>) = unsent s"
  "unsent (s\<lparr>p_int := b\<rparr>) = unsent s"
  "unsent (s\<lparr>p_usr1 := u\<rparr>) = unsent s"
  "unsent (s\<lparr>p_usr2 := b\<rparr>) = unsent s"
  by (simp_all add: unsent_def split: snd_pc.split bool.split)

text \<open>The receiver is at \<open>fwrite\<close> only when \<open>WRITE\<close> is set, and only it clears it.\<close>

definition rcv_ok :: "sig \<Rightarrow> bool" where
  "rcv_ok s \<longleftrightarrow> (r_pc s \<in> {RWrite, RClear} \<or> copying (r_pc s) \<longrightarrow> r_write s)"

lemma sender_keeps:
  assumes "sender_step s = Some t"
  shows "r_pc t = r_pc s \<and> r_write t = r_write s"
proof (cases "s_pc s")
  case SFread
  with assms show ?thesis by (auto simp: sender_step_def fread_def split: if_splits)
next
  case SFor
  with assms show ?thesis by (auto simp: sender_step_def send_package_def Let_def split: if_splits)
qed (use assms in \<open>auto simp: sender_step_def\<close>)

lemma rcv_ok_act:
  assumes "rcv_ok s" "sig_act a s = Some t"
  shows "rcv_ok t"
proof (cases a)
  case Send
  with assms sender_keeps [of s t] show ?thesis by (simp add: rcv_ok_def)
next
  case SendSignal
  with assms(2) have "sender_signal s = Some t" by simp
  then show ?thesis using assms(1) by (cases rule: sender_signal_cases) (simp_all add: rcv_ok_def)
next
  case Receive
  with assms show ?thesis
    by (cases "r_pc s") (auto simp: receiver_step_def ack_def rcv_ok_def split: if_splits)
next
  case ReceiveSignal
  with assms show ?thesis
    by (auto simp: receiver_signal_def wake_def rcv_ok_def split: if_splits option.splits)
qed

text \<open>The number of bytes of a package in \<open>VAL\<close>.\<close>

lemma written_number:
  assumes "length v = 4" "length (written v) \<le> 3"
  shows "of_char (v ! 3) = length (written v)"
  using assms by (auto simp: written_def min_def split: if_splits)

lemma held_package_size:
  assumes "subseq (ps @ [c] @ xs) (file_packages f)"
  shows "length c \<le> 3"
proof -
  have "c \<in> set (file_packages f)"
    using assms list_emb_set [of "(=)" "ps @ [c] @ xs" "file_packages f" c] by auto
  then show ?thesis using file_packages_size by blast
qed

text \<open>The two steps of \<open>fwrite\<close>: the number, then the bytes.\<close>

lemma sig_inv_number:
  assumes "sig_inv calm f s" "rcv_ok s" "r_pc s = RWrite"
  shows "sig_inv calm f (s\<lparr>r_pc := RCopy (of_char (r_val s ! 3))\<rparr>)"
proof -
  obtain bs ps held where inv: "r_out s = concat bs" "blocks_ok calm bs ps" "held_ok calm s held"
    "subseq (ps @ held @ pending_package s @ unsent s) (file_packages f)"
    and len: "length (s_package s) = 4" "length (r_val s) = 4"
    using assms(1) by (auto simp: sig_inv_def)
  have "r_write s" using assms(2,3) by (simp add: rcv_ok_def)
  then have held: "held = [written (r_val s)]" using inv(3) assms(3) by (simp add: held_ok_def)
  then have "length (written (r_val s)) \<le> 3" using inv(4) held_package_size by fastforce
  then have "held_ok calm (s\<lparr>r_pc := RCopy (of_char (r_val s ! 3))\<rparr>) held"
    using held len by (simp add: held_ok_def written_number)
  with inv len show ?thesis by (force simp: sig_inv_def pending_package_def)
qed

lemma sig_inv_copy:
  assumes "sig_inv calm f s" "r_pc s = RCopy n"
  shows "sig_inv calm f (s\<lparr>r_out := r_out s @ take n (r_val s), r_pc := RClear\<rparr>)"
proof -
  let ?t = "s\<lparr>r_out := r_out s @ take n (r_val s), r_pc := RClear\<rparr>"
  obtain bs ps held where inv: "r_out s = concat bs" "blocks_ok calm bs ps" "held_ok calm s held"
    "subseq (ps @ held @ pending_package s @ unsent s) (file_packages f)"
    and len: "length (s_package s) = 4" "length (r_val s) = 4"
    using assms(1) by (auto simp: sig_inv_def)
  obtain c where c: "held = [c]" "length c = n" "calm \<Longrightarrow> c = written (r_val s)"
    using inv(3) assms(2) by (auto simp: held_ok_def)
  then have "n \<le> 3" using inv(4) held_package_size by fastforce
  moreover have "calm \<Longrightarrow> c = take n (r_val s)"
    using c(2,3) by (auto simp: written_def min_def take_all_iff)
  ultimately have "blocks_ok calm (bs @ [take n (r_val s)]) (ps @ [c])"
    using inv(2) c(2) len by (simp add: blocks_ok_def)
  moreover have "subseq ((ps @ [c]) @ [] @ pending_package ?t @ unsent ?t) (file_packages f)"
    using inv(4) c(1) by (simp add: pending_package_def)
  moreover have "held_ok calm ?t []" "r_out ?t = concat (bs @ [take n (r_val s)])"
    using inv(1) by (simp_all add: held_ok_def)
  moreover have "length (s_package ?t) = 4" "length (r_val ?t) = 4" using len by simp_all
  ultimately show ?thesis unfolding sig_inv_def by blast
qed

lemma sig_inv_receiver:
  assumes "sig_inv calm f s" "rcv_ok s" "receiver_step s = Some t"
  shows "sig_inv calm f t"
proof (cases "r_pc s = RWrite \<or> copying (r_pc s)")
  case True
  then show ?thesis
    using assms(3) sig_inv_number [OF assms(1,2)] sig_inv_copy [OF assms(1)]
    by (cases "r_pc s") (auto simp: receiver_step_def)
next
  case False
  show ?thesis
  proof (rule sig_inv_drop [OF assms(1)])
    show "length (s_package t) = 4" "length (r_val t) = 4" "r_out t = r_out s"
      using assms(1,3) False
      by (auto simp: receiver_step_def ack_def sig_inv_def split: rcv_pc.splits if_splits)
    have "unsent t = unsent s" "pending_package t = pending_package s"
      using assms(3) False
      by (auto simp: receiver_step_def ack_def pending_package_def split: rcv_pc.splits if_splits)
    moreover fix held assume "held_ok calm s held"
    then have "held_ok calm t held"
      using assms(3) False
      by (auto simp: receiver_step_def ack_def held_ok_def split: rcv_pc.splits if_splits)
    ultimately show "\<exists>held'. held_ok calm t held' \<and>
        subseq (held' @ pending_package t @ unsent t) (held @ pending_package s @ unsent s)"
      by (intro exI [of _ held]) simp
  qed
qed

lemma wake_simps [simp]:
  "s_package (wake s) = s_package s" "r_out (wake s) = r_out s" "unsent (wake s) = unsent s"
  "r_val (wake s) = r_val s" "held_ok calm (wake s) held = held_ok calm s held"
  "pending_package (wake s) = pending_package s"
  by (simp_all add: wake_def held_ok_def pending_package_def)

lemma held_ok_flags [simp]:
  "held_ok calm (s\<lparr>p_int := x, r_pid := y\<rparr>) held = held_ok calm s held"
  "held_ok calm (s\<lparr>p_usr2 := x, r_end := y\<rparr>) held = held_ok calm s held"
  by (simp_all add: held_ok_def split: rcv_pc.split)

text \<open>A package that is stored takes the place of the one that is held.\<close>

lemma held_ok_stored:
  assumes "held_ok calm s held" "copying (r_pc s) \<Longrightarrow> calm \<Longrightarrow> v = r_val s"
  shows "\<exists>held'. held_ok calm (s\<lparr>p_usr1 := None, r_val := v, r_write := True\<rparr>) held' \<and>
    subseq held' (held @ [written v])"
proof (cases "r_pc s")
  case (RCopy n)
  then show ?thesis using assms by (intro exI [of _ held]) (auto simp: held_ok_def)
qed (use assms(1) in \<open>auto simp: held_ok_def\<close>)

lemma sig_inv_receiver_signal:
  assumes "sig_inv calm f s" "receiver_signal s = Some t"
    and calm: "calm \<Longrightarrow> copying (r_pc s) \<Longrightarrow> r_val t = r_val s"
  shows "sig_inv calm f t"
proof -
  have l: "length (s_package s) = 4" "length (r_val s) = 4" using assms(1) by (simp_all add: sig_inv_def)
  have *: "sig_inv calm f (wake u)" if "length (s_package u) = 4" "length (r_val u) = 4" "r_out u = r_out s"
    "unsent u = unsent s"
    "\<And>held. held_ok calm s held \<Longrightarrow> \<exists>held'. held_ok calm u held' \<and>
       subseq (held' @ pending_package u) (held @ pending_package s)" for u
  proof (rule sig_inv_drop [OF assms(1)])
    note prem = that
    fix held assume "held_ok calm s held"
    then obtain held' where h: "held_ok calm u held'"
      "subseq (held' @ pending_package u) (held @ pending_package s)" using prem(5) by blast
    show "\<exists>held'. held_ok calm (wake u) held' \<and> subseq (held' @ pending_package (wake u) @ unsent (wake u))
        (held @ pending_package s @ unsent s)"
      using list_emb_append_mono [OF h(2), of "unsent u" "unsent s"] h(1) prem(4)
      by (intro exI [of _ held']) simp
  qed (use that in simp_all)
  have "r_pc s \<noteq> RDone" using assms(2) by (auto simp: receiver_signal_def)
  then consider (int) "t = wake (s\<lparr>p_int := False, r_pid := True\<rparr>)"
    | (usr1) v where "p_usr1 s = Some v"
        "t = wake (s\<lparr>p_usr1 := None, r_val := package_of_int v, r_write := True\<rparr>)"
    | (usr2) "t = wake (s\<lparr>p_usr2 := False, r_end := True\<rparr>)"
    using assms(2) by (auto simp: receiver_signal_def split: if_splits option.splits)
  then show ?thesis
  proof cases
    case int
    show ?thesis unfolding int
      by (rule *) (auto simp: l pending_package_def)
  next
    case usr1
    let ?v = "package_of_int v"
    show ?thesis
      unfolding usr1(2)
    proof (rule *)
      fix held assume "held_ok calm s held"
      moreover have "copying (r_pc s) \<Longrightarrow> calm \<Longrightarrow> ?v = r_val s" using calm usr1(2) by simp
      ultimately show "\<exists>held'. held_ok calm (s\<lparr>p_usr1 := None, r_val := ?v, r_write := True\<rparr>) held' \<and>
          subseq (held' @ pending_package (s\<lparr>p_usr1 := None, r_val := ?v, r_write := True\<rparr>))
            (held @ pending_package s)"
        using held_ok_stored usr1(1) by (simp add: pending_package_def)
    qed (simp_all add: l package_of_int_def)
  next
    case usr2
    show ?thesis unfolding usr2
      by (rule *) (auto simp: l pending_package_def)
  qed
qed

lemma sig_inv_act:
  assumes "sig_inv calm f s" "rcv_ok s" "sig_act a s = Some t"
    and "calm \<Longrightarrow> copying (r_pc s) \<Longrightarrow> r_val t = r_val s"
  shows "sig_inv calm f t"
proof (cases a)
  case Send
  with assms show ?thesis by (intro sig_inv_sender [OF assms(1)]) simp
next
  case SendSignal
  with assms show ?thesis by (intro sig_inv_sender_signal [OF assms(1)]) simp
next
  case Receive
  with assms show ?thesis by (intro sig_inv_receiver [OF assms(1,2)]) simp
next
  case ReceiveSignal
  with assms show ?thesis by (intro sig_inv_receiver_signal [OF assms(1)]) simp_all
qed

lemma sig_inv_start: "sig_inv calm f (sig_start f)"
  by (simp add: sig_inv_def sig_start_def held_ok_def blocks_ok_def pending_package_def unsent_def
      exI [of _ "[]"])

lemma rcv_ok_start: "rcv_ok (sig_start f)"
  by (simp add: rcv_ok_def sig_start_def)

interpretation sig_safe: trans_inv
  "\<lambda>s. s = sig_start f" sig_step "\<lambda>s. sig_inv False f s \<and> rcv_ok s" for f
  by unfold_locales
    (auto simp: sig_inv_start rcv_ok_start sig_step_iff intro: sig_inv_act rcv_ok_act)

interpretation sig_calm: trans_inv
  "\<lambda>s. s = sig_start f" calm_step "\<lambda>s. sig_inv True f s \<and> rcv_ok s" for f
  by unfold_locales
    (auto simp: sig_inv_start rcv_ok_start calm_step_def sig_step_iff intro: sig_inv_act rcv_ok_act)

section \<open>Good and bad schedules\<close>

text \<open>Both processes in \<open>pause\<close> or before the next package, nothing on its way.\<close>

definition in_step :: "sig \<Rightarrow> bool" where
  "in_step s \<longleftrightarrow>
     length (s_package s) = 4 \<and> s_pc s \<in> {SFor, SFread} \<and> \<not> s_pending s \<and> r_pc s = RPause \<and>
     r_pid s \<and> \<not> r_write s \<and> \<not> r_end s \<and> \<not> p_int s \<and> p_usr1 s = None \<and> \<not> p_usr2 s"

definition one_package :: "act list" where
  "one_package = [Send, Send, ReceiveSignal, Receive, Receive, Receive, Receive, Receive, Receive, Receive, SendSignal]"


definition start_up :: "act list" where
  "start_up = [Receive, Send, ReceiveSignal, Receive, Receive, Receive, Receive, SendSignal]"

definition wind_up :: "act list" where
  "wind_up = [Send, Send, ReceiveSignal, Receive, Receive, Receive]"

lemmas run_simps = sig_defs Let_def in_step_def length_fill_package package_int_round
  written_fill_package written_fill_package [unfolded written_def]

lemma start_up_run:
  "\<exists>t. sig_run start_up (sig_start f) = Some t \<and> in_step t \<and> r_out t = [] \<and> unsent t = file_packages f"
  by (simp add: start_up_def sig_start_def run_simps unsent_def)

lemma wind_up_run:
  "in_step s \<Longrightarrow> s_pc s = SFread \<Longrightarrow> s_input s = [] \<Longrightarrow>
   \<exists>t. sig_run wind_up s = Some t \<and> sig_final t \<and> r_out t = r_out s"
  by (simp add: wind_up_def run_simps fread_def sig_final_def)

lemma one_package_run:
  assumes "in_step s" "s_pc s = SFor" "package_loop (s_buffer s) (s_i s) = c # cs"
  shows "\<exists>t. sig_run one_package s = Some t \<and> in_step t \<and> r_out t = r_out s @ c \<and>
    unsent t = cs @ file_packages (s_input s)"
proof -
  have c: "length c \<le> 3"
    using assms(3) chunks_member [of c 3 "drop (s_i s) (s_buffer s)"]
    by (simp add: package_loop_chunks)
  show ?thesis
  proof (cases "3 < int (length (s_buffer s)) - int (s_i s)")
    case True
    then show ?thesis
      using assms c by (simp add: one_package_def run_simps package_loop_full unsent_def)
  next
    case False
    moreover have "s_i s < length (s_buffer s)"
      using assms(3) package_loop_done by fastforce
    ultimately show ?thesis
      using assms c by (simp add: one_package_def run_simps package_loop_last unsent_def)
  qed
qed

definition schedule_rank :: "sig \<Rightarrow> nat" where
  "schedule_rank s = 3 * length (unsent s) +
     (if s_pc s = SFor then if package_loop (s_buffer s) (s_i s) = [] then 2 else 0 else 1)"

lemma good_schedule:
  "in_step s \<Longrightarrow> \<exists>t. sig_step\<^sup>*\<^sup>* s t \<and> sig_final t \<and> r_out t = r_out s @ concat (unsent s)"
proof (induction "schedule_rank s" arbitrary: s rule: less_induct)
  case less
  have go: ?case if "sig_step\<^sup>*\<^sup>* s u" "in_step u" "schedule_rank u < schedule_rank s"
    "r_out u @ concat (unsent u) = r_out s @ concat (unsent s)" for u
    using less.hyps [OF that(3,2)] that(1,4) by (metis rtranclp_trans)
  show ?case
  proof (cases "s_pc s = SFread")
    case True
    show ?thesis
    proof (cases "s_input s = []")
      case empty: True
      then have "unsent s = []" using True by (simp add: unsent_def file_packages_def)
      with wind_up_run [OF less.prems True empty] sig_run_steps show ?thesis by fastforce
    next
      case False
      let ?u = "s\<lparr>s_buffer := take BUFF (s_input s), s_i := 0, s_package := replicate 4 NUL,
          s_input := drop BUFF (s_input s), s_pc := SFor\<rparr>"
      have u: "unsent ?u = unsent s" using True False by (simp add: unsent_def file_packages_step)
      have "sig_run [Send] s = Some ?u"
        using True False by (simp add: sender_step_def fread_def BUFF_def)
      then have "sig_step\<^sup>*\<^sup>* s ?u" by (rule sig_run_steps)
      moreover have "take BUFF (s_input s) \<noteq> []" using False by (simp add: BUFF_def)
      then have "package_loop (take BUFF (s_input s)) 0 \<noteq> []"
        by (simp add: package_loop_chunks chunks_step)
      ultimately show ?thesis
        using go [of ?u] u True less.prems by (simp add: schedule_rank_def in_step_def)
    qed
  next
    case False
    then have pc: "s_pc s = SFor" using less.prems by (auto simp: in_step_def)
    show ?thesis
    proof (cases "package_loop (s_buffer s) (s_i s)")
      case Nil
      let ?u = "s\<lparr>s_pc := SFread\<rparr>"
      have "\<not> s_i s < length (s_buffer s)"
        using Nil package_loop_full package_loop_last by fastforce
      then have "sig_run [Send] s = Some ?u" using pc by (simp add: sender_step_def)
      then have "sig_step\<^sup>*\<^sup>* s ?u" by (rule sig_run_steps)
      moreover have "unsent ?u = unsent s" using Nil pc by (simp add: unsent_def)
      ultimately show ?thesis
        using go [of ?u] pc Nil less.prems by (simp add: schedule_rank_def in_step_def)
    next
      case (Cons c cs)
      then obtain u where u: "sig_run one_package s = Some u" "in_step u" "r_out u = r_out s @ c"
        "unsent u = cs @ file_packages (s_input s)"
        using one_package_run [OF less.prems pc] by blast
      have "unsent s = c # unsent u" using Cons pc u(4) by (simp add: unsent_def)
      with u sig_run_steps [OF u(1)] show ?thesis
        using go [of u] by (simp add: schedule_rank_def pc Cons)
    qed
  qed
qed


section \<open>Properties\<close>

text \<open>
  The codec: the packages of a file, each put into an \<open>int\<close> on top of any older
  content of the \<open>package\<close> array and taken apart again, are the file.
\<close>

theorem signal_packages_roundtrip:
  assumes "length package = 4"
  shows "concat (map (\<lambda>c. written (package_of_int (int_of_package (fill_package package c))))
    (file_packages f)) = f"
proof -
  have "map (\<lambda>c. written (package_of_int (int_of_package (fill_package package c))))
      (file_packages f) = file_packages f"
    using assms file_packages_size
    by (intro map_idI) (simp add: length_fill_package package_int_round written_fill_package)
  then show ?thesis by (simp only: concat_file_packages)
qed

theorem signal_packages_roundtrip_witness:
  "concat (map (\<lambda>c. written (package_of_int (int_of_package (fill_package ''wxyz'' c))))
    (file_packages ''hello'')) = ''hello''"
  by (rule signal_packages_roundtrip) simp

text \<open>
  Whatever the timing, every call of \<open>fwrite\<close> writes as many bytes as some package of the file
  has, every package accounts for one call at most, in their order.  If no package is stored
  between the number and the bytes, it writes the package itself: none is invented,
  doubled or moved.
\<close>

lemma output_of:
  assumes "sig_inv calm f s"
  shows "\<exists>bs ps. r_out s = concat bs \<and> blocks_ok calm bs ps \<and> subseq ps (file_packages f)"
proof -
  obtain bs ps held where "r_out s = concat bs" "blocks_ok calm bs ps"
    "subseq (ps @ held @ pending_package s @ unsent s) (file_packages f)"
    using assms by (auto simp: sig_inv_def)
  moreover from this have "subseq ps (file_packages f)"
    using subseq_rev_drop_many [OF subseq_order.order_refl] subseq_order.order_trans by blast
  ultimately show ?thesis by blast
qed

theorem output_blocks:
  assumes "sig_step\<^sup>*\<^sup>* (sig_start f) s"
  shows "\<exists>bs. r_out s = concat bs \<and> subseq (map length bs) (map length (file_packages f))"
proof -
  have "sig_inv False f s" using sig_safe.reach_inv [OF refl assms] by blast
  then obtain bs ps where "r_out s = concat bs" "blocks_ok False bs ps" "subseq ps (file_packages f)"
    using output_of by blast
  moreover from this(3) have "subseq (map length ps) (map length (file_packages f))" by (rule subseq_map)
  ultimately show ?thesis by (auto simp: blocks_ok_def)
qed

theorem output_blocks_witness:
  "\<exists>bs. r_out (sig_start ''abcd'') = concat bs \<and> subseq (map length bs) (map length (file_packages ''abcd''))"
  by (rule output_blocks) (rule rtranclp.rtrancl_refl)

theorem output_subsequence:
  assumes "calm_step\<^sup>*\<^sup>* (sig_start f) s"
  shows "\<exists>ps. r_out s = concat ps \<and> subseq ps (file_packages f)"
proof -
  have "sig_inv True f s" using sig_calm.reach_inv [OF refl assms] by blast
  then show ?thesis using output_of by (fastforce simp: blocks_ok_def)
qed

theorem output_subsequence_witness:
  "\<exists>ps. r_out (sig_start ''abcd'') = concat ps \<and> subseq ps (file_packages ''abcd'')"
  by (rule output_subsequence) (rule rtranclp.rtrancl_refl)

text \<open>
  For every file there is a schedule in which both programs finish and the whole file
  has arrived.
\<close>

theorem signal_can_deliver:
  "\<exists>s. sig_step\<^sup>*\<^sup>* (sig_start f) s \<and> sig_final s \<and> r_out s = f"
proof -
  obtain t where t: "sig_run start_up (sig_start f) = Some t" "in_step t" "r_out t = []"
    "unsent t = file_packages f" using start_up_run by blast
  then obtain u where "sig_step\<^sup>*\<^sup>* t u" "sig_final u" "r_out u = concat (file_packages f)"
    using good_schedule [OF t(2)] by auto
  with sig_run_steps [OF t(1)] show ?thesis
    by (metis concat_file_packages rtranclp_trans)
qed

text \<open>The second package is queued while the first is pending.\<close>

definition losing :: "act list" where
  "losing = [Receive, Send, ReceiveSignal, Send, Send, Send,
     Receive, Receive, Receive, Receive, SendSignal, Send, Send,
     ReceiveSignal, Receive, Receive, Receive, Receive, Receive, Receive, Receive, SendSignal,
     Send, Send, ReceiveSignal, Receive, Receive, Receive]"

lemma losing_run:
  assumes "4 \<le> length f" "length f \<le> 6"
  shows "\<exists>t. sig_run losing (sig_start f) = Some t \<and> sig_final t \<and> r_out t = take 3 f"
  using assms by (auto simp: losing_def sig_start_def run_simps fread_def BUFF_def sig_final_def)

text \<open>The acknowledgement comes before the call of \<open>pause\<close>.\<close>

definition hanging :: "act list" where
  "hanging = [Receive, Send, ReceiveSignal, Receive, Receive, Receive, Receive, SendSignal,
     Send, Send, ReceiveSignal, Receive, Receive, Receive, Receive, Receive, Receive, Receive,
     SendSignal, Send]"

text \<open>
  Both processes are in \<open>pause\<close>, no signal is on its way to either, and the receiver has written
  what was sent and has sent its acknowledgement, which the sender has received.
\<close>

definition wakeup_lost :: "bytes \<Rightarrow> sig \<Rightarrow> bool" where
  "wakeup_lost f s \<longleftrightarrow> (\<exists>e. s_pc s = SPause e) \<and> r_pc s = RPause \<and> r_out s = take 3 f \<and> r_pid s \<and>
     \<not> s_pending s \<and> \<not> p_int s \<and> p_usr1 s = None \<and> \<not> p_usr2 s"

lemma wakeup_lost_stuck: "wakeup_lost f s \<Longrightarrow> \<not> sig_final s \<and> \<not> sig_step s t"
proof -
  assume "wakeup_lost f s"
  then have "sig_act a s = None" for a by (cases a) (auto simp: sig_defs wakeup_lost_def)
  with \<open>wakeup_lost f s\<close> show ?thesis by (auto simp: sig_step_iff wakeup_lost_def sig_final_def)
qed

lemma hanging_run:
  assumes "f \<noteq> []"
  shows "\<exists>t. sig_run hanging (sig_start f) = Some t \<and> wakeup_lost f t"
  using assms by (auto simp: hanging_def sig_start_def run_simps fread_def BUFF_def wakeup_lost_def)

text \<open>A package is stored between the number and the bytes of the one before it.\<close>

definition tearing :: "act list" where
  "tearing = [Receive, Send, ReceiveSignal, Send, Send, Send,
     Receive, Receive, Receive, Receive, ReceiveSignal, SendSignal,
     Receive, Receive, Send, ReceiveSignal, Receive, Receive]"

text \<open>
  The acknowledgement of the process number lets the sender run ahead: for every file
  of two packages there is a schedule in which both programs finish and the second
  package is lost, because it was queued while the first was still pending.
\<close>

theorem signal_can_lose:
  assumes "4 \<le> length f" "length f \<le> 6"
  shows "\<exists>s. sig_step\<^sup>*\<^sup>* (sig_start f) s \<and> sig_final s \<and> r_out s = take 3 f"
  using losing_run [OF assms] sig_run_steps by blast

theorem signal_can_lose_witness:
  "\<exists>s. sig_step\<^sup>*\<^sup>* (sig_start ''abcdef'') s \<and> sig_final s \<and> r_out s = ''abc''"
  using signal_can_lose [of "''abcdef''"] by simp

text \<open>
  The write can be torn: with the number of one package and the bytes of the next.
\<close>

theorem signal_can_tear:
  "\<exists>s. sig_step\<^sup>*\<^sup>* (sig_start ''abcd'') s \<and> r_out s = ''dbc''"
proof -
  have "\<exists>t. sig_run tearing (sig_start ''abcd'') = Some t \<and> r_out t = ''dbc''"
    by (simp add: tearing_def sig_start_def run_simps fread_def BUFF_def fill_package_def)
  then show ?thesis using sig_run_steps by blast
qed

text \<open>
  A wakeup can be lost: when an acknowledgement arrives before the sender has called
  \<open>pause\<close>, both processes wait for ever.  This can happen with every file that is not
  empty.
\<close>

theorem signal_can_hang:
  assumes "f \<noteq> []"
  shows "\<exists>s. sig_step\<^sup>*\<^sup>* (sig_start f) s \<and> wakeup_lost f s \<and> (\<forall>t. \<not> sig_step s t)"
  using hanging_run [OF assms] sig_run_steps wakeup_lost_stuck by blast

theorem signal_can_hang_witness:
  "\<exists>s. sig_step\<^sup>*\<^sup>* (sig_start ''x'') s \<and> wakeup_lost ''x'' s \<and> (\<forall>t. \<not> sig_step s t)"
  by (rule signal_can_hang) simp

text \<open>
  C12. What becomes of a file depends on the schedule alone: with every file there is one in which
  both programs finish and the whole file has arrived, and with every file that is not empty
  there is one after which both processes are in \<open>pause\<close> for ever: the receiver has written and
  acknowledged the first package, the acknowledgement has arrived before the sender had called
  \<open>pause\<close>, no signal is on its way and no step is possible.
\<close>

theorem signal_outcomes:
  "(\<exists>s. sig_step\<^sup>*\<^sup>* (sig_start f) s \<and> sig_final s \<and> r_out s = f) \<and>
   (f \<noteq> [] \<longrightarrow> (\<exists>s. sig_step\<^sup>*\<^sup>* (sig_start f) s \<and> (\<exists>e. s_pc s = SPause e) \<and> r_pc s = RPause \<and>
      r_out s = take 3 f \<and> r_pid s \<and> \<not> s_pending s \<and> \<not> p_int s \<and> p_usr1 s = None \<and> \<not> p_usr2 s \<and>
      (\<forall>t. \<not> sig_step s t)))"
  using signal_can_deliver [of f] signal_can_hang [of f] unfolding wakeup_lost_def by blast

theorem signal_outcomes_witness:
  "\<exists>s. sig_step\<^sup>*\<^sup>* (sig_start ''xy'') s \<and> (\<exists>e. s_pc s = SPause e) \<and> r_pc s = RPause \<and> r_out s = ''xy'' \<and>
    (\<forall>t. \<not> sig_step s t)"
  using signal_outcomes [of "''xy''"] by auto

end
