(* ===== verification/FifoServer.thy ===== *)
theory FifoServer
  imports Kernel
begin

text \<open>
  The file server over FIFOs, \<open>task_7/tiazhelkov.ve/server.c\<close> and \<open>server.h\<close>: clients register
  with the names of two FIFOs, the server waits with \<open>select\<close> for commands and for requests,
  and the threads of a pool send the files (\<open>SendFile\<close>).  The pool is a third-party component (a git
  submodule); of it the model uses only that a job that was added is run some time.
\<close>

section \<open>State\<close>

definition MAX_NUM_OF_CLIENTS :: nat where
  "MAX_NUM_OF_CLIENTS = 64"

definition BUF_SIZE :: nat where
  "BUF_SIZE = 1024"

definition FD_SETSIZE :: nat where
  "FD_SETSIZE = 1024"

record client =
  tx_fd :: int
  rx_filename :: "bytes option"

record server =
  clients :: "client list"
  rx :: int
  tx :: int
  max_fd :: int
  client_num :: nat

text \<open>
  The kernel's side: the descriptor table (a descriptor of the server stands for the path
  that was opened), the bytes waiting in every FIFO, and the jobs given to the pool: the
  block with the name of the destination and the block with the name of the file.
\<close>

record os =
  fds :: "string fdtab"
  fifos :: "string \<Rightarrow> bytes option"
  jobs :: "(bytes option \<times> bytes) list"

type_synonym fd_set = "int list"

definition zero_server :: server where
  "zero_server = \<lparr>clients = replicate MAX_NUM_OF_CLIENTS \<lparr>tx_fd = 0, rx_filename = None\<rparr>,
     rx = 0, tx = 0, max_fd = 0, client_num = 0\<rparr>"

section \<open>System calls\<close>

definition mkfifo :: "string \<Rightarrow> os \<Rightarrow> bool \<times> os" where
  "mkfifo path k =
     (case fifos k path of
        Some _ \<Rightarrow> (False, k)
      | None \<Rightarrow> (True, k\<lparr>fifos := (fifos k)(path \<mapsto> [])\<rparr>))"

definition open_fifo :: "string \<Rightarrow> os \<Rightarrow> int \<times> os" where
  "open_fifo path k =
     (case fifos k path of
        None \<Rightarrow> (- 1, k)
      | Some _ \<Rightarrow> let (n, t) = fd_open (fds k) path in (int n, k\<lparr>fds := t\<rparr>))"

definition close_fd :: "int \<Rightarrow> os \<Rightarrow> os" where
  "close_fd fd k = k\<lparr>fds := fd_close (fds k) (nat fd)\<rparr>"

definition unlink :: "string \<Rightarrow> os \<Rightarrow> os" where
  "unlink path k = k\<lparr>fifos := (fifos k)(path := None)\<rparr>"

definition fd_content :: "int \<Rightarrow> os \<Rightarrow> bytes" where
  "fd_content fd k =
     (if fd < 0 then []
      else case fd_get (fds k) (nat fd) of
        None \<Rightarrow> []
      | Some path \<Rightarrow> (case fifos k path of None \<Rightarrow> [] | Some xs \<Rightarrow> xs))"

text \<open>\<open>read\<close> on a FIFO that is open for reading and writing waits until it holds bytes.\<close>

definition read_fifo :: "int \<Rightarrow> nat \<Rightarrow> os \<Rightarrow> (bytes \<times> os) result" where
  "read_fifo fd n k =
     (if fd < 0 then Inl CallFailed
      else case fd_get (fds k) (nat fd) of
        None \<Rightarrow> Inl CallFailed
      | Some path \<Rightarrow>
          (case fifos k path of
             None \<Rightarrow> Inl Blocked
           | Some xs \<Rightarrow>
               if xs = [] then Inl Blocked
               else Inr (take n xs, k\<lparr>fifos := (fifos k)(path \<mapsto> drop n xs)\<rparr>)))"

definition FD_SET :: "int \<Rightarrow> fd_set \<Rightarrow> fd_set result" where
  "FD_SET fd s = (if 0 \<le> fd \<and> fd < int FD_SETSIZE then Inr (fd # s) else Inl OutOfBounds)"

text \<open>\<open>select\<close>: the watched descriptors below \<open>nfds\<close> that can be read; it waits while there
  is none.\<close>

definition select_fds :: "int \<Rightarrow> fd_set \<Rightarrow> os \<Rightarrow> fd_set result" where
  "select_fds nfds s k =
     (let ready = filter (\<lambda>fd. fd < nfds \<and> fd_content fd k \<noteq> []) s
      in if ready = [] then Inl Blocked else Inr ready)"

section \<open>Start and stop\<close>

text \<open>The \<open>int\<close> the function returns is nonzero after an error; a FIFO made before the error stays.\<close>

definition server_init :: "server \<Rightarrow> string \<Rightarrow> string \<Rightarrow> os \<Rightarrow> int \<times> server \<times> os" where
  "server_init srv tx_name rx_name k =
     (let (ok1, k1) = mkfifo tx_name k; (ok2, k2) = mkfifo rx_name k1
      in if \<not> (ok1 \<and> ok2) then (1, srv, k2)
         else let (rx_fd, k3) = open_fifo rx_name k2; (tx_fd, k4) = open_fifo tx_name k3
              in if tx_fd < 0 \<or> rx_fd < 0 then (1, srv, k4)
                 else (0, srv\<lparr>rx := rx_fd, tx := tx_fd, max_fd := tx_fd\<rparr>, k4))"

definition server_deinit :: "server \<Rightarrow> string \<Rightarrow> string \<Rightarrow> os \<Rightarrow> os" where
  "server_deinit srv tx_name rx_name k =
     unlink rx_name (unlink tx_name (close_fd (rx srv) (close_fd (tx srv) k)))"

section \<open>Registration\<close>

text \<open>
  \<open>add_client\<close>: \<open>heap\<close> is the number of bytes that may be used behind the pointer
  \<open>calloc(sizeof(char), sizeof(rx_filename))\<close> returns; the code asks for the size of a
  pointer.  The result of \<open>open\<close> and the number of clients are not checked.
\<close>

definition POINTER_SIZE :: nat where
  "POINTER_SIZE = 8"

definition c_string :: "bytes \<Rightarrow> string result" where
  "c_string b = (if NUL \<in> set b then Inr (cstr b) else Inl OutOfBounds)"

definition add_client :: "nat \<Rightarrow> server \<Rightarrow> bytes \<Rightarrow> bytes \<Rightarrow> os \<Rightarrow> (server \<times> os) result" where
  "add_client heap srv tx_filename rx_name k =
     bindS (c_string tx_filename) (\<lambda>path.
     let (fd, k') = open_fifo path k; n = client_num srv
     in if MAX_NUM_OF_CLIENTS \<le> n then Inl OutOfBounds
        else bindS (c_string rx_name) (\<lambda>name.
             bindS (poke (replicate heap NUL) 0 (lit name)) (\<lambda>b.
               Inr (srv\<lparr>clients := (clients srv)[n := \<lparr>tx_fd = fd, rx_filename = Some b\<rparr>],
                        max_fd := max fd (max_fd srv), client_num := n + 1\<rparr>, k'))))"

text \<open>
  \<open>sscanf\<close> with \<open>%s\<close> conversions: the words of the string in \<open>buf\<close>, stored one by one; a
  variable without a word keeps what it held.
\<close>

abbreviation blanks :: string where
  "blanks \<equiv> [CHR '' '', CHR 0x09, CHR 0x0A, CHR 0x0B, CHR 0x0C, CHR 0x0D]"

definition scan_words :: "bytes \<Rightarrow> nat \<Rightarrow> string list result" where
  "scan_words buf n = bindS (c_string buf) (\<lambda>s. Inr (take n (tokens blanks s)))"

definition store_word :: "string list \<Rightarrow> nat \<Rightarrow> bytes \<Rightarrow> bytes result" where
  "store_word ws i b = (if i < length ws then poke b 0 (lit (ws ! i)) else Inr b)"

text \<open>What the stack holds when \<open>server_cmd\<close> is entered.\<close>

record stack =
  st_buf :: bytes
  st_cmd :: bytes
  st_tx :: bytes
  st_rx :: bytes

datatype outcome = Returns int | Exits

definition server_cmd :: "nat \<Rightarrow> stack \<Rightarrow> server \<Rightarrow> os \<Rightarrow> (outcome \<times> server \<times> os) result" where
  "server_cmd heap st srv k =
     bindS (read_fifo (rx srv) BUF_SIZE k) (\<lambda>(xs, k1).
     bindS (poke (st_buf st) 0 xs) (\<lambda>buf.
     bindS (scan_words buf 3) (\<lambda>ws.
     bindS (store_word ws 0 (st_cmd st)) (\<lambda>cmd.
     bindS (store_word ws 1 (st_tx st)) (\<lambda>tx_fifo.
     bindS (store_word ws 2 (st_rx st)) (\<lambda>rx_fifo.
     bindS (strcmp_eq cmd (lit ''OFF'')) (\<lambda>off.
       if off
       then Inr (Exits, srv, server_deinit srv ''server_tx_fifo'' ''server_rx_fifo'' k1)
       else bindS (strcmp_eq cmd (lit ''REG'')) (\<lambda>reg.
            if \<not> reg then Inr (Returns 1, srv, k1)
            else bindS (add_client heap srv tx_fifo rx_fifo k1) (\<lambda>(srv', k2).
                 Inr (Returns 0, srv', k2))))))))))"

section \<open>Requests\<close>

definition client_request :: "server \<Rightarrow> nat \<Rightarrow> os \<Rightarrow> (int \<times> os) result" where
  "client_request srv i k =
     (let c = clients srv ! i; zeros = replicate BUF_SIZE NUL
      in bindS (read_fifo (tx_fd c) BUF_SIZE k) (\<lambda>(xs, k1).
         bindS (poke zeros 0 xs) (\<lambda>buf.
         bindS (scan_words buf 2) (\<lambda>ws.
         bindS (store_word ws 0 zeros) (\<lambda>cmd.
         bindS (store_word ws 1 zeros) (\<lambda>file.
         bindS (strcmp_eq cmd (lit ''GET'')) (\<lambda>get.
           if \<not> get then Inr (1, k1)
           else Inr (0, k1\<lparr>jobs := jobs k1 @ [(rx_filename c, file)]\<rparr>))))))))"

text \<open>
  The loop of \<open>main\<close> over the clients, from client \<open>i\<close> on, with \<open>r\<close> what \<open>select\<close> left.
  \<open>FD_ISSET\<close> of a number that is negative or not below \<open>FD_SETSIZE\<close> reads outside the set:
  C leaves open what happens then, and the model ends.
\<close>

fun client_loop :: "server \<Rightarrow> nat list \<Rightarrow> fd_set \<Rightarrow> os \<Rightarrow> os result" where
  "client_loop srv [] r k = Inr k"
| "client_loop srv (i # is) r k =
     (if MAX_NUM_OF_CLIENTS \<le> i then Inl OutOfBounds
      else let fd = tx_fd (clients srv ! i)
           in if fd < 0 \<or> int FD_SETSIZE \<le> fd then Inl OutOfBounds
              else if fd \<in> set r \<and> fd \<noteq> 0
              then bindS (client_request srv i k) (\<lambda>(_, k').
                     client_loop srv is (removeAll fd r) k')
              else client_loop srv is r k)"

fun add_fds :: "int list \<Rightarrow> fd_set \<Rightarrow> fd_set result" where
  "add_fds [] s = Inr s"
| "add_fds (fd # fs) s = bindS (FD_SET fd s) (add_fds fs)"

definition reinit_select :: "server \<Rightarrow> fd_set result" where
  "reinit_select srv =
     bindS (FD_SET (rx srv) []) (\<lambda>s.
       if MAX_NUM_OF_CLIENTS < client_num srv then Inl OutOfBounds
       else add_fds (map tx_fd (take (client_num srv) (clients srv))) s)"

definition serve_command ::
  "nat \<Rightarrow> stack \<Rightarrow> server \<Rightarrow> fd_set \<Rightarrow> os \<Rightarrow> (outcome \<times> server \<times> os) result" where
  "serve_command heap st srv r k =
     (if rx srv \<in> set r then server_cmd heap st srv k else Inr (Returns 0, srv, k))"

text \<open>One round of the loop of \<open>main\<close>; \<open>st\<close> is the stack \<open>server_cmd\<close> finds.\<close>

definition main_round ::
  "nat \<Rightarrow> stack \<Rightarrow> server \<Rightarrow> fd_set \<Rightarrow> os \<Rightarrow> (outcome \<times> server \<times> fd_set \<times> os) result" where
  "main_round heap st srv rfds k =
     bindS (select_fds (max_fd srv + 1) rfds k) (\<lambda>r.
     bindS (serve_command heap st srv r k) (\<lambda>(res, srv', k').
         if res = Exits then Inr (Exits, srv', r, k')
         else bindS (client_loop srv' [0..<client_num srv'] r k') (\<lambda>k''.
              bindS (reinit_select srv') (\<lambda>rfds'. Inr (Returns 0, srv', rfds', k'')))))"

definition main_start :: "server \<Rightarrow> fd_set result" where
  "main_start srv = FD_SET (rx srv) []"

section \<open>Sending a file\<close>

text \<open>
  \<open>send_file\<close> in a thread of the pool finds its two names in the job: the destination it writes
  to and the file.  The transfer itself is in \<open>SendFile\<close>.
\<close>

type_synonym thread = "string \<times> bytes"

definition open_job :: "(string \<Rightarrow> bytes option) \<Rightarrow> bytes option \<times> bytes \<Rightarrow> thread result" where
  "open_job files job =
     (case fst job of
        None \<Rightarrow> Inl NullDeref
      | Some dest \<Rightarrow>
          bindS (c_string dest) (\<lambda>d.
          bindS (c_string (snd job)) (\<lambda>name.
            case files name of None \<Rightarrow> Inl Aborted | Some xs \<Rightarrow> Inr (d, xs))))"

lemma BUF_SIZE_pos: "BUF_SIZE = 1024"
  by (simp add: BUF_SIZE_def)

section \<open>The server's invariant\<close>

text \<open>The descriptors the server reads from.\<close>

definition watched :: "server \<Rightarrow> int list" where
  "watched srv = rx srv # map tx_fd (take (client_num srv) (clients srv))"

definition server_ok :: "server \<Rightarrow> os \<Rightarrow> bool" where
  "server_ok srv k \<longleftrightarrow>
     length (clients srv) = MAX_NUM_OF_CLIENTS \<and> client_num srv \<le> MAX_NUM_OF_CLIENTS \<and>
     distinct (watched srv) \<and>
     (\<forall>fd \<in> set (watched srv). 0 \<le> fd \<and> fd \<le> max_fd srv \<and> nat fd \<in> fd_used (fds k)) \<and>
     (\<forall>c \<in> set (take (client_num srv) (clients srv)). rx_filename c \<noteq> None)"

text \<open>The state between two rounds, and what may happen: a round, a client that makes a
  FIFO or writes into one, a thread that takes a job.\<close>

type_synonym serving = "server \<times> fd_set \<times> os"

inductive serve_step :: "nat \<Rightarrow> serving \<Rightarrow> serving \<Rightarrow> bool" for heap where
  round: "main_round heap st srv rfds k = Inr (Returns 0, srv', rfds', k') \<Longrightarrow>
     serve_step heap (srv, rfds, k) (srv', rfds', k')"
| client_write: "fifos k path = Some xs \<Longrightarrow>
     serve_step heap (srv, rfds, k) (srv, rfds, k\<lparr>fifos := (fifos k)(path \<mapsto> xs @ ys)\<rparr>)"
| client_mkfifo: "fifos k path = None \<Longrightarrow>
     serve_step heap (srv, rfds, k) (srv, rfds, k\<lparr>fifos := (fifos k)(path \<mapsto> [])\<rparr>)"
| take_job: "jobs k = j # js \<Longrightarrow> serve_step heap (srv, rfds, k) (srv, rfds, k\<lparr>jobs := js\<rparr>)"

definition serving_ok :: "serving \<Rightarrow> bool" where
  "serving_ok s \<longleftrightarrow> (case s of (srv, rfds, k) \<Rightarrow> server_ok srv k \<and> set rfds = set (watched srv))"

lemma read_fifo_fds: "read_fifo fd n k = Inr (xs, k') \<Longrightarrow> fds k' = fds k \<and> jobs k' = jobs k"
  by (auto simp: read_fifo_def split: if_splits option.splits)

lemma client_request_fds: "client_request srv i k = Inr (r, k') \<Longrightarrow> fds k' = fds k"
  by (auto simp: client_request_def Let_def bindS_eq_Inr_iff dest: read_fifo_fds split: if_splits)

lemma client_loop_ok:
  "client_loop srv is r k = Inr k' \<Longrightarrow>
   fds k' = fds k \<and> (\<forall>i \<in> set is. 0 \<le> tx_fd (clients srv ! i))"
proof (induction srv "is" r k rule: client_loop.induct)
  case (2 srv i "is" r k)
  then show ?case
    by (fastforce simp: Let_def bindS_eq_Inr_iff split: if_splits dest: client_request_fds)
qed simp

lemma open_fifo_cases:
  assumes "open_fifo path k = (fd, k')"
  obtains "fd = -1" "k' = k"
  | n where "fifos k path \<noteq> None" "fd = int n" "n \<notin> fd_used (fds k)" "fd_used (fds k') = insert n (fd_used (fds k))"
      "fd_get (fds k') n = Some path" "fifos k' = fifos k" "jobs k' = jobs k"
proof (cases "fifos k path")
  case None
  with assms that(1) show ?thesis by (simp add: open_fifo_def)
next
  case (Some xs)
  obtain n t where o: "fd_open (fds k) path = (n, t)" by force
  with Some assms have "fd = int n" "k' = k\<lparr>fds := t\<rparr>" by (auto simp: open_fifo_def)
  with Some fdt.open_fresh [OF o] fdt.used_open [OF o] fdt.get_open [OF o] that(2) show ?thesis by simp
qed

lemma add_client_cases:
  assumes "add_client heap srv a b k = Inr (srv', k')"
  obtains fd c path where "client_num srv < MAX_NUM_OF_CLIENTS" "open_fifo path k = (fd, k')"
    "srv' = srv\<lparr>clients := (clients srv)[client_num srv := \<lparr>tx_fd = fd, rx_filename = Some c\<rparr>],
       max_fd := max fd (max_fd srv), client_num := client_num srv + 1\<rparr>"
proof -
  obtain path where p: "c_string a = Inr path"
    using assms by (auto simp: add_client_def bindS_eq_Inr_iff)
  obtain fd k1 where o: "open_fifo path k = (fd, k1)" by force
  obtain c where "srv' = srv\<lparr>clients := (clients srv)[client_num srv := \<lparr>tx_fd = fd, rx_filename = Some c\<rparr>],
       max_fd := max fd (max_fd srv), client_num := client_num srv + 1\<rparr>"
    "client_num srv < MAX_NUM_OF_CLIENTS" "k' = k1"
    using assms p o by (auto simp: add_client_def Let_def bindS_eq_Inr_iff split: if_splits)
  with o that show ?thesis by blast
qed

lemma server_cmd_cases:
  assumes "server_cmd heap st srv k = Inr (Returns r, srv', k')"
  obtains "srv' = srv" "fds k' = fds k"
  | a b k1 where "fds k1 = fds k" "add_client heap srv a b k1 = Inr (srv', k')"
  using assms
  by (auto simp: server_cmd_def bindS_eq_Inr_iff dest!: read_fifo_fds split: if_splits)

lemma server_ok_cong: "server_ok srv k \<Longrightarrow> fds k' = fds k \<Longrightarrow> server_ok srv k'"
  by (simp add: server_ok_def)

lemma add_client_keeps:
  assumes "server_ok srv k" "add_client heap srv a b k = Inr (srv', k')"
    and "0 \<le> tx_fd (clients srv' ! client_num srv)"
  shows "server_ok srv' k'"
  using assms(2)
proof (rule add_client_cases)
  fix fd c path
  let ?n = "client_num srv" and ?c = "\<lparr>tx_fd = fd, rx_filename = Some c\<rparr>"
  assume n: "?n < MAX_NUM_OF_CLIENTS" and o: "open_fifo path k = (fd, k')"
    and s: "srv' = srv\<lparr>clients := (clients srv)[?n := ?c],
       max_fd := max fd (max_fd srv), client_num := ?n + 1\<rparr>"
  have len: "length (clients srv) = MAX_NUM_OF_CLIENTS" using assms(1) by (simp add: server_ok_def)
  then have tk: "take (?n + 1) ((clients srv)[?n := ?c]) = take ?n (clients srv) @ [?c]"
    using n by (simp add: take_Suc_conv_app_nth)
  have "0 \<le> fd" using assms(3) n len s by simp
  with o obtain m where m: "fd = int m" "m \<notin> fd_used (fds k)"
    "fd_used (fds k') = insert m (fd_used (fds k))"
    by (auto elim: open_fifo_cases)
  have w: "watched srv' = watched srv @ [fd]" using tk by (simp add: watched_def s)
  have "fd \<notin> set (watched srv)" using assms(1) m by (auto simp: server_ok_def)
  then show ?thesis
    using assms(1) m n w tk by (auto simp: server_ok_def s)
qed


lemma FD_SET_Inr: "FD_SET fd s = Inr t \<Longrightarrow> t = fd # s"
  by (simp add: FD_SET_def split: if_splits)

lemma add_fds_set: "add_fds fs s = Inr t \<Longrightarrow> set t = set fs \<union> set s"
  by (induction fs arbitrary: s) (fastforce simp: bindS_eq_Inr_iff dest: FD_SET_Inr)+

lemma reinit_select_set:
  assumes "reinit_select srv = Inr r"
  shows "set r = set (watched srv)"
proof -
  obtain s where s: "FD_SET (rx srv) [] = Inr s"
    and a: "(if MAX_NUM_OF_CLIENTS < client_num srv then Inl OutOfBounds
       else add_fds (map tx_fd (take (client_num srv) (clients srv))) s) = Inr r"
    using assms unfolding reinit_select_def bindS_eq_Inr_iff by blast
  have "s = [rx srv]" using FD_SET_Inr [OF s] .
  moreover have "set r = set (map tx_fd (take (client_num srv) (clients srv))) \<union> set s"
    using a by (intro add_fds_set) (simp split: if_splits)
  ultimately show ?thesis by (simp add: watched_def)
qed

lemma main_round_ok:
  assumes "server_ok srv k" "main_round heap st srv rfds k = Inr (Returns 0, srv', rfds', k')"
  shows "server_ok srv' k' \<and> set rfds' = set (watched srv')"
proof -
  obtain r res k1 k2 where
    cmd: "serve_command heap st srv r k = Inr (res, srv', k1)" "res \<noteq> Exits"
    and loop: "client_loop srv' [0..<client_num srv'] r k1 = Inr k'"
    and re: "reinit_select srv' = Inr rfds'"
    using assms(2) by (auto simp: main_round_def bindS_eq_Inr_iff split: if_splits)
  have l: "fds k' = fds k1" "\<forall>i < client_num srv'. 0 \<le> tx_fd (clients srv' ! i)"
    using client_loop_ok [OF loop] by auto
  have "server_ok srv' k1"
  proof (cases "rx srv \<in> set r")
    case True
    then obtain n where "server_cmd heap st srv k = Inr (Returns n, srv', k1)"
      using cmd by (cases res) (auto simp: serve_command_def)
    then show ?thesis
    proof (cases rule: server_cmd_cases)
      case 1
      then show ?thesis using server_ok_cong [OF assms(1)] by simp
    next
      case (2 a b k2)
      have ok: "server_ok srv k2" by (rule server_ok_cong [OF assms(1) 2(1)])
      have "client_num srv' = client_num srv + 1" using 2(2) by (rule add_client_cases) simp
      then show ?thesis using add_client_keeps [OF ok 2(2)] l(2) by simp
    qed
  next
    case False
    then show ?thesis using cmd assms(1) by (simp add: serve_command_def)
  qed
  then show ?thesis using server_ok_cong l(1) reinit_select_set [OF re] by blast
qed

lemma serving_ok_step:
  assumes "serving_ok s" "serve_step heap s t"
  shows "serving_ok t"
  using assms(2)
proof cases
  case (round st srv rfds k srv' rfds' k')
  with assms(1) main_round_ok [of srv k heap st rfds srv' rfds' k'] show ?thesis
    by (simp add: serving_ok_def)
next
  case client_write
  with assms(1) server_ok_cong show ?thesis by (auto simp: serving_ok_def)
next
  case client_mkfifo
  with assms(1) server_ok_cong show ?thesis by (auto simp: serving_ok_def)
next
  case take_job
  with assms(1) server_ok_cong show ?thesis by (auto simp: serving_ok_def)
qed

lemma server_init_ok:
  assumes "server_init zero_server tx_name rx_name k = (0, srv, k')"
  shows "server_ok srv k' \<and> watched srv = [rx srv] \<and> rx srv < tx srv \<and> max_fd srv = tx srv"
proof -
  let ?k2 = "snd (mkfifo rx_name (snd (mkfifo tx_name k)))"
  obtain rx_fd k3 where o1: "open_fifo rx_name ?k2 = (rx_fd, k3)" by force
  obtain tx_fd k4 where o2: "open_fifo tx_name k3 = (tx_fd, k4)" by force
  have s: "srv = zero_server\<lparr>rx := rx_fd, tx := tx_fd, max_fd := tx_fd\<rparr>" "k' = k4"
    "0 \<le> tx_fd" "0 \<le> rx_fd"
    using assms o1 o2 by (auto simp: server_init_def split: prod.splits if_splits)
  obtain n t where n: "fd_open (fds ?k2) rx_name = (n, t)" "rx_fd = int n" "fds k3 = t"
    using o1 s(4) by (auto simp: open_fifo_def split: option.splits prod.splits)
  obtain m u where m: "fd_open t tx_name = (m, u)" "tx_fd = int m" "fds k4 = u"
    using o2 s(3) n(3) by (auto simp: open_fifo_def split: option.splits prod.splits)
  have "n < m" by (rule fdt.open_increasing [OF n(1) m(1)])
  moreover have "n \<in> fd_used (fds k4)"
    using fdt.used_open [OF n(1)] fdt.used_open [OF m(1)] m(3) by simp
  ultimately show ?thesis
    using n(2) m(2) by (simp add: s server_ok_def watched_def zero_server_def MAX_NUM_OF_CLIENTS_def)
qed

definition serve_init :: "serving \<Rightarrow> bool" where
  "serve_init s \<longleftrightarrow> (\<exists>tx_name rx_name k srv k' rfds.
     server_init zero_server tx_name rx_name k = (0, srv, k') \<and> main_start srv = Inr rfds \<and>
     s = (srv, rfds, k'))"

lemma serve_init_ok: "serve_init s \<Longrightarrow> serving_ok s"
  using server_init_ok
  by (fastforce simp: serve_init_def serving_ok_def main_start_def FD_SET_def split: if_splits)

interpretation serve: trans_inv serve_init "serve_step heap" serving_ok for heap
  by unfold_locales (rule serve_init_ok, assumption, rule serving_ok_step)


section \<open>Commands\<close>

definition name_word :: "string \<Rightarrow> bool" where
  "name_word w \<longleftrightarrow> w \<noteq> [] \<and> set w \<inter> (set blanks \<union> {NUL}) = {}"

lemma name_word_simps:
  assumes "name_word w"
  shows "w \<noteq> []" "NUL \<notin> set w" "set w \<inter> set blanks = {}"
  using assms by (auto simp: name_word_def)

lemma tokens_name:
  "name_word v \<Longrightarrow> s = [] \<or> hd s \<in> set blanks \<Longrightarrow> tokens blanks (v @ s) = v # tokens blanks s"
  by (intro tokens_word name_word_simps)

lemma tokens_one_word: "name_word w \<Longrightarrow> tokens blanks w = [w]"
  using tokens_name [of w "[]"] by simp

lemma tokens_two_words: "name_word v \<Longrightarrow> name_word w \<Longrightarrow> tokens blanks (v @ '' '' @ w) = [v, w]"
  using tokens_name [of v "'' '' @ w"] by (simp add: tokens_one_word)

lemma tokens_three_words:
  "name_word u \<Longrightarrow> name_word v \<Longrightarrow> name_word w \<Longrightarrow> tokens blanks (u @ '' '' @ v @ '' '' @ w) = [u, v, w]"
  using tokens_name [of u "'' '' @ v @ '' '' @ w"] tokens_two_words [of v w] by simp

lemma c_string_lit: "NUL \<notin> set s \<Longrightarrow> c_string (lit s @ r) = Inr s"
  by (simp add: c_string_def)

lemma store_word_lit:
  "i < length ws \<Longrightarrow> length (ws ! i) < length b \<Longrightarrow>
   store_word ws i b = Inr (lit (ws ! i) @ drop (Suc (length (ws ! i))) b)"
  by (simp add: store_word_def poke_def)

lemma read_fifo_all:
  assumes "0 \<le> fd" "fd_content fd k = xs" "xs \<noteq> []" "length xs \<le> n"
  obtains path where "fd_get (fds k) (nat fd) = Some path"
    "read_fifo fd n k = Inr (xs, k\<lparr>fifos := (fifos k)(path \<mapsto> [])\<rparr>)"
  using assms by (auto simp: fd_content_def read_fifo_def split: option.splits)

text \<open>The server after the registration of one more client.\<close>

definition with_client :: "server \<Rightarrow> int \<Rightarrow> bytes \<Rightarrow> server" where
  "with_client srv fd b =
     srv\<lparr>clients := (clients srv)[client_num srv := \<lparr>tx_fd = fd, rx_filename = Some b\<rparr>],
         max_fd := max fd (max_fd srv), client_num := client_num srv + 1\<rparr>"

lemma add_client_lit:
  assumes "NUL \<notin> set t" "NUL \<notin> set r" "open_fifo t k = (fd, k')"
  shows "add_client heap srv (lit t @ x) (lit r @ y) k =
    (if MAX_NUM_OF_CLIENTS \<le> client_num srv \<or> heap \<le> length r then Inl OutOfBounds
     else Inr (with_client srv fd (lit r @ replicate (heap - Suc (length r)) NUL), k'))"
  using assms c_string_lit [OF assms(1), of x] c_string_lit [OF assms(2), of y]
  by (simp add: add_client_def poke_def with_client_def Let_def)

definition stack_ok :: "stack \<Rightarrow> bool" where
  "stack_ok st \<longleftrightarrow> length (st_buf st) = BUF_SIZE \<and> length (st_cmd st) = BUF_SIZE \<and>
     length (st_tx st) = BUF_SIZE \<and> length (st_rx st) = BUF_SIZE"

text \<open>A command of three words, ended by a NUL byte.\<close>

lemma server_cmd_words:
  assumes "stack_ok st" "0 \<le> rx srv" "name_word c" "name_word t" "name_word r"
    and "fd_content (rx srv) k = lit (c @ '' '' @ t @ '' '' @ r)"
    and "length (c @ '' '' @ t @ '' '' @ r) < BUF_SIZE"
  obtains path x y z where "fd_get (fds k) (nat (rx srv)) = Some path"
    "server_cmd heap st srv k =
      (let k1 = k\<lparr>fifos := (fifos k)(path \<mapsto> [])\<rparr>
       in bindS (strcmp_eq (lit c @ z) (lit ''OFF'')) (\<lambda>off.
         if off
         then Inr (Exits, srv, server_deinit srv ''server_tx_fifo'' ''server_rx_fifo'' k1)
         else bindS (strcmp_eq (lit c @ z) (lit ''REG'')) (\<lambda>reg.
              if \<not> reg then Inr (Returns 1, srv, k1)
              else bindS (add_client heap srv (lit t @ x) (lit r @ y) k1) (\<lambda>(srv', k2).
                   Inr (Returns 0, srv', k2)))))"
proof -
  let ?m = "c @ '' '' @ t @ '' '' @ r" and ?ws = "[c, t, r]"
  obtain path where path: "fd_get (fds k) (nat (rx srv)) = Some path"
    "read_fifo (rx srv) BUF_SIZE k = Inr (lit ?m, k\<lparr>fifos := (fifos k)(path \<mapsto> [])\<rparr>)"
    by (rule read_fifo_all [OF assms(2,6), of BUF_SIZE]) (use assms(7) in simp_all)
  have no: "NUL \<notin> set ?m" using assms(3-5) by (simp add: name_word_simps)
  have buf: "poke (st_buf st) 0 (lit ?m) = Inr (lit ?m @ drop (length (lit ?m)) (st_buf st))"
    using assms(1,7) by (simp add: poke_def stack_ok_def)
  have sc: "scan_words (lit ?m @ q) 3 = Inr ?ws" for q
    using c_string_lit [OF no, of q] tokens_three_words [OF assms(3-5)] by (simp add: scan_words_def)
  have st: "store_word ?ws 0 (st_cmd st) = Inr (lit c @ drop (Suc (length c)) (st_cmd st))"
    "store_word ?ws 1 (st_tx st) = Inr (lit t @ drop (Suc (length t)) (st_tx st))"
    "store_word ?ws 2 (st_rx st) = Inr (lit r @ drop (Suc (length r)) (st_rx st))"
    using assms(1,7) by (simp_all add: store_word_def poke_def stack_ok_def)
  show ?thesis
    by (rule that [OF path(1)]) (simp only: server_cmd_def path(2) bindS_simps prod.case buf sc st Let_def)
qed


lemma name_REG: "name_word ''REG''" "name_word ''GET''"
  by (simp_all add: name_word_def)

lemma store_zeros:
  "i < length ws \<Longrightarrow> length (ws ! i) < BUF_SIZE \<Longrightarrow>
   store_word ws i (replicate BUF_SIZE NUL) =
     Inr (lit (ws ! i) @ replicate (BUF_SIZE - Suc (length (ws ! i))) NUL)"
  by (simp add: store_word_def poke_def)

section \<open>Properties\<close>

text \<open>
  C14. Whatever clients write and threads do, between two rounds every descriptor the
  server has to read from, its command FIFO and the FIFO of every registered client, is
  open, is in the set given to \<open>select\<close> and is at most \<open>max_fd\<close>, so \<open>select\<close> looks at it;
  and no two of them are the same.
\<close>

theorem server_watches_all:
  assumes "serve_init s0" "(serve_step heap)\<^sup>*\<^sup>* s0 (srv, rfds, k)"
  shows "set rfds = set (watched srv) \<and> distinct (watched srv) \<and>
    client_num srv \<le> MAX_NUM_OF_CLIENTS \<and>
    (\<forall>fd \<in> set (watched srv). 0 \<le> fd \<and> fd < max_fd srv + 1 \<and> nat fd \<in> fd_used (fds k))"
proof -
  have "serving_ok (srv, rfds, k)" using serve.reach_inv assms by blast
  then show ?thesis by (auto simp: serving_ok_def server_ok_def)
qed

definition demo_os :: os where
  "demo_os = \<lparr>fds = [(0, ''tty''), (1, ''tty''), (2, ''tty'')], fifos = (\<lambda>_. None)(''a'' \<mapsto> []), jobs = []\<rparr>"

lemma demo_init:
  "\<exists>srv k. server_init zero_server ''t'' ''r'' demo_os = (0, srv, k) \<and> main_start srv = Inr [3] \<and>
     rx srv = 3"
  by (simp add: server_init_def mkfifo_def open_fifo_def demo_os_def fd_open_def lowest_free_def
      zero_server_def main_start_def FD_SET_def FD_SETSIZE_def Let_def upt_rec)

theorem server_watches_all_witness:
  "\<exists>srv k. server_init zero_server ''t'' ''r'' demo_os = (0, srv, k) \<and> set (watched srv) = {3}"
proof -
  obtain srv k where s: "server_init zero_server ''t'' ''r'' demo_os = (0, srv, k)"
    "main_start srv = Inr [3]" using demo_init by blast
  then have "serve_init (srv, [3], k)" unfolding serve_init_def by blast
  from server_watches_all [OF this rtranclp.rtrancl_refl] s(1) show ?thesis by auto
qed

text \<open>
  C15. What the command \<open>REG\<close> does, exactly: with room in the table and on the heap it adds
  one client with the opened FIFO and the name, and changes nothing else; a 65th client
  or a name that does not fit into the block is written out of bounds.
\<close>

theorem register_client:
  assumes "stack_ok st" "0 \<le> rx srv" "name_word t" "name_word r"
    and "fd_content (rx srv) k = lit (''REG '' @ t @ '' '' @ r)"
    and "length (''REG '' @ t @ '' '' @ r) < BUF_SIZE"
  shows "\<exists>path fd k'. open_fifo t (k\<lparr>fifos := (fifos k)(path \<mapsto> [])\<rparr>) = (fd, k') \<and>
    server_cmd heap st srv k =
      (if MAX_NUM_OF_CLIENTS \<le> client_num srv \<or> heap \<le> length r then Inl OutOfBounds
       else Inr (Returns 0, with_client srv fd (lit r @ replicate (heap - Suc (length r)) NUL), k'))"
proof -
  obtain path x y z where cmd: "server_cmd heap st srv k =
      (let k1 = k\<lparr>fifos := (fifos k)(path \<mapsto> [])\<rparr>
       in bindS (strcmp_eq (lit ''REG'' @ z) (lit ''OFF'')) (\<lambda>off.
         if off
         then Inr (Exits, srv, server_deinit srv ''server_tx_fifo'' ''server_rx_fifo'' k1)
         else bindS (strcmp_eq (lit ''REG'' @ z) (lit ''REG'')) (\<lambda>reg.
              if \<not> reg then Inr (Returns 1, srv, k1)
              else bindS (add_client heap srv (lit t @ x) (lit r @ y) k1) (\<lambda>(srv', k2).
                   Inr (Returns 0, srv', k2)))))"
    by (rule server_cmd_words [OF assms(1,2) name_REG(1) assms(3,4)]) (use assms(5,6) in simp_all)
  obtain fd k' where o: "open_fifo t (k\<lparr>fifos := (fifos k)(path \<mapsto> [])\<rparr>) = (fd, k')" by force
  have "add_client heap srv (lit t @ x) (lit r @ y) (k\<lparr>fifos := (fifos k)(path \<mapsto> [])\<rparr>) =
    (if MAX_NUM_OF_CLIENTS \<le> client_num srv \<or> heap \<le> length r then Inl OutOfBounds
     else Inr (with_client srv fd (lit r @ replicate (heap - Suc (length r)) NUL), k'))"
    using assms(3,4) by (intro add_client_lit o) (simp_all add: name_word_simps)
  then have "server_cmd heap st srv k =
      (if MAX_NUM_OF_CLIENTS \<le> client_num srv \<or> heap \<le> length r then Inl OutOfBounds
       else Inr (Returns 0, with_client srv fd (lit r @ replicate (heap - Suc (length r)) NUL), k'))"
    unfolding cmd Let_def by simp
  with o show ?thesis by blast
qed

definition demo_stack :: stack where
  "demo_stack = \<lparr>st_buf = replicate 1024 NUL, st_cmd = replicate 1024 NUL,
     st_tx = replicate 1024 NUL, st_rx = replicate 1024 NUL\<rparr>"

definition demo_cmd :: "string \<Rightarrow> os" where
  "demo_cmd m = \<lparr>fds = [(3, ''r'')], fifos = [''r'' \<mapsto> m, ''a'' \<mapsto> []], jobs = []\<rparr>"

lemma demo_stack_ok: "stack_ok demo_stack"
  by (simp add: stack_ok_def demo_stack_def BUF_SIZE_pos)

theorem register_client_witness:
  "server_cmd POINTER_SIZE demo_stack (zero_server\<lparr>rx := 3\<rparr>) (demo_cmd (lit ''REG a longname''))
   = Inl OutOfBounds"
  using register_client [of demo_stack "zero_server\<lparr>rx := 3\<rparr>" "''a''" "''longname''"
      "demo_cmd (lit ''REG a longname'')" POINTER_SIZE] demo_stack_ok
  by (simp add: zero_server_def name_word_def fd_content_def demo_cmd_def fd_get_def BUF_SIZE_pos
      POINTER_SIZE_def)

text \<open>
  The request \<open>GET\<close> of a client becomes exactly one job, and the thread that takes it
  writes the named file to the FIFO the client has registered (a file that cannot be
  opened stops the server).
\<close>

theorem get_request_job:
  assumes "0 \<le> tx_fd c" "clients srv ! i = c" "rx_filename c = Some (lit r @ q)" "NUL \<notin> set r"
    and "name_word f" "fd_content (tx_fd c) k = ''GET '' @ f" "length (''GET '' @ f) < BUF_SIZE"
  shows "\<exists>k' job. client_request srv i k = Inr (0, k') \<and> jobs k' = jobs k @ [job] \<and>
    open_job files job = (case files f of None \<Rightarrow> Inl Aborted | Some xs \<Rightarrow> Inr (r, xs))"
proof -
  let ?m = "''GET '' @ f" and ?ws = "[''GET'', f]" and ?z = "replicate BUF_SIZE NUL"
  let ?k = "\<lambda>path. k\<lparr>fifos := (fifos k)(path \<mapsto> [])\<rparr>"
  let ?file = "lit f @ replicate (BUF_SIZE - Suc (length f)) NUL"
  let ?cmd = "lit ''GET'' @ replicate (BUF_SIZE - 4) NUL"
  obtain path where rd: "read_fifo (tx_fd c) BUF_SIZE k = Inr (?m, ?k path)"
    by (rule read_fifo_all [OF assms(1,6), of BUF_SIZE]) (use assms(7) in simp_all)
  have buf: "poke ?z 0 ?m = Inr (lit ?m @ replicate (BUF_SIZE - Suc (length ?m)) NUL)"
    using assms(7) replicate_append_same [of "BUF_SIZE - Suc (length ?m)" NUL]
    by (simp add: poke_def Suc_diff_Suc [symmetric])
  have "NUL \<notin> set ?m" using assms(5) by (simp add: name_word_simps)
  then have sc: "scan_words (lit ?m @ replicate (BUF_SIZE - Suc (length ?m)) NUL) 2 = Inr ?ws"
    using c_string_lit [of ?m] tokens_two_words [OF name_REG(2) assms(5)]
    by (simp add: scan_words_def)
  have st: "store_word ?ws 0 ?z = Inr ?cmd" "store_word ?ws 1 ?z = Inr ?file"
    using store_zeros [of 0 ?ws] store_zeros [of 1 ?ws] assms(7) by (simp_all add: BUF_SIZE_pos)
  have "client_request srv i k = Inr (0, (?k path)\<lparr>jobs := jobs k @ [(rx_filename c, ?file)]\<rparr>)"
    unfolding client_request_def Let_def assms(2)
    by (simp only: rd bindS_simps prod.case buf sc st) simp
  moreover have "open_job files (rx_filename c, ?file) =
      (case files f of None \<Rightarrow> Inl Aborted | Some xs \<Rightarrow> Inr (r, xs))"
    using assms(3-5) c_string_lit [of r q] c_string_lit [of f]
    by (simp add: open_job_def name_word_simps)
  ultimately show ?thesis by fastforce
qed

theorem get_request_job_witness:
  "\<exists>k' job. client_request (with_client (zero_server\<lparr>rx := 9\<rparr>) 3 (lit ''out'')) 0 (demo_cmd ''GET data'') =
      Inr (0, k') \<and> jobs k' = [job] \<and>
    open_job [''data'' \<mapsto> ''hello''] job = Inr (''out'', ''hello'')"
  using get_request_job [of "\<lparr>tx_fd = 3, rx_filename = Some (lit ''out'')\<rparr>"
      "with_client (zero_server\<lparr>rx := 9\<rparr>) 3 (lit ''out'')" 0 "''out''" "[]" "''data''" "demo_cmd ''GET data''"
      "[''data'' \<mapsto> ''hello'']"]
  by (simp add: with_client_def zero_server_def MAX_NUM_OF_CLIENTS_def name_word_def fd_content_def
      demo_cmd_def fd_get_def BUF_SIZE_pos)

end
