(* ===== verification/SendFile.thy ===== *)
theory SendFile
  imports FifoServer
begin

text \<open>
  \<open>send_file\<close> of \<open>task_7/tiazhelkov.ve/server.c\<close>: the threads of the pool and the clients they
  write to, as an interleaving of their system calls.  A thread waits in \<open>open\<close> until a client
  has opened the FIFO for reading, and in \<open>write\<close> while its chunk does not fit; so what becomes
  of a thread depends on its client.
\<close>

section \<open>The threads and the clients\<close>

text \<open>\<open>AtOpen\<close>: at \<open>open (destFileName, O_WRONLY)\<close>; \<open>InLoop\<close>: in the loop; \<open>Closed\<close>: both files closed.\<close>

datatype send_pc = AtOpen | InLoop | Closed

text \<open>
  \<open>threads\<close> are the jobs the pool is running: the destination and the bytes not read yet.  \<open>reading\<close>
  are the FIFOs a client has open for reading, \<open>received\<close> what it has read.
\<close>

record transfer =
  threads :: "thread list"
  pcs :: "send_pc list"
  reading :: "string set"
  fifo :: "string \<Rightarrow> kpipe"
  received :: "string \<Rightarrow> bytes"

definition dests :: "transfer \<Rightarrow> string set" where
  "dests s = fst ` set (threads s)"

text \<open>
  \<open>R\<close> are the FIFOs whose clients open them, read, and keep them open; a client that is not in
  \<open>R\<close> never opens its FIFO.  A chunk has \<open>BUF_SIZE\<close> bytes at most and enters the FIFO as a whole.
\<close>

inductive send_step :: "string set \<Rightarrow> transfer \<Rightarrow> transfer \<Rightarrow> bool" for R where
  client_opens: "d \<in> R \<Longrightarrow> d \<in> dests s \<Longrightarrow> d \<notin> reading s \<Longrightarrow>
     send_step R s (s\<lparr>reading := insert d (reading s)\<rparr>)"
| client_reads: "d \<in> reading s \<Longrightarrow> pipe_read (fifo s d) n = Some (xs, p) \<Longrightarrow> xs \<noteq> [] \<Longrightarrow>
     send_step R s (s\<lparr>fifo := (fifo s)(d := p), received := (received s)(d := received s d @ xs)\<rparr>)"
| opens: "i < length (threads s) \<Longrightarrow> pcs s ! i = AtOpen \<Longrightarrow> threads s ! i = (d, f) \<Longrightarrow> d \<in> reading s \<Longrightarrow>
     send_step R s (s\<lparr>pcs := (pcs s)[i := InLoop],
       fifo := (fifo s)(d := (fifo s d)\<lparr>writers := Suc (writers (fifo s d))\<rparr>)\<rparr>)"
| chunk: "i < length (threads s) \<Longrightarrow> pcs s ! i = InLoop \<Longrightarrow> threads s ! i = (d, f) \<Longrightarrow>
     fread BUF_SIZE f = (xs, rest) \<Longrightarrow> xs \<noteq> [] \<Longrightarrow> pipe_write (fifo s d) xs = Some p \<Longrightarrow>
     send_step R s (s\<lparr>threads := (threads s)[i := (d, rest)], fifo := (fifo s)(d := p)\<rparr>)"
| closes: "i < length (threads s) \<Longrightarrow> pcs s ! i = InLoop \<Longrightarrow> threads s ! i = (d, f) \<Longrightarrow> fread BUF_SIZE f = ([], rest) \<Longrightarrow>
     send_step R s (s\<lparr>pcs := (pcs s)[i := Closed],
       fifo := (fifo s)(d := (fifo s d)\<lparr>writers := writers (fifo s d) - 1\<rparr>)\<rparr>)"

definition send_start :: "thread list \<Rightarrow> transfer" where
  "send_start js = \<lparr>threads = js, pcs = replicate (length js) AtOpen, reading = {},
     fifo = (\<lambda>_. \<lparr>buffered = [], writers = 0\<rparr>), received = (\<lambda>_. [])\<rparr>"

text \<open>
  Everything is done that can be: the threads whose clients read are through and their FIFOs are
  empty, the others wait in \<open>open\<close>.
\<close>

definition served :: "string set \<Rightarrow> transfer \<Rightarrow> bool" where
  "served R s \<longleftrightarrow>
     (\<forall>i < length (threads s). let d = fst (threads s ! i) in
        if d \<in> R then pcs s ! i = Closed \<and> buffered (fifo s d) = [] else pcs s ! i = AtOpen)"

section \<open>Invariant and progress\<close>

text \<open>What a FIFO has taken: what its client has read and what still lies in it.\<close>

definition stream :: "transfer \<Rightarrow> string \<Rightarrow> bytes" where
  "stream s d = received s d @ buffered (fifo s d)"

text \<open>One thread: where it stands agrees with its client and with what it has to send.\<close>

fun thread_ok :: "string set \<Rightarrow> thread \<Rightarrow> send_pc \<Rightarrow> thread \<Rightarrow> bool" where
  "thread_ok rd j AtOpen t \<longleftrightarrow> t = j"
| "thread_ok rd j InLoop t \<longleftrightarrow> fst t \<in> rd"
| "thread_ok rd j Closed t \<longleftrightarrow> fst t \<in> rd \<and> snd t = []"

definition send_inv :: "string set \<Rightarrow> thread list \<Rightarrow> transfer \<Rightarrow> bool" where
  "send_inv R js s \<longleftrightarrow>
     map fst (threads s) = map fst js \<and> length (pcs s) = length js \<and> reading s \<subseteq> R \<inter> fst ` set js \<and>
     (\<forall>i < length js. thread_ok (reading s) (js ! i) (pcs s ! i) (threads s ! i)) \<and>
     (\<forall>d. d \<notin> reading s \<longrightarrow> stream s d = []) \<and>
     (distinct (map fst js) \<longrightarrow>
        (\<forall>i < length js. stream s (fst (js ! i)) @ snd (threads s ! i) = snd (js ! i)))"

fun pc_rank :: "send_pc \<Rightarrow> nat" where
  "pc_rank AtOpen = 2"
| "pc_rank InLoop = 1"
| "pc_rank Closed = 0"

definition send_rank :: "transfer \<Rightarrow> nat" where
  "send_rank s =
     sum_list (map pc_rank (pcs s)) + 2 * sum_list (map (length \<circ> snd) (threads s)) +
     (\<Sum>d \<in> dests s. length (buffered (fifo s d))) + card (dests s - reading s)"

lemma fread_concat: "fread n f = (xs, rest) \<Longrightarrow> xs @ rest = f"
  by (auto simp: fread_def)

lemma fread_empty: "fread BUF_SIZE f = ([], rest) \<longleftrightarrow> f = [] \<and> rest = []"
  by (auto simp: fread_def BUF_SIZE_pos)

lemma sum_list_swap:
  "i < length xs \<Longrightarrow> sum_list (xs[i := y]) + xs ! i = sum_list xs + (y :: nat)"
  by (induction xs arbitrary: i) (auto split: nat.splits)

lemma send_inv_lengths: "send_inv R js s \<Longrightarrow> length (threads s) = length js \<and> length (pcs s) = length js"
  by (auto simp: send_inv_def dest: map_eq_imp_length_eq)

lemma send_inv_dests: "send_inv R js s \<Longrightarrow> dests s = fst ` set js"
  unfolding send_inv_def dests_def by (metis list.set_map)

lemma send_inv_fst: "send_inv R js s \<Longrightarrow> i < length js \<Longrightarrow> fst (threads s ! i) = fst (js ! i)"
  using send_inv_lengths unfolding send_inv_def by (metis nth_map)

text \<open>A client's read moves bytes along, a change of the number of writers does not.\<close>

lemma stream_read:
  "pipe_read (fifo s d) n = Some (xs, p) \<Longrightarrow>
   stream (s\<lparr>fifo := (fifo s)(d := p), received := (received s)(d := received s d @ xs)\<rparr>) e = stream s e"
  by (auto simp: stream_def pipe_read_def split: if_splits)

lemma stream_writers [simp]:
  "stream (s\<lparr>pcs := q, fifo := (fifo s)(d := (fifo s d)\<lparr>writers := k\<rparr>)\<rparr>) e = stream s e"
  by (simp add: stream_def)

lemma stream_write:
  "pipe_write (fifo s d) xs = Some p \<Longrightarrow>
   stream (s\<lparr>threads := ts, fifo := (fifo s)(d := p)\<rparr>) e = stream s e @ (if e = d then xs else [])"
  by (auto simp: stream_def pipe_write_def split: if_splits)

lemma thread_ok_mono: "thread_ok rd j pc t \<Longrightarrow> rd \<subseteq> rd' \<Longrightarrow> thread_ok rd' j pc t"
  by (cases pc) auto

lemma send_inv_pc:
  assumes "send_inv R js s" "i < length js" "thread_ok (reading s) (js ! i) pc (threads s ! i)"
    and "t = s\<lparr>pcs := (pcs s)[i := pc], fifo := (fifo s)(d := (fifo s d)\<lparr>writers := k\<rparr>)\<rparr>"
  shows "send_inv R js t"
  using assms by (auto simp: send_inv_def nth_list_update)

lemma send_inv_chunk:
  assumes "send_inv R js s" "i < length js" "pcs s ! i = InLoop" "threads s ! i = (d, f)"
    and "xs @ rest = f" "pipe_write (fifo s d) xs = Some p"
  shows "send_inv R js (s\<lparr>threads := (threads s)[i := (d, rest)], fifo := (fifo s)(d := p)\<rparr>)"
proof -
  let ?t = "s\<lparr>threads := (threads s)[i := (d, rest)], fifo := (fifo s)(d := p)\<rparr>"
  note len = send_inv_lengths [OF assms(1)]
  have d: "fst (js ! i) = d" using send_inv_fst [OF assms(1,2)] assms(4) by simp
  have rd: "d \<in> reading s" using assms(1-4) by (force simp: send_inv_def)
  have "map fst (threads ?t) = map fst (threads s)"
    using assms(4) len assms(2) by (simp add: map_update) (metis fst_conv list_update_id map_update nth_map)
  moreover have "thread_ok (reading s) (js ! j) (pcs s ! j) (threads ?t ! j)" if "j < length js" for j
    using assms(1-4) that len rd by (cases "j = i") (auto simp: send_inv_def)
  moreover have "stream ?t (fst (js ! j)) @ snd (threads ?t ! j) = snd (js ! j)"
    if dis: "distinct (map fst js)" and j: "j < length js" for j
  proof -
    have old: "stream s (fst (js ! j)) @ snd (threads s ! j) = snd (js ! j)"
      using assms(1) dis j by (simp add: send_inv_def)
    show ?thesis
    proof (cases "j = i")
      case True
      with old d assms(2,4,5) len show ?thesis by (simp add: stream_write [OF assms(6)])
    next
      case False
      then have "fst (js ! j) \<noteq> d"
        using dis d j assms(2) by (metis length_map nth_eq_iff_index_eq nth_map)
      with False old show ?thesis by (simp add: stream_write [OF assms(6)])
    qed
  qed
  ultimately show ?thesis using assms(1) rd by (auto simp: send_inv_def stream_write [OF assms(6)])
qed

lemma send_inv_step:
  assumes "send_inv R js s" "send_step R s t"
  shows "send_inv R js t"
  using assms(2)
proof cases
  case (client_opens d)
  with assms(1) send_inv_dests [OF assms(1)] show ?thesis
    by (auto simp: send_inv_def stream_def intro: thread_ok_mono)
next
  case (client_reads d n xs p)
  then show ?thesis using assms(1) by (auto simp: send_inv_def stream_read)
next
  case (opens i d f)
  then show ?thesis
    using send_inv_lengths [OF assms(1)] by (intro send_inv_pc [OF assms(1) _ _ opens(1)]) auto
next
  case (chunk i d f xs rest p)
  then show ?thesis
    using send_inv_lengths [OF assms(1)] fread_concat by (auto intro!: send_inv_chunk [OF assms(1)])
next
  case (closes i d f rest)
  then have "i < length js" using send_inv_lengths [OF assms(1)] by simp
  then have "thread_ok (reading s) (js ! i) (pcs s ! i) (threads s ! i)"
    using assms(1) unfolding send_inv_def by blast
  then have "thread_ok (reading s) (js ! i) Closed (threads s ! i)" using closes(3-5) by (simp add: fread_empty)
  then show ?thesis
    using send_inv_lengths [OF assms(1)] closes(2) by (intro send_inv_pc [OF assms(1) _ _ closes(1)]) simp_all
qed

lemma send_inv_start: "send_inv R js (send_start js)"
  by (simp add: send_inv_def send_start_def stream_def)

text \<open>Every step uses something up.\<close>

lemma dests_finite: "finite (dests s)"
  by (simp add: dests_def)

lemma buffered_sum:
  assumes "d \<in> dests s"
  shows "(\<Sum>e \<in> dests s. length (buffered (((fifo s)(d := p)) e))) + length (buffered (fifo s d)) =
    (\<Sum>e \<in> dests s. length (buffered (fifo s e))) + length (buffered p)"
proof -
  have "(\<Sum>e \<in> dests s. g e) = g d + (\<Sum>e \<in> dests s - {d}. g e)" for g :: "string \<Rightarrow> nat"
    using assms by (rule sum.remove [OF dests_finite])
  from this [of "\<lambda>e. length (buffered (((fifo s)(d := p)) e))"] this [of "\<lambda>e. length (buffered (fifo s e))"]
  show ?thesis by simp
qed

lemma dests_update: "i < length (threads s) \<Longrightarrow> threads s ! i = (d, f) \<Longrightarrow>
  fst ` set ((threads s)[i := (d, rest)]) = dests s"
  unfolding dests_def by (metis fst_conv list.set_map list_update_id map_update)

lemma thread_dest: "i < length (threads s) \<Longrightarrow> threads s ! i = (d, f) \<Longrightarrow> d \<in> dests s"
  unfolding dests_def by (metis fst_conv image_eqI nth_mem)

lemma send_rank_pc:
  assumes "i < length (pcs s)" "pc_rank pc < pc_rank (pcs s ! i)"
  shows "send_rank (s\<lparr>pcs := (pcs s)[i := pc], fifo := (fifo s)(d := (fifo s d)\<lparr>writers := k\<rparr>)\<rparr>) < send_rank s"
proof -
  have "sum_list (map pc_rank ((pcs s)[i := pc])) < sum_list (map pc_rank (pcs s))"
    using sum_list_swap [of i "map pc_rank (pcs s)" "pc_rank pc"] assms by (simp add: map_update)
  moreover have "length (buffered (((fifo s)(d := (fifo s d)\<lparr>writers := k\<rparr>)) e)) = length (buffered (fifo s e))" for e
    by simp
  ultimately show ?thesis by (simp add: send_rank_def dests_def del: fun_upd_apply)
qed

lemma send_rank_step:
  assumes "send_inv R js s" "send_step R s t"
  shows "send_rank t < send_rank s"
  using assms(2)
proof cases
  case (client_opens d)
  then have "card (dests s - insert d (reading s)) < card (dests s - reading s)"
    using dests_finite by (intro psubset_card_mono) auto
  with client_opens(1) show ?thesis by (simp add: send_rank_def dests_def)
next
  case (client_reads d n xs p)
  have "d \<in> dests s" using assms(1) client_reads(2) send_inv_dests [OF assms(1)] by (auto simp: send_inv_def)
  moreover have "length (buffered p) < length (buffered (fifo s d))"
    using client_reads(3,4) by (auto simp: pipe_read_def split: if_splits)
  ultimately show ?thesis using buffered_sum [of d s p]
    by (simp add: client_reads(1) send_rank_def dests_def del: fun_upd_apply)
next
  case (opens i d f)
  then show ?thesis using send_inv_lengths [OF assms(1)] by (auto intro: send_rank_pc)
next
  case (chunk i d f xs rest p)
  have x: "length xs + length rest = length f" "0 < length xs"
    using fread_concat [OF chunk(5)] chunk(6) by (auto simp flip: length_append)
  have p: "length (buffered p) = length (buffered (fifo s d)) + length xs"
    using chunk(7) by (auto simp: pipe_write_def split: if_splits)
  have "sum_list (map (length \<circ> snd) (threads t)) + length f = sum_list (map (length \<circ> snd) (threads s)) + length rest"
    using sum_list_swap [of i "map (length \<circ> snd) (threads s)" "length rest"] chunk(2,4)
    by (simp add: chunk(1) map_update)
  moreover have "dests t = dests s" using dests_update [OF chunk(2,4)] chunk(1) by (simp add: dests_def)
  moreover have "fifo t = (fifo s)(d := p)" "pcs t = pcs s" "reading t = reading s" using chunk(1) by simp_all
  ultimately show ?thesis using buffered_sum [OF thread_dest [OF chunk(2,4)], of p] x p
    by (simp add: send_rank_def del: fun_upd_apply length_greater_0_conv length_0_conv)
next
  case (closes i d f rest)
  then show ?thesis using send_inv_lengths [OF assms(1)] by (auto intro: send_rank_pc)
qed

text \<open>A client that reads is never in the way: it opens its FIFO, and empties it when it is full.\<close>

lemma client_can_read: "d \<in> reading s \<Longrightarrow> buffered (fifo s d) \<noteq> [] \<Longrightarrow> \<exists>t. send_step R s t"
  using send_step.client_reads [of d s 1] by (fastforce simp: pipe_read_def)

lemma send_progress:
  assumes inv: "send_inv R js s" and "\<not> served R s"
  shows "\<exists>t. send_step R s t"
proof -
  obtain i where i: "i < length (threads s)" "\<not> (let d = fst (threads s ! i) in
      if d \<in> R then pcs s ! i = Closed \<and> buffered (fifo s d) = [] else pcs s ! i = AtOpen)"
    using assms(2) by (auto simp: served_def)
  obtain d f where df: "threads s ! i = (d, f)" by force
  have ok: "thread_ok (reading s) (js ! i) (pcs s ! i) (threads s ! i)"
    using inv i(1) send_inv_lengths [OF inv] by (simp add: send_inv_def)
  show ?thesis
  proof (cases "d \<in> reading s")
    case False
    then have "pcs s ! i = AtOpen" using ok df by (cases "pcs s ! i") auto
    then have "d \<in> R" using i(2) df by (auto split: if_splits)
    with False show ?thesis using send_step.client_opens [of d R s] thread_dest [OF i(1) df] by blast
  next
    case rd: True
    then have "d \<in> R" using inv by (auto simp: send_inv_def)
    show ?thesis
    proof (cases "pcs s ! i")
      case AtOpen
      with rd df i(1) show ?thesis using send_step.opens by blast
    next
      case Closed
      with i(2) df \<open>d \<in> R\<close> show ?thesis using client_can_read [OF rd] by simp
    next
      case InLoop
      show ?thesis
      proof (cases "f = [] \<or> buffered (fifo s d) \<noteq> []")
        case True
        then show ?thesis
          using client_can_read [OF rd] send_step.closes [OF i(1) InLoop df] fread_empty by blast
      next
        case False
        have "pipe_write (fifo s d) (take BUF_SIZE f) \<noteq> None"
          using False by (simp add: pipe_write_def BUF_SIZE_pos PIPE_CAP_def)
        moreover have "fread BUF_SIZE f = (take BUF_SIZE f, drop BUF_SIZE f)" "take BUF_SIZE f \<noteq> []"
          using False by (simp_all add: fread_def BUF_SIZE_pos)
        ultimately show ?thesis using send_step.chunk [OF i(1) InLoop df] by blast
      qed
    qed
  qed
qed

interpretation send_run: live_inv
  "\<lambda>s. s = send_start js" "send_step R" "send_inv R js" "served R" send_rank for js R
  by unfold_locales
    (auto intro: send_inv_start send_inv_step send_progress send_rank_step)

text \<open>What every client has at the end.\<close>

lemma served_received:
  assumes "send_inv R js s" "served R s" "distinct (map fst js)" "(d, f) \<in> set js"
  shows "received s d = (if d \<in> R then f else [])"
proof -
  obtain i where i: "i < length js" "js ! i = (d, f)" using assms(4) by (auto simp: in_set_conv_nth)
  note len = send_inv_lengths [OF assms(1)] and dd = send_inv_fst [OF assms(1) i(1)]
  have sv: "if d \<in> R then pcs s ! i = Closed \<and> buffered (fifo s d) = [] else pcs s ! i = AtOpen"
    using assms(2) len i dd by (auto simp: served_def Let_def)
  have ok: "thread_ok (reading s) (d, f) (pcs s ! i) (threads s ! i)"
    and st: "stream s d @ snd (threads s ! i) = f"
    using assms(1,3) i by (auto simp: send_inv_def)
  show ?thesis
  proof (cases "d \<in> R")
    case True
    then show ?thesis using sv ok st by (simp add: stream_def)
  next
    case False
    then have "d \<notin> reading s" using assms(1) by (auto simp: send_inv_def)
    then have "stream s d = []" using assms(1) by (simp add: send_inv_def)
    with False show ?thesis by (simp add: stream_def)
  qed
qed

text \<open>Two threads that write to the same FIFO.\<close>

lemma chunks_hd:
  assumes "f \<noteq> []"
  shows "chunks BUF_SIZE f = take BUF_SIZE f # chunks BUF_SIZE (drop BUF_SIZE f)"
  using assms by (intro chunks_step) (simp_all add: BUF_SIZE_pos)

lemma two_threads_order:
  "(send_step R)\<^sup>*\<^sup>* s t \<Longrightarrow> map snd (threads t) = [[], []] \<Longrightarrow> threads s = [(d, f), (d, g)] \<Longrightarrow>
   \<exists>ws \<in> shuffles (chunks BUF_SIZE f) (chunks BUF_SIZE g). stream t d = stream s d @ concat ws"
proof (induction arbitrary: f g rule: converse_rtranclp_induct)
  case base
  then show ?case by simp
next
  case (step s u)
  have same: ?case if "threads u = threads s" "stream u d = stream s d"
    using step.IH [OF step.prems(1)] step.prems(2) that by simp
  from step.hyps(1) show ?case
  proof cases
    case (chunk i e h xs rest p)
    have x: "xs = take BUF_SIZE h" "rest = drop BUF_SIZE h" and ne: "h \<noteq> []"
      using chunk(5,6) by (auto simp: fread_def)
    have su: "e = d \<Longrightarrow> stream u d = stream s d @ xs"
      using stream_write [OF chunk(7), of "(threads s)[i := (e, rest)]" d] chunk(1) by simp
    have "i = 0 \<or> i = 1" using chunk(2) step.prems(2) by auto
    then consider "e = d" "h = f" "threads u = [(d, rest), (d, g)]"
      | "e = d" "h = g" "threads u = [(d, f), (d, rest)]"
      using chunk(1,4) step.prems(2) by auto
    then show ?thesis
    proof cases
      case 1
      obtain ws where ws: "ws \<in> shuffles (chunks BUF_SIZE rest) (chunks BUF_SIZE g)"
        "stream t d = stream u d @ concat ws" using step.IH [OF step.prems(1) 1(3)] by blast
      have "xs # ws \<in> shuffles (chunks BUF_SIZE f) (chunks BUF_SIZE g)"
        using ws(1) chunks_hd [OF ne] by (simp add: x 1(2) Cons_in_shuffles_leftI)
      moreover have "stream t d = stream s d @ concat (xs # ws)"
        using ws(2) su [OF 1(1)] by simp
      ultimately show ?thesis by blast
    next
      case 2
      obtain ws where ws: "ws \<in> shuffles (chunks BUF_SIZE f) (chunks BUF_SIZE rest)"
        "stream t d = stream u d @ concat ws" using step.IH [OF step.prems(1) 2(3)] by blast
      have "xs # ws \<in> shuffles (chunks BUF_SIZE f) (chunks BUF_SIZE g)"
        using ws(1) chunks_hd [OF ne] by (simp add: x 2(2) Cons_in_shuffles_rightI)
      moreover have "stream t d = stream s d @ concat (xs # ws)"
        using ws(2) su [OF 2(1)] by simp
      ultimately show ?thesis by blast
    qed
  next
    case (client_opens e)
    then show ?thesis by (intro same) (simp_all add: stream_def)
  next
    case (client_reads e n xs p)
    then show ?thesis by (intro same) (simp_all add: stream_read)
  next
    case (opens i e h)
    then show ?thesis by (intro same) simp_all
  next
    case (closes i e h rest)
    then show ?thesis by (intro same) simp_all
  qed
qed

text \<open>Any order of the chunks is possible: each is read before the next is written.\<close>

definition both_ready :: "transfer \<Rightarrow> string \<Rightarrow> bytes \<Rightarrow> bytes \<Rightarrow> bool" where
  "both_ready s d f g \<longleftrightarrow> threads s = [(d, f), (d, g)] \<and> pcs s = [InLoop, InLoop] \<and> d \<in> reading s \<and> buffered (fifo s d) = []"

lemma carry_chunk:
  assumes "both_ready s d f g" "i < 2" "threads s ! i = (d, h)" "h \<noteq> []"
    and "(threads s)[i := (d, drop BUF_SIZE h)] = [(d, f'), (d, g')]"
  shows "\<exists>u. (send_step R)\<^sup>*\<^sup>* s u \<and> both_ready u d f' g' \<and> received u d = received s d @ take BUF_SIZE h"
proof -
  let ?w = "take BUF_SIZE h"
  let ?p = "(fifo s d)\<lparr>buffered := ?w\<rparr>"
  let ?u = "s\<lparr>threads := [(d, f'), (d, g')], fifo := (fifo s)(d := ?p)\<rparr>"
  let ?v = "?u\<lparr>fifo := (fifo ?u)(d := ?p\<lparr>buffered := []\<rparr>), received := (received ?u)(d := received ?u d @ ?w)\<rparr>"
  have w: "?w \<noteq> []" using assms(4) by (simp add: BUF_SIZE_pos)
  have pc: "i < length (threads s)" "pcs s ! i = InLoop"
    using assms(1,2) by (auto simp: both_ready_def less_2_cases_iff)
  have "pipe_write (fifo s d) ?w = Some ?p"
    using assms(1) by (simp add: pipe_write_def both_ready_def BUF_SIZE_pos PIPE_CAP_def)
  then have "send_step R s ?u"
    using send_step.chunk [OF pc assms(3), of ?w "drop BUF_SIZE h" ?p R] w assms(5) by (simp add: fread_def)
  moreover have "send_step R ?u ?v"
    using assms(1) w by (intro send_step.client_reads [where n = BUF_SIZE])
      (auto simp: pipe_read_def both_ready_def BUF_SIZE_pos)
  moreover have "both_ready ?v d f' g'" using assms(1) by (simp add: both_ready_def)
  ultimately show ?thesis by (intro exI [of _ ?v]) (auto intro: converse_rtranclp_into_rtranclp)
qed

lemma two_threads_chunks:
  "ws \<in> shuffles (chunks BUF_SIZE f) (chunks BUF_SIZE g) \<Longrightarrow> both_ready s d f g \<Longrightarrow>
   \<exists>t. (send_step R)\<^sup>*\<^sup>* s t \<and> both_ready t d [] [] \<and> received t d = received s d @ concat ws"
proof (induction ws arbitrary: s f g)
  case Nil
  then have "f = []" "g = []" using chunks_hd by (metis Nil_in_shuffles list.distinct(1))+
  with Nil show ?case by auto
next
  case (Cons w ws)
  have step: ?case
    if "i < 2" "threads s ! i = (d, h)" "w = take BUF_SIZE h" "h \<noteq> []"
      "ws \<in> shuffles (chunks BUF_SIZE f') (chunks BUF_SIZE g')"
      "(threads s)[i := (d, drop BUF_SIZE h)] = [(d, f'), (d, g')]" for i h f' g'
  proof -
    note th = that
    obtain u where u: "(send_step R)\<^sup>*\<^sup>* s u" "both_ready u d f' g'" "received u d = received s d @ w"
      using carry_chunk [OF Cons.prems(2) th(1,2,4,6)] th(3) by blast
    obtain t where "(send_step R)\<^sup>*\<^sup>* u t" "both_ready t d [] []" "received t d = received u d @ concat ws"
      using Cons.IH [OF th(5) u(2)] by blast
    with u(1,3) show ?thesis by (intro exI [of _ t]) (auto intro: rtranclp_trans)
  qed
  have th: "threads s = [(d, f), (d, g)]" using Cons.prems(2) by (simp add: both_ready_def)
  from Cons.prems(1) consider
      "chunks BUF_SIZE f \<noteq> []" "hd (chunks BUF_SIZE f) = w"
        "ws \<in> shuffles (tl (chunks BUF_SIZE f)) (chunks BUF_SIZE g)"
    | "chunks BUF_SIZE g \<noteq> []" "hd (chunks BUF_SIZE g) = w"
        "ws \<in> shuffles (chunks BUF_SIZE f) (tl (chunks BUF_SIZE g))"
    unfolding Cons_in_shuffles_iff by blast
  then show ?case
  proof cases
    case 1
    then have ne: "f \<noteq> []" by auto
    with 1 chunks_hd [OF ne] th show ?thesis by (intro step [of 0 f "drop BUF_SIZE f" g]) simp_all
  next
    case 2
    then have ne: "g \<noteq> []" by auto
    with 2 chunks_hd [OF ne] th show ?thesis by (intro step [of 1 g f "drop BUF_SIZE g"]) simp_all
  qed
qed

text \<open>The ends of such a run: the client and both threads open the FIFO, and both close it.\<close>

lemma both_open:
  assumes "d \<in> R"
  shows "\<exists>s. (send_step R)\<^sup>*\<^sup>* (send_start [(d, f), (d, g)]) s \<and> both_ready s d f g \<and> received s d = []"
proof -
  let ?s0 = "send_start [(d, f), (d, g)]"
  let ?s1 = "?s0\<lparr>reading := insert d (reading ?s0)\<rparr>"
  let ?s2 = "?s1\<lparr>pcs := (pcs ?s1)[0 := InLoop], fifo := (fifo ?s1)(d := (fifo ?s1 d)\<lparr>writers := Suc (writers (fifo ?s1 d))\<rparr>)\<rparr>"
  let ?s3 = "?s2\<lparr>pcs := (pcs ?s2)[1 := InLoop], fifo := (fifo ?s2)(d := (fifo ?s2 d)\<lparr>writers := Suc (writers (fifo ?s2 d))\<rparr>)\<rparr>"
  have "send_step R ?s0 ?s1" using assms by (intro send_step.client_opens) (simp_all add: send_start_def dests_def)
  moreover have "send_step R ?s1 ?s2" by (rule send_step.opens [where f = f]) (simp_all add: send_start_def)
  moreover have "send_step R ?s2 ?s3" by (rule send_step.opens [where f = g]) (simp_all add: send_start_def)
  moreover have "both_ready ?s3 d f g" "received ?s3 d = []" by (simp_all add: both_ready_def send_start_def)
  ultimately show ?thesis by (intro exI [of _ ?s3]) (auto intro: converse_rtranclp_into_rtranclp)
qed

lemma both_close:
  assumes "both_ready s d [] []" "d \<in> R"
  shows "\<exists>t. (send_step R)\<^sup>*\<^sup>* s t \<and> served R t \<and> received t d = received s d"
proof -
  let ?w = "\<lambda>s. (fifo s)(d := (fifo s d)\<lparr>writers := writers (fifo s d) - 1\<rparr>)"
  let ?s1 = "s\<lparr>pcs := (pcs s)[0 := Closed], fifo := ?w s\<rparr>"
  let ?s2 = "?s1\<lparr>pcs := (pcs ?s1)[1 := Closed], fifo := ?w ?s1\<rparr>"
  have "send_step R s ?s1" using assms(1)
    by (intro send_step.closes [where f = "[]" and rest = "[]"]) (simp_all add: both_ready_def fread_empty)
  moreover have "send_step R ?s1 ?s2" using assms(1)
    by (intro send_step.closes [where f = "[]" and rest = "[]"]) (simp_all add: both_ready_def fread_empty)
  moreover have "served R ?s2"
    using assms by (auto simp: served_def both_ready_def less_2_cases_iff numeral_2_eq_2 less_Suc_eq)
  ultimately show ?thesis by (intro exI [of _ ?s2]) (auto intro: converse_rtranclp_into_rtranclp)
qed

lemma two_threads_received:
  assumes "d \<in> R"
  shows "(\<exists>u. (send_step R)\<^sup>*\<^sup>* (send_start [(d, f), (d, g)]) u \<and> served R u \<and> received u d = xs) \<longleftrightarrow>
    (\<exists>ws \<in> shuffles (chunks BUF_SIZE f) (chunks BUF_SIZE g). xs = concat ws)"
proof
  let ?js = "[(d, f), (d, g)]"
  assume "\<exists>u. (send_step R)\<^sup>*\<^sup>* (send_start ?js) u \<and> served R u \<and> received u d = xs"
  then obtain u where u: "(send_step R)\<^sup>*\<^sup>* (send_start ?js) u" "served R u" "received u d = xs" by blast
  have inv: "send_inv R ?js u" by (rule send_run.reach_inv [OF refl u(1)])
  note len = send_inv_lengths [OF inv] and ff = send_inv_fst [OF inv]
  have each: "pcs u ! i = Closed \<and> buffered (fifo u d) = [] \<and> snd (threads u ! i) = []" if "i < 2" for i
  proof -
    have "fst (threads u ! i) = d" using ff [of i] that by (auto simp: less_2_cases_iff)
    then have "pcs u ! i = Closed \<and> buffered (fifo u d) = []" using u(2) len that assms by (auto simp: served_def Let_def numeral_2_eq_2)
    moreover from this have "snd (threads u ! i) = []" using inv that by (auto simp: send_inv_def numeral_2_eq_2)
    ultimately show ?thesis by simp
  qed
  have "map snd (threads u) = [[], []]"
    using len each by (intro nth_equalityI) (auto simp: less_2_cases_iff numeral_2_eq_2 less_Suc_eq)
  from two_threads_order [OF u(1) this, of d f g]
  show "\<exists>ws \<in> shuffles (chunks BUF_SIZE f) (chunks BUF_SIZE g). xs = concat ws"
    using u(3) each [of 0] by (simp add: stream_def send_start_def)
next
  assume "\<exists>ws \<in> shuffles (chunks BUF_SIZE f) (chunks BUF_SIZE g). xs = concat ws"
  then obtain ws where ws: "ws \<in> shuffles (chunks BUF_SIZE f) (chunks BUF_SIZE g)" "xs = concat ws" by blast
  obtain s where s: "(send_step R)\<^sup>*\<^sup>* (send_start [(d, f), (d, g)]) s" "both_ready s d f g" "received s d = []"
    using both_open [OF assms] by blast
  obtain t where t: "(send_step R)\<^sup>*\<^sup>* s t" "both_ready t d [] []" "received t d = concat ws"
    using two_threads_chunks [OF ws(1) s(2)] s(3) by fastforce
  obtain u where "(send_step R)\<^sup>*\<^sup>* t u" "served R u" "received u d = received t d"
    using both_close [OF t(2) assms] by blast
  with s(1) t(1,3) ws(2) show "\<exists>u. (send_step R)\<^sup>*\<^sup>* (send_start [(d, f), (d, g)]) u \<and> served R u \<and> received u d = xs"
    by (metis rtranclp_trans)
qed

section \<open>Properties\<close>

text \<open>
  C16. The threads that send files, beside clients that open their FIFO and read (\<open>R\<close>) and clients
  that never open it.  Under every interleaving the number of steps is bounded and a run that
  cannot go on is one in which every thread with a reading client has written its file and
  closed, and every other thread waits in \<open>open\<close>; from every state such a state can be reached.
  Then, if the destinations are different, every reading client has received exactly its file
  and the others nothing.  When two threads serve the same client, what it can receive is every
  interleaving of the chunks of the two files, and nothing else.
\<close>

theorem send_files_streams:
  shows "((send_step R)\<^sup>*\<^sup>* (send_start js) s \<longrightarrow>
      (\<exists>t. (send_step R)\<^sup>*\<^sup>* s t \<and> served R t) \<and>
      ((\<nexists>t. send_step R s t) \<longrightarrow> served R s) \<and>
      (((send_step R) ^^ n) (send_start js) s \<longrightarrow> n \<le> send_rank (send_start js)) \<and>
      (served R s \<and> distinct (map fst js) \<longrightarrow>
        (\<forall>(d, f) \<in> set js. received s d = (if d \<in> R then f else [])))) \<and>
    (d \<in> R \<longrightarrow>
      (\<exists>u. (send_step R)\<^sup>*\<^sup>* (send_start [(d, f), (d, g)]) u \<and> served R u \<and> received u d = xs) \<longleftrightarrow>
      (\<exists>ws \<in> shuffles (chunks BUF_SIZE f) (chunks BUF_SIZE g). xs = concat ws))"
proof (intro conjI impI)
  assume run: "(send_step R)\<^sup>*\<^sup>* (send_start js) s"
  have inv: "send_inv R js s" by (rule send_run.reach_inv [OF refl run])
  show "\<exists>t. (send_step R)\<^sup>*\<^sup>* s t \<and> served R t" by (rule send_run.finishes_from [OF inv])
  show "\<nexists>t. send_step R s t \<Longrightarrow> served R s" using send_progress [OF inv] by blast
  show "((send_step R) ^^ n) (send_start js) s \<Longrightarrow> n \<le> send_rank (send_start js)"
    using send_run.run_length [OF _ send_inv_start] by fastforce
  show "served R s \<and> distinct (map fst js) \<Longrightarrow> \<forall>(d, f) \<in> set js. received s d = (if d \<in> R then f else [])"
    using served_received [OF inv] by blast
next
  assume "d \<in> R"
  then show "(\<exists>u. (send_step R)\<^sup>*\<^sup>* (send_start [(d, f), (d, g)]) u \<and> served R u \<and> received u d = xs) \<longleftrightarrow>
      (\<exists>ws \<in> shuffles (chunks BUF_SIZE f) (chunks BUF_SIZE g). xs = concat ws)"
    by (rule two_threads_received)
qed

theorem send_files_streams_witness:
  "(\<exists>t. (send_step {''x''})\<^sup>*\<^sup>* (send_start [(''x'', ''abc''), (''z'', ''de'')]) t \<and> served {''x''} t) \<and>
   (\<exists>u. (send_step {''x''})\<^sup>*\<^sup>* (send_start [(''x'', ''abc''), (''x'', ''de'')]) u \<and> served {''x''} u \<and>
     received u ''x'' = ''deabc'')"
  using send_files_streams [of "{''x''}" "[(''x'', ''abc''), (''z'', ''de'')]"
      "send_start [(''x'', ''abc''), (''z'', ''de'')]" 0 "''x''" "''abc''" "''de''" "''deabc''"]
  by (simp add: chunks_step [of 1024 "''abc''"] chunks_step [of 1024 "''de''"] BUF_SIZE_pos)

end
