(* ===== verification/Double.thy ===== *)
theory Double
  imports Prelude Complex_Main
begin

text \<open>
  The floating-point numbers of the numerical programs (\<open>monte_carlo\<close>, \<open>task_8\<close>): a
  \<open>double\<close> is the real number it stands for, and every operation is the exact one followed
  by \<open>rnd\<close>, rounding to 53 significant bits, to the nearest, ties to even.  Overflow and
  subnormal numbers are outside the model; a result that is not a number is an error.
  What the programs rely on is the locale \<open>rounding\<close>, interpreted on \<open>rnd\<close>.
\<close>

section \<open>Rounding to an integer\<close>

definition rne :: "real \<Rightarrow> int" where
  "rne y = (let f = \<lfloor>y\<rfloor>; d = y - of_int f
     in if d < 1/2 then f else if 1/2 < d then f + 1 else if even f then f else f + 1)"

lemma rne_int [simp]: "rne (of_int i) = i"
  by (simp add: rne_def)

lemma rne_between: "\<lfloor>y\<rfloor> \<le> rne y \<and> rne y \<le> \<lfloor>y\<rfloor> + 1"
  by (simp add: rne_def Let_def)

lemma rne_mono:
  assumes "x \<le> y"
  shows "rne x \<le> rne y"
proof (cases "\<lfloor>x\<rfloor> = \<lfloor>y\<rfloor>")
  case True
  with assms show ?thesis by (auto simp: rne_def Let_def)
next
  case False
  moreover have "\<lfloor>x\<rfloor> \<le> \<lfloor>y\<rfloor>" using assms by (rule floor_mono)
  ultimately have "\<lfloor>x\<rfloor> + 1 \<le> \<lfloor>y\<rfloor>" by linarith
  with rne_between [of x] rne_between [of y] show ?thesis by linarith
qed

lemma rne_minus: "rne (- y) = - rne y"
proof (cases "y = of_int \<lfloor>y\<rfloor>")
  case True
  then obtain i where "y = of_int i" by blast
  then show ?thesis by (metis of_int_minus rne_int)
next
  case False
  then have "of_int \<lfloor>y\<rfloor> < y" by linarith
  then have "\<lfloor>- y\<rfloor> = - \<lfloor>y\<rfloor> - 1" by linarith
  then show ?thesis by (auto simp: rne_def Let_def)
qed

lemma rne_le_int: "y \<le> of_int i \<Longrightarrow> rne y \<le> i"
  using rne_mono [of y "of_int i"] by simp

lemma rne_ge_int: "of_int i \<le> y \<Longrightarrow> i \<le> rne y"
  using rne_mono [of "of_int i" y] by simp

section \<open>Rounding to 53 bits\<close>

definition unit_exp :: "real \<Rightarrow> int" where
  "unit_exp x = \<lfloor>log 2 \<bar>x\<bar>\<rfloor> - 52"

definition rnd :: "real \<Rightarrow> real" where
  "rnd x = (if x = 0 then 0
     else of_int (rne (x / 2 powr of_int (unit_exp x))) * 2 powr of_int (unit_exp x))"

lemma rnd_0 [simp]: "rnd 0 = 0"
  by (simp add: rnd_def)

lemma unit_exp_minus [simp]: "unit_exp (- x) = unit_exp x"
  by (simp add: unit_exp_def)

lemma rnd_minus [simp]: "rnd (- x) = - rnd x"
  by (simp add: rnd_def rne_minus)

lemma unit_exp_bounds:
  assumes "0 < x"
  shows "2 powr (of_int (unit_exp x) + 52) \<le> x" "x < 2 powr (of_int (unit_exp x) + 53)"
proof -
  let ?l = "\<lfloor>log 2 x\<rfloor>"
  have l: "of_int ?l \<le> log 2 x" "log 2 x < of_int ?l + 1" by linarith+
  have "2 powr of_int ?l \<le> x" using assms by (intro iffD1 [OF le_log_iff]) simp_all
  moreover have "x < 2 powr (of_int ?l + 1)"
    using l(2) assms by (intro iffD1 [OF log_less_iff]) simp_all
  moreover have "of_int (unit_exp x) + (52 :: real) = of_int ?l"
    "of_int (unit_exp x) + (53 :: real) = of_int ?l + 1"
    using assms by (simp_all add: unit_exp_def)
  ultimately show "2 powr (of_int (unit_exp x) + 52) \<le> x" "x < 2 powr (of_int (unit_exp x) + 53)"
    by metis+
qed

lemma unit_exp_mono: "0 < x \<Longrightarrow> x \<le> y \<Longrightarrow> unit_exp x \<le> unit_exp y"
  by (simp add: unit_exp_def floor_mono)

text \<open>The rounded value stays in the binade, upper end included.\<close>

lemma rnd_binade:
  assumes "0 < x"
  shows "2 powr (of_int (unit_exp x) + 52) \<le> rnd x" "rnd x \<le> 2 powr (of_int (unit_exp x) + 53)"
proof -
  let ?u = "2 powr of_int (unit_exp x) :: real"
  have u: "0 < ?u" by simp
  have b: "2 ^ 52 * ?u \<le> x" "x < 2 ^ 53 * ?u"
    using unit_exp_bounds [OF assms] by (simp_all add: powr_add powr_numeral mult.commute)
  have "of_int (2 ^ 52) \<le> x / ?u" using b(1) u by (simp add: le_divide_eq)
  then have lo: "2 ^ 52 \<le> rne (x / ?u)" by (rule rne_ge_int)
  have "x / ?u \<le> of_int (2 ^ 53)" using b(2) u by (simp add: divide_le_eq)
  then have hi: "rne (x / ?u) \<le> 2 ^ 53" by (rule rne_le_int)
  have r: "rnd x = of_int (rne (x / ?u)) * ?u" using assms by (simp add: rnd_def)
  have "(2 ^ 52 :: real) \<le> of_int (rne (x / ?u))" using lo by (metis of_int_le_iff of_int_numeral of_int_power)
  then show "2 powr (of_int (unit_exp x) + 52) \<le> rnd x"
    using u by (simp add: r powr_add powr_numeral mult.commute)
  have "of_int (rne (x / ?u)) \<le> (2 ^ 53 :: real)" using hi by (metis of_int_le_iff of_int_numeral of_int_power)
  then show "rnd x \<le> 2 powr (of_int (unit_exp x) + 53)"
    using u by (simp add: r powr_add powr_numeral mult.commute)
qed

lemma rnd_pos_mono:
  assumes "0 < x" "x \<le> y"
  shows "rnd x \<le> rnd y"
proof (cases "unit_exp x = unit_exp y")
  case True
  have "x / 2 powr of_int (unit_exp x) \<le> y / 2 powr of_int (unit_exp x)"
    using assms(2) by (simp add: divide_right_mono)
  then have "rne (x / 2 powr of_int (unit_exp x)) \<le> rne (y / 2 powr of_int (unit_exp x))"
    by (rule rne_mono)
  then show ?thesis
    using True assms by (simp add: rnd_def mult_right_mono)
next
  case False
  then have "unit_exp x + 1 \<le> unit_exp y" using unit_exp_mono [OF assms] by linarith
  then have "of_int (unit_exp x) + 53 \<le> of_int (unit_exp y) + (52 :: real)" by linarith
  then have "2 powr (of_int (unit_exp x) + 53) \<le> 2 powr (of_int (unit_exp y) + (52 :: real))"
    by (simp only: powr_mono)
  moreover have "0 < y" using assms by linarith
  ultimately show ?thesis using rnd_binade(2) [OF assms(1)] rnd_binade(1) [of y] by linarith
qed

lemma rnd_nonneg: "0 \<le> x \<Longrightarrow> 0 \<le> rnd x"
  using rnd_binade(1) [of x] by (cases "x = 0") (auto intro: order_trans [rotated])

lemma rnd_mono: "x \<le> y \<Longrightarrow> rnd x \<le> rnd y"
proof -
  assume xy: "x \<le> y"
  consider "0 < x" | "x \<le> 0" "0 \<le> y" | "y < 0" by linarith
  then show ?thesis
  proof cases
    case 1
    then show ?thesis using xy by (rule rnd_pos_mono)
  next
    case 2
    have "rnd x \<le> 0" using rnd_nonneg [of "- x"] 2 by simp
    with rnd_nonneg [of y] 2 show ?thesis by simp
  next
    case 3
    then have "rnd (- y) \<le> rnd (- x)" using xy by (intro rnd_pos_mono) simp_all
    then show ?thesis by simp
  qed
qed

text \<open>A multiple of a power of two with at most 53 bits is not changed.\<close>

lemma rnd_exact:
  assumes "x = of_int m * 2 powr of_int e" "\<bar>m\<bar> \<le> 2 ^ 53"
  shows "rnd x = x"
proof (cases "m = 0")
  case True
  with assms show ?thesis by simp
next
  case False
  let ?u = "unit_exp x"
  have x0: "0 < \<bar>x\<bar>" using False assms(1) by simp
  have ax: "\<bar>x\<bar> = of_int \<bar>m\<bar> * 2 powr of_int e" by (simp add: assms(1) abs_mult)
  show ?thesis
  proof (cases "?u \<le> e")
    case True
    have "x / 2 powr of_int ?u = of_int m * 2 powr (of_int e - of_int ?u)"
      by (simp add: assms(1) powr_diff)
    also have "2 powr (of_int e - of_int ?u) = (2 :: real) ^ nat (e - ?u)"
      using True powr_realpow [of 2 "nat (e - ?u)"] by simp
    also have "of_int m * (2 :: real) ^ nat (e - ?u) = of_int (m * 2 ^ nat (e - ?u))" by simp
    finally have "rne (x / 2 powr of_int ?u) = m * 2 ^ nat (e - ?u)" by (simp only: rne_int)
    then show ?thesis
      using \<open>x / 2 powr of_int ?u = of_int m * 2 powr (of_int e - of_int ?u)\<close>
        \<open>2 powr (of_int e - of_int ?u) = (2 :: real) ^ nat (e - ?u)\<close> x0
      by (simp add: rnd_def) (simp add: field_simps)
  next
    case False
    then have "e + 1 \<le> ?u" by linarith
    then have "of_int e + 53 \<le> of_int ?u + (52 :: real)" by linarith
    then have "2 powr (of_int e + 53) \<le> 2 powr (of_int ?u + (52 :: real))" by (simp only: powr_mono)
    also have "\<dots> \<le> \<bar>x\<bar>" using unit_exp_bounds(1) [OF x0] by (simp add: unit_exp_def)
    finally have "2 ^ 53 * 2 powr of_int e \<le> of_int \<bar>m\<bar> * 2 powr (of_int e :: real)"
      by (simp add: ax powr_add powr_numeral mult.commute)
    then have "(2 ^ 53 :: real) \<le> of_int \<bar>m\<bar>" by simp
    then have "2 ^ 53 \<le> \<bar>m\<bar>" by (metis of_int_le_iff of_int_numeral of_int_power)
    with assms(2) have m: "\<bar>m\<bar> = 2 ^ 53" by linarith
    have "\<bar>x\<bar> = 2 powr (of_int e + 53)" by (simp add: ax m powr_add powr_numeral mult.commute)
    then have "log 2 \<bar>x\<bar> = of_int e + 53" by simp
    then have "?u = e + 1" by (simp add: unit_exp_def)
    then have "\<bar>x\<bar> / 2 powr of_int ?u = of_int (2 ^ 52)"
      using \<open>\<bar>x\<bar> = 2 powr (of_int e + 53)\<close> by (simp add: powr_diff [symmetric] powr_numeral)
    then have "rne (\<bar>x\<bar> / 2 powr of_int ?u) = 2 ^ 52" by (simp only: rne_int)
    moreover have "\<bar>x\<bar> = of_int (2 ^ 52) * 2 powr of_int ?u"
      using \<open>\<bar>x\<bar> / 2 powr of_int ?u = of_int (2 ^ 52)\<close> by (simp add: divide_eq_eq)
    moreover have "unit_exp \<bar>x\<bar> = ?u" by (simp add: unit_exp_def)
    ultimately have "rnd \<bar>x\<bar> = \<bar>x\<bar>"
      using x0 by (simp add: rnd_def)
    then show ?thesis by (cases "0 \<le> x") (simp_all add: abs_if split: if_splits)
  qed
qed

section \<open>What the programs rely on\<close>

text \<open>
  The laws of the rounding: monotone, and exact on the values that are representable.
\<close>

locale rounding =
  fixes round :: "real \<Rightarrow> real"
    and exact :: "real \<Rightarrow> bool"
  assumes round_mono: "x \<le> y \<Longrightarrow> round x \<le> round y"
    and round_exact: "exact x \<Longrightarrow> round x = x"
    and exact_round: "exact (round x)"
begin

lemma round_idem: "round (round x) = round x"
  by (rule round_exact) (rule exact_round)

lemma round_between: "exact a \<Longrightarrow> exact b \<Longrightarrow> a \<le> x \<Longrightarrow> x \<le> b \<Longrightarrow> a \<le> round x \<and> round x \<le> b"
  using round_mono [of a x] round_mono [of x b] by (simp add: round_exact)

end

definition is_double :: "real \<Rightarrow> bool" where
  "is_double x \<longleftrightarrow> rnd x = x"

lemma rnd_representation:
  obtains m where "rnd x = of_int m * 2 powr of_int (unit_exp x)" "\<bar>m\<bar> \<le> 2 ^ 53"
proof (cases "x = 0")
  case True
  then show ?thesis using that [of 0] by simp
next
  case False
  let ?m = "rne (x / 2 powr of_int (unit_exp x))"
  have r: "rnd x = of_int ?m * 2 powr of_int (unit_exp x)" using False by (simp add: rnd_def)
  have "0 < \<bar>x\<bar>" using False by simp
  then have "rnd \<bar>x\<bar> \<le> 2 powr (of_int (unit_exp x) + 53)"
    using rnd_binade(2) [of "\<bar>x\<bar>"] by (simp add: unit_exp_def)
  moreover have "rnd \<bar>x\<bar> = \<bar>rnd x\<bar>"
    using rnd_nonneg [of x] rnd_nonneg [of "- x"] by (cases "0 \<le> x") simp_all
  ultimately have "\<bar>of_int ?m\<bar> * 2 powr of_int (unit_exp x) \<le> 2 ^ 53 * 2 powr (of_int (unit_exp x) :: real)"
    by (simp add: r abs_mult powr_add powr_numeral mult.commute)
  then have "\<bar>of_int ?m\<bar> \<le> (2 ^ 53 :: real)" by simp
  then have "\<bar>?m\<bar> \<le> 2 ^ 53" by (metis of_int_abs of_int_le_iff of_int_numeral of_int_power)
  with r that show ?thesis by blast
qed

lemma is_double_rnd: "is_double (rnd x)"
  unfolding is_double_def by (rule rnd_representation [of x]) (rule rnd_exact)

interpretation dbl: rounding rnd is_double
  by unfold_locales (simp_all add: rnd_mono is_double_rnd, simp add: is_double_def)

lemma is_double_int: "\<bar>m\<bar> \<le> 2 ^ 53 \<Longrightarrow> is_double (of_int m)"
  unfolding is_double_def by (rule rnd_exact [of _ m 0]) simp_all

lemma is_double_nat: "n \<le> 2 ^ 53 \<Longrightarrow> is_double (of_nat n)"
  using is_double_int [of "int n"] by simp

lemma is_double_dyadic: "\<bar>m\<bar> \<le> 2 ^ 53 \<Longrightarrow> is_double (of_int m / 2 ^ k)"
  unfolding is_double_def
  by (rule rnd_exact [of _ m "- int k"]) (simp_all add: powr_minus powr_realpow divide_inverse)

lemma is_double_numeral:
  "is_double 0" "is_double 1" "numeral v \<le> (2 ^ 53 :: int) \<Longrightarrow> is_double (numeral v)"
  using is_double_int [of 0] is_double_int [of 1] is_double_int [of "numeral v"] by simp_all

lemma rnd_of_nat: "n \<le> 2 ^ 53 \<Longrightarrow> rnd (of_nat n) = of_nat n"
  using is_double_nat by (simp add: is_double_def)

text \<open>A power of two changes the exponent only.\<close>

lemma unit_exp_scale: "x \<noteq> 0 \<Longrightarrow> unit_exp (x * 2 powr of_int k) = unit_exp x + k"
  by (simp add: unit_exp_def abs_mult log_mult)

lemma rnd_scale: "rnd (x * 2 powr of_int k) = rnd x * 2 powr of_int k"
  by (simp add: rnd_def unit_exp_scale powr_add)

lemma is_double_divide_power: "is_double x \<Longrightarrow> is_double (x / 2 ^ k)"
  using rnd_scale [of x "- int k"]
  by (simp add: is_double_def powr_minus powr_realpow divide_inverse)

lemma is_double_minus: "is_double (- x) \<longleftrightarrow> is_double x"
  by (simp add: is_double_def)

text \<open>The error of one rounding is at most half a unit in the last place.\<close>

lemma rne_error: "\<bar>of_int (rne y) - y\<bar> \<le> 1 / 2"
  unfolding rne_def Let_def by (split if_split)+ linarith

lemma rnd_error: "\<bar>rnd x - x\<bar> \<le> \<bar>x\<bar> / 2 ^ 53"
proof (cases "x = 0")
  case False
  let ?u = "2 powr of_int (unit_exp x) :: real"
  have u: "0 < ?u" by simp
  have "unit_exp \<bar>x\<bar> = unit_exp x" by (simp add: unit_exp_def)
  then have "2 powr (of_int (unit_exp x) + 52) \<le> \<bar>x\<bar>"
    using unit_exp_bounds(1) [of "\<bar>x\<bar>"] False by simp
  then have b: "2 ^ 52 * ?u \<le> \<bar>x\<bar>" by (simp add: powr_add powr_numeral mult.commute)
  have "rnd x - x = (of_int (rne (x / ?u)) - x / ?u) * ?u"
    using False u by (simp add: rnd_def left_diff_distrib)
  then have "\<bar>rnd x - x\<bar> = \<bar>of_int (rne (x / ?u)) - x / ?u\<bar> * ?u" by (simp add: abs_mult)
  also have "\<dots> \<le> 1 / 2 * ?u" using rne_error u by (intro mult_right_mono) simp_all
  also have "\<dots> \<le> \<bar>x\<bar> / 2 ^ 53" using b by simp
  finally show ?thesis .
qed simp

section \<open>The type of the programs\<close>

text \<open>\<open>None\<close> is the value that is not a number: it absorbs every operation.\<close>

type_synonym double = "real option"

definition dbl_op :: "(real \<Rightarrow> real \<Rightarrow> real) \<Rightarrow> double \<Rightarrow> double \<Rightarrow> double" where
  "dbl_op f a b = (case (a, b) of (Some x, Some y) \<Rightarrow> Some (rnd (f x y)) | _ \<Rightarrow> None)"

abbreviation dbl_add :: "double \<Rightarrow> double \<Rightarrow> double" where
  "dbl_add \<equiv> dbl_op (+)"

text \<open>The running sum of a list, rounded after every addition.\<close>

definition dbl_sum :: "double \<Rightarrow> double list \<Rightarrow> double" where
  "dbl_sum = foldl dbl_add"

lemma dbl_op_simps [simp]:
  "dbl_op f None b = None" "dbl_op f a None = None" "dbl_op f (Some x) (Some y) = Some (rnd (f x y))"
  by (simp_all add: dbl_op_def split: option.split)

lemma dbl_sum_simps [simp]:
  "dbl_sum a [] = a" "dbl_sum a (x # xs) = dbl_sum (dbl_add a x) xs"
  by (simp_all add: dbl_sum_def)

lemma dbl_sum_append: "dbl_sum a (xs @ ys) = dbl_sum (dbl_sum a xs) ys"
  by (simp add: dbl_sum_def)

lemma dbl_sum_NaN: "None \<in> set xs \<or> a = None \<Longrightarrow> dbl_sum a xs = None"
  by (induction xs arbitrary: a) auto

lemma dbl_sum_nonneg:
  "\<forall>x \<in> set xs. \<exists>v. x = Some v \<and> 0 \<le> v \<Longrightarrow> 0 \<le> a \<Longrightarrow>
   \<exists>v. dbl_sum (Some a) xs = Some v \<and> 0 \<le> v"
  by (induction xs arbitrary: a) (auto simp: rnd_nonneg)

text \<open>No rounding takes place as long as the integers that are added stay below \<open>2^53\<close>.\<close>

lemma dbl_sum_ints:
  "\<forall>x \<in> set xs. 0 \<le> x \<Longrightarrow> 0 \<le> a \<Longrightarrow> a + sum_list xs \<le> 2 ^ 53 \<Longrightarrow>
   dbl_sum (Some (of_int a)) (map (\<lambda>x. Some (of_int x)) xs) = Some (of_int (a + sum_list xs))"
proof (induction xs arbitrary: a)
  case (Cons x xs)
  then have "0 \<le> sum_list xs" by (simp add: sum_list_nonneg)
  with Cons.prems have "is_double (of_int (a + x))" by (intro is_double_int) simp
  then have r: "rnd (of_int a + of_int x) = of_int (a + x)" by (simp add: is_double_def)
  show ?case using Cons.IH [of "a + x"] Cons.prems by (simp add: r add.assoc)
qed simp

end
