(* ===== verification/Decimal.thy ===== *)
theory Decimal
  imports CLib Double
begin

text \<open>
  The conversions between numbers and text that the programs use: \<open>atoi\<close>, \<open>%d\<close>,
  \<open>%lld\<close> and \<open>%lf\<close> in both directions.  What \<open>scanf\<close> reads from what \<open>printf\<close>
  printed is the integer itself, and the number rounded to six decimals.
  Outside the model: exponents, hexadecimal numbers, \<open>inf\<close> and \<open>nan\<close>.
\<close>

section \<open>Digits\<close>

definition digit :: "nat \<Rightarrow> char" where
  "digit d = char_of (48 + d)"

definition is_digit :: "char \<Rightarrow> bool" where
  "is_digit c \<longleftrightarrow> 48 \<le> (of_char c :: nat) \<and> (of_char c :: nat) \<le> 57"

definition digit_val :: "char \<Rightarrow> nat" where
  "digit_val c = of_char c - 48"

definition is_space :: "char \<Rightarrow> bool" where
  "is_space c \<longleftrightarrow> c = CHR '' '' \<or> 9 \<le> (of_char c :: nat) \<and> (of_char c :: nat) \<le> 13"

lemma digit_simps [simp]:
  assumes "d < 10"
  shows "is_digit (digit d)" "digit_val (digit d) = d"
  using assms by (simp_all add: is_digit_def digit_val_def digit_def)

lemma digit_not_special:
  assumes "is_digit c"
  shows "\<not> is_space c" "c \<noteq> CHR ''-''" "c \<noteq> CHR ''+''" "c \<noteq> CHR ''.''" "c \<noteq> NUL"
  using assms by (auto simp: is_digit_def is_space_def)

fun show_nat :: "nat \<Rightarrow> string" where
  "show_nat n = (if n < 10 then [digit n] else show_nat (n div 10) @ [digit (n mod 10)])"

declare show_nat.simps [simp del]

definition nat_of_digits :: "string \<Rightarrow> nat" where
  "nat_of_digits = foldl (\<lambda>a c. 10 * a + digit_val c) 0"

lemma nat_of_digits_simps [simp]:
  "nat_of_digits [] = 0" "nat_of_digits (s @ [c]) = 10 * nat_of_digits s + digit_val c"
  by (simp_all add: nat_of_digits_def)

lemma nat_of_digits_append:
  "nat_of_digits (s @ t) = nat_of_digits s * 10 ^ length t + nat_of_digits t"
proof (induction t rule: rev_induct)
  case (snoc c t)
  have "nat_of_digits (s @ t @ [c]) = 10 * nat_of_digits (s @ t) + digit_val c"
    using nat_of_digits_simps(2) [of "s @ t" c] by simp
  with snoc show ?case by simp
qed simp

lemma show_nat_digits: "c \<in> set (show_nat n) \<Longrightarrow> is_digit c"
proof (induction n rule: show_nat.induct)
  case (1 n)
  then show ?case by (cases "n < 10") (auto simp: show_nat.simps [of n])
qed

lemma show_nat_no_NUL: "NUL \<notin> set (show_nat n)"
  using show_nat_digits digit_not_special(5) by blast

lemma nat_of_show [simp]: "nat_of_digits (show_nat n) = n"
proof (induction n rule: show_nat.induct)
  case (1 n)
  show ?case
  proof (cases "n < 10")
    case True
    then show ?thesis using nat_of_digits_simps(2) [of "[]"] by (simp add: show_nat.simps [of n])
  next
    case False
    with 1 show ?thesis by (simp add: show_nat.simps [of n])
  qed
qed

lemma show_nat_not_Nil [simp]: "show_nat n \<noteq> []"
  by (simp add: show_nat.simps [of n])

lemma length_show_nat: "n < 10 ^ k \<Longrightarrow> 0 < k \<Longrightarrow> length (show_nat n) \<le> k"
proof (induction k arbitrary: n)
  case (Suc k)
  show ?case
  proof (cases "n < 10")
    case False
    then have "0 < k" using Suc.prems by (cases k) simp_all
    moreover have "n div 10 < 10 ^ k" using Suc.prems by (simp add: less_mult_imp_div_less mult.commute)
    ultimately have "length (show_nat (n div 10)) \<le> k" by (rule Suc.IH [rotated])
    with False show ?thesis by (simp add: show_nat.simps [of n])
  qed (simp add: show_nat.simps [of n])
qed simp

text \<open>\<open>%0kd\<close> of a number that is not negative.\<close>

definition pad0 :: "nat \<Rightarrow> nat \<Rightarrow> string" where
  "pad0 k n = replicate (k - length (show_nat n)) (digit 0) @ show_nat n"

lemma pad0_digits: "c \<in> set (pad0 k n) \<Longrightarrow> is_digit c"
  by (auto simp: pad0_def dest: show_nat_digits)

lemma nat_of_zeros [simp]: "nat_of_digits (replicate k (digit 0)) = 0"
proof (induction k)
  case (Suc k)
  have "replicate (Suc k) (digit 0) = replicate k (digit 0) @ [digit 0]"
    by (simp add: replicate_append_same)
  then show ?case by (simp add: Suc del: replicate.simps)
qed simp

lemma nat_of_pad0 [simp]: "nat_of_digits (pad0 k n) = n"
  by (simp add: pad0_def nat_of_digits_append)

lemma length_pad0: "n < 10 ^ k \<Longrightarrow> 0 < k \<Longrightarrow> length (pad0 k n) = k"
  using length_show_nat [of n k] by (simp add: pad0_def)

section \<open>Printing\<close>

definition show_int :: "int \<Rightarrow> string" where
  "show_int i = (if i < 0 then ''-'' else '''') @ show_nat (nat \<bar>i\<bar>)"

text \<open>\<open>%lf\<close>: six decimals, of the exact value to the nearest.\<close>

definition micros :: "real \<Rightarrow> nat" where
  "micros x = nat (rne (\<bar>x\<bar> * 10 ^ 6))"

definition show_lf :: "real \<Rightarrow> string" where
  "show_lf x = (if x < 0 then ''-'' else '''') @ show_nat (micros x div 10 ^ 6) @ ''.'' @
     pad0 6 (micros x mod 10 ^ 6)"

section \<open>Reading\<close>

definition skip_space :: "string \<Rightarrow> string" where
  "skip_space = dropWhile is_space"

text \<open>The optional sign: whether it is a minus, and the rest.\<close>

definition scan_sign :: "string \<Rightarrow> bool \<times> string" where
  "scan_sign s =
     (case s of c # r \<Rightarrow> if c = CHR ''-'' then (True, r) else if c = CHR ''+'' then (False, r) else (False, s)
      | [] \<Rightarrow> (False, s))"

text \<open>
  \<open>scanf\<close>'s \<open>%lld\<close> (and \<open>%d\<close>): the number and the rest of the input, \<open>None\<close> when no
  number is there.
\<close>

definition scan_int :: "string \<Rightarrow> (int \<times> string) option" where
  "scan_int s =
     (let (neg, r) = scan_sign (skip_space s); ds = takeWhile is_digit r
      in if ds = [] then None
         else Some (if neg then - int (nat_of_digits ds) else int (nat_of_digits ds), dropWhile is_digit r))"

text \<open>\<open>%lf\<close>: digits with at most one point, at least one digit, the nearest double.\<close>

definition scan_lf :: "string \<Rightarrow> (real \<times> string) option" where
  "scan_lf s =
     (let (neg, r) = scan_sign (skip_space s); ds = takeWhile is_digit r; r1 = dropWhile is_digit r;
          (fs, r2) = (case r1 of
              c # r' \<Rightarrow> if c = CHR ''.'' then (takeWhile is_digit r', dropWhile is_digit r') else ([], r1)
            | [] \<Rightarrow> ([], r1));
          v = rnd (of_nat (nat_of_digits (ds @ fs)) / 10 ^ length fs)
      in if ds = [] \<and> fs = [] then None else Some (if neg then - v else v, r2))"

text \<open>\<open>atoi\<close>: 0 when no number is there; a number outside \<open>int\<close> has no defined value.\<close>

definition atoi :: "string \<Rightarrow> int result" where
  "atoi s = (case scan_int s of
      None \<Rightarrow> Inr 0
    | Some (i, r) \<Rightarrow> if - (2 ^ 31) \<le> i \<and> i < 2 ^ 31 then Inr i else Inl Overflow)"

lemma takeWhile_digits:
  assumes "\<And>c. c \<in> set s \<Longrightarrow> is_digit c" "r = [] \<or> \<not> is_digit (hd r)"
  shows "takeWhile is_digit (s @ r) = s" "dropWhile is_digit (s @ r) = r"
  using assms by (cases r; simp add: takeWhile_append2 dropWhile_append2)+

lemma skip_space_idem: "s = [] \<or> \<not> is_space (hd s) \<Longrightarrow> skip_space s = s"
  by (cases s) (simp_all add: skip_space_def)

lemma skip_space_Cons [simp]: "is_space c \<Longrightarrow> skip_space (c # s) = skip_space s"
  by (simp add: skip_space_def)

lemma space_simps [simp]:
  "is_space CHR '' ''" "\<not> is_space CHR ''-''" "\<not> is_digit CHR '' ''" "\<not> is_digit CHR ''.''"
  "is_space (CHR 0x0A)" "\<not> is_digit (CHR 0x0A)"
  by (simp_all add: is_space_def is_digit_def)

lemma scan_sign_digits:
  assumes "s \<noteq> []" "\<And>c. c \<in> set s \<Longrightarrow> is_digit c"
  shows "scan_sign (skip_space ((if b then ''-'' else '''') @ s @ r)) = (b, s @ r)"
proof -
  obtain c s' where s: "s = c # s'" using assms(1) by (cases s) auto
  then have "is_digit c" using assms(2) by simp
  then show ?thesis
    using digit_not_special [of c] by (simp add: s scan_sign_def skip_space_idem)
qed

lemma scan_int_show:
  assumes "r = [] \<or> \<not> is_digit (hd r)"
  shows "scan_int (show_int i @ r) = Some (i, r)"
proof -
  define n where "n = show_nat (nat \<bar>i\<bar>)"
  have "scan_sign (skip_space (show_int i @ r)) = (i < 0, n @ r)"
    using scan_sign_digits [of n "i < 0" r] show_nat_digits by (simp add: show_int_def n_def)
  moreover have "takeWhile is_digit (n @ r) = n" "dropWhile is_digit (n @ r) = r"
    using takeWhile_digits [OF show_nat_digits assms] by (simp_all add: n_def)
  moreover have "n \<noteq> []" "nat_of_digits n = nat \<bar>i\<bar>" by (simp_all add: n_def)
  ultimately show ?thesis by (simp add: scan_int_def)
qed

lemma atoi_show: "- (2 ^ 31) \<le> i \<Longrightarrow> i < 2 ^ 31 \<Longrightarrow> atoi (show_int i) = Inr i"
  using scan_int_show [of "[]" i] by (simp add: atoi_def)

text \<open>What arrives at the other end of \<open>%lf\<close>.\<close>

definition six_decimals :: "real \<Rightarrow> real" where
  "six_decimals x = (if x < 0 then - rnd (of_nat (micros x) / 10 ^ 6) else rnd (of_nat (micros x) / 10 ^ 6))"

lemma scan_lf_show:
  assumes "r = [] \<or> \<not> is_digit (hd r)"
  shows "scan_lf (show_lf x @ r) = Some (six_decimals x, r)"
proof -
  let ?n = "show_nat (micros x div 10 ^ 6)" and ?f = "pad0 6 (micros x mod 10 ^ 6)"
  have l: "length ?f = 6" by (rule length_pad0) simp_all
  have "scan_sign (skip_space (show_lf x @ r)) = (x < 0, ?n @ ''.'' @ ?f @ r)"
    using scan_sign_digits [of ?n "x < 0" "''.'' @ ?f @ r"] show_nat_digits
    by (simp add: show_lf_def)
  moreover have "takeWhile is_digit (?n @ ''.'' @ ?f @ r) = ?n"
    "dropWhile is_digit (?n @ ''.'' @ ?f @ r) = ''.'' @ ?f @ r"
    using takeWhile_digits [of ?n "''.'' @ ?f @ r"] show_nat_digits by simp_all
  moreover have "takeWhile is_digit (?f @ r) = ?f" "dropWhile is_digit (?f @ r) = r"
    using takeWhile_digits [OF pad0_digits assms] by simp_all
  moreover have "nat_of_digits (?n @ ?f) = micros x"
    by (simp only: nat_of_digits_append nat_of_show nat_of_pad0 l div_mult_mod_eq)
  ultimately have "scan_lf (show_lf x @ r) =
      Some (if x < 0 then - rnd (of_nat (micros x) / 10 ^ length ?f)
            else rnd (of_nat (micros x) / 10 ^ length ?f), r)"
    by (simp add: scan_lf_def)
  then show ?thesis by (simp only: l six_decimals_def)
qed

text \<open>A number with at most six decimals arrives unchanged.\<close>

lemma six_decimals_exact:
  assumes "is_double x" "\<bar>x\<bar> * 10 ^ 6 = of_nat n"
  shows "six_decimals x = x"
proof -
  have "micros x = n" unfolding micros_def assms(2) using rne_int [of "int n"] by simp
  then have m: "of_nat (micros x) / 10 ^ 6 = \<bar>x\<bar>" using assms(2) by (simp add: field_simps)
  show ?thesis unfolding six_decimals_def m
    using assms(1) by (cases "x < 0") (simp_all add: is_double_def)
qed

lemma six_decimals_0 [simp]: "six_decimals 0 = 0"
  using six_decimals_exact [of 0 0] is_double_numeral(1) by simp

text \<open>Any other number is off by half a millionth and one rounding at most.\<close>

lemma six_decimals_error:
  "\<bar>six_decimals x - x\<bar> \<le> 1 / (2 * 10 ^ 6) + (\<bar>x\<bar> + 1) / 2 ^ 53"
proof -
  let ?q = "of_nat (micros x) / 10 ^ 6 :: real"
  have "0 \<le> rne (\<bar>x\<bar> * 10 ^ 6)" using rne_mono [of 0 "\<bar>x\<bar> * 10 ^ 6"] rne_int [of 0] by simp
  then have "of_nat (micros x) = (of_int (rne (\<bar>x\<bar> * 10 ^ 6)) :: real)" by (simp add: micros_def)
  then have "\<bar>of_nat (micros x) - \<bar>x\<bar> * 10 ^ 6\<bar> \<le> 1 / 2" using rne_error by simp
  then have q: "\<bar>?q - \<bar>x\<bar>\<bar> \<le> 1 / (2 * 10 ^ 6)" by (simp add: abs_le_iff field_simps)
  have "\<bar>rnd ?q - ?q\<bar> \<le> ?q / 2 ^ 53" using rnd_error [of ?q] by simp
  also have "?q \<le> \<bar>x\<bar> + 1" using q unfolding abs_le_iff by simp
  then have "?q / 2 ^ 53 \<le> (\<bar>x\<bar> + 1) / 2 ^ 53" by (rule divide_right_mono) simp
  finally have "\<bar>rnd ?q - \<bar>x\<bar>\<bar> \<le> 1 / (2 * 10 ^ 6) + (\<bar>x\<bar> + 1) / 2 ^ 53" using q by linarith
  then show ?thesis by (cases "x < 0") (simp_all add: six_decimals_def abs_minus_commute)
qed

section \<open>Words\<close>

text \<open>\<open>scanf("%s", buf)\<close>: the next word; nothing is stored when there is none.\<close>

definition scan_to :: "bytes \<Rightarrow> bytes \<Rightarrow> (bytes \<times> bytes) result" where
  "scan_to buf inp =
     (let w = takeWhile (\<lambda>c. \<not> is_space c) (skip_space inp);
          rest = dropWhile (\<lambda>c. \<not> is_space c) (skip_space inp)
      in if w = [] then Inr (buf, rest)
         else bindS (poke buf 0 (lit w)) (\<lambda>b. Inr (b, rest)))"

text \<open>The words of a text: what repeated calls deliver.\<close>

lemma word_shortens:
  "takeWhile (\<lambda>c. \<not> is_space c) (skip_space s) \<noteq> [] \<Longrightarrow>
   length (dropWhile (\<lambda>c. \<not> is_space c) (skip_space s)) < length s"
proof -
  let ?s = "skip_space s" and ?w = "takeWhile (\<lambda>c. \<not> is_space c) (skip_space s)"
  assume "?w \<noteq> []"
  then have "0 < length ?w" by simp
  moreover have "length ?w + length (dropWhile (\<lambda>c. \<not> is_space c) ?s) = length ?s"
    by (metis length_append takeWhile_dropWhile_id)
  moreover have "length ?s \<le> length s" by (simp add: skip_space_def length_dropWhile_le)
  ultimately show ?thesis by linarith
qed

function text_words :: "string \<Rightarrow> string list" where
  "text_words s =
     (let w = takeWhile (\<lambda>c. \<not> is_space c) (skip_space s)
      in if w = [] then [] else w # text_words (dropWhile (\<lambda>c. \<not> is_space c) (skip_space s)))"
  by pat_completeness auto
termination
  by (relation "measure length") (simp_all add: word_shortens)

declare text_words.simps [simp del]

lemma scan_to_word:
  assumes "text_words inp = w # ws" "length w < length buf"
  obtains rest where "scan_to buf inp = Inr (w @ NUL # drop (Suc (length w)) buf, rest)" "text_words rest = ws"
proof -
  let ?w = "takeWhile (\<lambda>c. \<not> is_space c) (skip_space inp)"
    and ?r = "dropWhile (\<lambda>c. \<not> is_space c) (skip_space inp)"
  have ne: "?w \<noteq> []" using assms(1) by (subst (asm) text_words.simps) (auto simp: Let_def split: if_splits)
  then have w: "w = ?w" "ws = text_words ?r"
    using assms(1) by (subst (asm) text_words.simps; simp add: Let_def)+
  have "scan_to buf inp = Inr (w @ NUL # drop (Suc (length w)) buf, ?r)"
    using ne assms(2) unfolding w(1) by (simp add: scan_to_def Let_def poke_def Suc_le_eq)
  with w(2) that show ?thesis by blast
qed

lemma scan_to_end:
  assumes "text_words inp = []"
  obtains rest where "scan_to buf inp = Inr (buf, rest)" "text_words rest = []"
proof -
  let ?r = "dropWhile (\<lambda>c. \<not> is_space c) (skip_space inp)"
  have w: "takeWhile (\<lambda>c. \<not> is_space c) (skip_space inp) = []"
    using assms by (subst (asm) text_words.simps) (auto simp: Let_def split: if_splits)
  have "skip_space inp = [] \<or> is_space (hd (skip_space inp))"
    using w by (cases "skip_space inp") (auto split: if_splits)
  then have "skip_space inp = []" using hd_dropWhile [of is_space inp] by (auto simp: skip_space_def)
  then have "?r = []" by simp
  moreover have "text_words [] = []" by (subst text_words.simps) (simp add: skip_space_def)
  moreover have "scan_to buf inp = Inr (buf, ?r)" unfolding scan_to_def Let_def w by simp
  ultimately show ?thesis using that by metis
qed

end
