(* ===== verification/MonteCarlo.thy ===== *)
theory MonteCarlo
  imports Decimal Channel "HOL-Library.Word"
begin

text \<open>
  The Monte Carlo integration (\<open>monte_carlo/monte_carlo.c\<close>, and the version the worker of
  \<open>task_8\<close> links): \<open>mc_args\<close> and \<open>main_args\<close> cut the interval into one slice for each
  thread, \<open>square_of_one_square\<close> is the thread function up to the lock, \<open>mc_step\<close> the
  interleaving of the threads and of the main thread on \<open>res_square\<close> and its mutex, which
  refines an accumulator (\<open>acc_step\<close>) to which each thread adds its share in one step.
  The C library's \<open>rand_r\<close> is a parameter.
\<close>

section \<open>The slices\<close>

record Task =
  tx1 :: real
  tx2 :: real
  ty1 :: real
  ty2 :: real
  num_of_points :: int

definition NUM_PTS :: int where
  "NUM_PTS = 100000000"

definition slice_edge :: "real \<Rightarrow> real \<Rightarrow> int \<Rightarrow> int \<Rightarrow> real" where
  "slice_edge a b n i = rnd (rnd (rnd (rnd (b - a) / of_int n) * of_int i) + a)"

definition thread_args :: "Task \<Rightarrow> int \<Rightarrow> int \<Rightarrow> real list" where
  "thread_args t n i =
     [slice_edge (tx1 t) (tx2 t) n i, ty1 t, slice_edge (tx1 t) (tx2 t) n (i + 1), ty2 t,
      rnd (rnd (of_int (num_of_points t)) / of_int n)]"

text \<open>The arrays of \<open>n_threads\<close> elements must have at least one.\<close>

definition mc_args :: "Task \<Rightarrow> int \<Rightarrow> real list list result" where
  "mc_args t n = (if n \<le> 0 then Inl NegativeSize else Inr (map (\<lambda>i. thread_args t n (int i)) [0..<nat n]))"

text \<open>
  The program on its own takes the number of threads from the command line; a missing
  argument is reported, and then used.
\<close>

definition main_args :: "string list \<Rightarrow> real list list result" where
  "main_args argv = (case argv of
      a0 # a1 # r \<Rightarrow> bindS (atoi a1) (\<lambda>n.
        if n \<le> 0 then Inl NegativeSize
        else Inr (map (\<lambda>i. [slice_edge 0 3 n (int i), 0, slice_edge 0 3 n (int i + 1), 3,
                            rnd (of_int NUM_PTS / of_int n)]) [0..<nat n]))
    | _ \<Rightarrow> Inl NullDeref)"

definition default_task :: Task where
  "default_task = \<lparr>tx1 = 0, tx2 = 3, ty1 = 0, ty2 = 3, num_of_points = NUM_PTS\<rparr>"

lemma slice_edge_0: "is_double a \<Longrightarrow> slice_edge a b n 0 = a"
  by (simp add: slice_edge_def is_double_def)

lemma slice_edge_mono:
  assumes "a \<le> b" "0 < n" "i \<le> j"
  shows "slice_edge a b n i \<le> slice_edge a b n j"
proof -
  have "0 \<le> rnd (rnd (b - a) / of_int n)" using assms by (simp add: rnd_nonneg)
  then show ?thesis
    using assms by (simp add: slice_edge_def rnd_mono mult_left_mono)
qed

text \<open>With a power of two as the number of threads nothing is rounded at the end.\<close>

lemma slice_edge_last:
  assumes "is_double b" "is_double (b - a)" "n = 2 ^ k"
  shows "slice_edge a b n n = b"
proof -
  have "rnd (rnd (b - a) / of_int n) = (b - a) / of_int n"
    using is_double_divide_power [OF assms(2), of k] assms by (simp add: is_double_def)
  then show ?thesis using assms by (simp add: slice_edge_def is_double_def)
qed

lemma mc_args_nth:
  assumes "mc_args t n = Inr args"
  shows "0 < n" "length args = nat n" "i < nat n \<Longrightarrow> args ! i = thread_args t n (int i)"
  using assms by (auto simp: mc_args_def split: if_splits)

lemma slices_tile_parts:
  assumes "is_double (tx1 t)" "is_double (tx2 t)" "is_double (tx2 t - tx1 t)" "tx1 t \<le> tx2 t"
    and "mc_args t n = Inr args"
  shows "length args = nat n" "args ! 0 ! 0 = tx1 t"
    "\<forall>i < nat n. args ! i ! 0 \<le> args ! i ! 2 \<and> args ! i ! 1 = ty1 t \<and> args ! i ! 3 = ty2 t"
    "\<forall>i. i + 1 < nat n \<longrightarrow> args ! i ! 2 = args ! (i + 1) ! 0"
    "n = 2 ^ k \<longrightarrow> args ! (nat n - 1) ! 2 = tx2 t"
proof -
  note nth = mc_args_nth [OF assms(5)]
  show "length args = nat n" by (rule nth)
  show "args ! 0 ! 0 = tx1 t"
    using nth(1) nth(3) [of 0] by (simp add: thread_args_def slice_edge_0 assms(1))
  show "\<forall>i < nat n. args ! i ! 0 \<le> args ! i ! 2 \<and> args ! i ! 1 = ty1 t \<and> args ! i ! 3 = ty2 t"
    using nth(1) assms(4) by (simp add: nth(3) thread_args_def slice_edge_mono)
  show "\<forall>i. i + 1 < nat n \<longrightarrow> args ! i ! 2 = args ! (i + 1) ! 0"
    by (simp add: nth(3) thread_args_def add.commute)
  show "n = 2 ^ k \<longrightarrow> args ! (nat n - 1) ! 2 = tx2 t"
    using nth(1) nth(3) [of "nat n - 1"] slice_edge_last [OF assms(2,3), of n k]
    by (auto simp: thread_args_def)
qed


lemma is_double_3: "is_double 0" "is_double 1" "is_double 3"
  using is_double_numeral(1,2) is_double_numeral(3) [of "num.Bit1 num.One"] by simp_all


text \<open>
  Started alone with a number as its argument, the program computes the same slices as
  the worker for the square from 0 to 3 with \<open>NUM_PTS\<close> points; without an argument it
  passes the null pointer to \<open>atoi\<close>.
\<close>

theorem standalone_slices:
  assumes "- (2 ^ 31) \<le> n" "n < 2 ^ 31"
  shows "main_args [prog, show_int n] = mc_args default_task n" "main_args [prog] = Inl NullDeref"
proof -
  have "rnd (of_int NUM_PTS) = of_int NUM_PTS"
    using is_double_int [of NUM_PTS] by (simp add: is_double_def NUM_PTS_def)
  then show "main_args [prog, show_int n] = mc_args default_task n"
    using atoi_show [OF assms]
    by (simp add: main_args_def mc_args_def thread_args_def default_task_def)
  show "main_args [prog] = Inl NullDeref" by (simp add: main_args_def)
qed

theorem standalone_slices_witness:
  "main_args [''mc'', show_int 4] = mc_args default_task 4"
  by (rule standalone_slices) simp_all

section \<open>A thread's share\<close>

text \<open>
  \<open>rr\<close> is \<open>rand_r\<close>: the random number and the new state, from the old state.  A
  coordinate is drawn by one call, a point by two.
\<close>

definition RAND_MAX :: nat where
  "RAND_MAX = 2147483647"

type_synonym rand = "32 word \<Rightarrow> nat \<times> 32 word"

definition draw :: "rand \<Rightarrow> real \<Rightarrow> real \<Rightarrow> 32 word \<Rightarrow> real \<times> 32 word" where
  "draw rr a b seed =
     (let (r, seed') = rr seed
      in (rnd (a + rnd (rnd (of_nat r / of_nat RAND_MAX) * rnd (b - a))), seed'))"

definition func :: "real \<Rightarrow> real" where
  "func x = x"

fun square_loop :: "rand \<Rightarrow> real list \<Rightarrow> nat \<Rightarrow> 32 word \<Rightarrow> real \<Rightarrow> real" where
  "square_loop rr d 0 seed square = square"
| "square_loop rr d (Suc k) seed square =
     (let (x, seed1) = draw rr (d ! 0) (d ! 2) seed;
          (y, seed2) = draw rr (d ! 1) (d ! 3) seed1
      in square_loop rr d k seed2 (if y < func x then rnd (square + 1) else square))"

text \<open>The cast to \<open>long long\<close> cuts towards zero; the counter of the loop is an \<open>int\<close>.\<close>

definition to_long :: "real \<Rightarrow> int result" where
  "to_long x = (let n = if x < 0 then - \<lfloor>- x\<rfloor> else \<lfloor>x\<rfloor>
     in if - (2 ^ 63) \<le> n \<and> n < 2 ^ 63 then Inr n else Inl Overflow)"

definition square_of_one_square :: "rand \<Rightarrow> 32 word \<Rightarrow> real list \<Rightarrow> double result" where
  "square_of_one_square rr now d = bindS (to_long (d ! 4)) (\<lambda>n.
     if 2 ^ 31 - 1 < n then Inl Overflow
     else let square = square_loop rr d (nat n) now 0
       in Inr (if n = 0 then None
               else Some (rnd (rnd (rnd (square / rnd (of_int n)) * rnd (d ! 2 - d ! 0)) * rnd (d ! 3 - d ! 1)))))"

text \<open>The points a thread draws, and how many of them lie under the curve.\<close>

fun samples :: "rand \<Rightarrow> real list \<Rightarrow> nat \<Rightarrow> 32 word \<Rightarrow> (real \<times> real) list" where
  "samples rr d 0 seed = []"
| "samples rr d (Suc k) seed =
     (let (x, seed1) = draw rr (d ! 0) (d ! 2) seed;
          (y, seed2) = draw rr (d ! 1) (d ! 3) seed1
      in (x, y) # samples rr d k seed2)"

definition hits :: "rand \<Rightarrow> real list \<Rightarrow> nat \<Rightarrow> 32 word \<Rightarrow> nat" where
  "hits rr d k seed = length (filter (\<lambda>(x, y). y < x) (samples rr d k seed))"

lemma length_samples [simp]: "length (samples rr d k seed) = k"
  by (induction k arbitrary: seed) (simp_all split: prod.split)

lemma hits_le: "hits rr d k seed \<le> k"
  using length_filter_le [of "\<lambda>(x, y). y < x" "samples rr d k seed"] by (simp add: hits_def)

lemma square_loop_hits:
  "m + k \<le> 2 ^ 53 \<Longrightarrow> square_loop rr d k seed (of_nat m) = of_nat (m + hits rr d k seed)"
proof (induction k arbitrary: seed m)
  case (Suc k)
  obtain x s1 where x: "draw rr (d ! 0) (d ! 2) seed = (x, s1)" by force
  obtain y s2 where y: "draw rr (d ! Suc 0) (d ! 3) s1 = (y, s2)" by force
  have h: "hits rr d (Suc k) seed = (if y < x then 1 else 0) + hits rr d k s2"
    by (simp add: hits_def x y)
  show ?case
  proof (cases "y < x")
    case True
    have "rnd (of_nat m + 1) = of_nat (m + 1)"
      using rnd_of_nat [of "m + 1"] Suc.prems by (simp add: add.commute)
    then have "square_loop rr d (Suc k) seed (of_nat m) = square_loop rr d k s2 (of_nat (m + 1))"
      using True by (simp add: x y func_def)
    then show ?thesis using True Suc.IH [of "m + 1" s2] Suc.prems by (simp add: h)
  next
    case False
    then show ?thesis using Suc.IH [of m s2] Suc.prems by (simp add: x y h func_def)
  qed
qed (simp add: hits_def)

lemma square_value:
  assumes "to_long (d ! 4) = Inr (int n)" "0 < n" "n < 2 ^ 31"
  shows "square_of_one_square rr now d =
    Inr (Some (rnd (rnd (rnd (of_nat (hits rr d n now) / of_nat n) * rnd (d ! 2 - d ! 0)) * rnd (d ! 3 - d ! 1))))"
proof -
  have "square_loop rr d n now 0 = of_nat (hits rr d n now)"
    using square_loop_hits [of 0 n rr d now] assms by simp
  moreover have "rnd (of_nat n) = of_nat n" using assms by (intro rnd_of_nat) simp
  ultimately show ?thesis using assms by (simp add: square_of_one_square_def)
qed

text \<open>
  C24. A thread's share is the fraction of its points under the curve times the area of its
  slice: no count is lost to rounding, whatever \<open>rand_r\<close> returns.
\<close>

theorem square_counts_hits:
  assumes "to_long (d ! 4) = Inr (int n)" "0 < n" "n < 2 ^ 31"
  shows "length (samples rr d n now) = n \<and> square_of_one_square rr now d =
      Inr (Some (rnd (rnd (rnd (of_nat (length (filter (\<lambda>(x, y). y < x) (samples rr d n now))) / of_nat n)
        * rnd (d ! 2 - d ! 0)) * rnd (d ! 3 - d ! 1))))"
  using square_value [OF assms] by (simp add: hits_def)

lemma to_long_nat: "n < 2 ^ 63 \<Longrightarrow> to_long (of_nat n) = Inr (int n)"
  by (simp add: to_long_def)

theorem square_counts_hits_witness:
  "square_of_one_square (\<lambda>s. (0, s)) 0 [0, 0, 1, 1, 1] = Inr (Some 0)"
proof -
  have l: "to_long ([0, 0, 1, 1, 1] ! 4) = Inr (int 1)" using to_long_nat [of 1] by simp
  have "samples (\<lambda>s. (0, s)) [0, 0, 1, 1, 1] 1 0 = [(0, 0)]" by (simp add: draw_def)
  with square_counts_hits [OF l, of "\<lambda>s. (0, s)" 0] show ?thesis by simp
qed

lemma fraction_bounds:
  "r \<le> m \<Longrightarrow> 0 < m \<Longrightarrow> 0 \<le> rnd (of_nat r / of_nat m) \<and> rnd (of_nat r / of_nat m) \<le> 1"
  by (rule dbl.round_between) (simp_all add: is_double_3)

lemma scaled_bounds:
  assumes "0 \<le> q" "q \<le> 1" "0 \<le> w" "is_double w"
  shows "0 \<le> rnd (q * w)" "rnd (q * w) \<le> w"
proof -
  have "q * w \<le> w" using assms by (simp add: mult_left_le_one_le)
  then show "0 \<le> rnd (q * w)" "rnd (q * w) \<le> w"
    using dbl.round_between [of 0 w "q * w"] assms by (simp_all add: is_double_3)
qed

text \<open>
  With \<open>rand_r\<close> between 0 and \<open>RAND_MAX\<close> a coordinate lies between the lower edge and
  the upper edge as the program computes it, \<open>x1 + (x2 - x1)\<close>; that is \<open>x2\<close> when the
  difference is exact.
\<close>

theorem draw_bounds:
  assumes "\<And>s. fst (rr s) \<le> RAND_MAX" "is_double a" "is_double b" "a \<le> b"
    and "draw rr a b seed = (x, seed')"
  shows "a \<le> x" "x \<le> rnd (a + rnd (b - a))" "is_double (b - a) \<Longrightarrow> x \<le> b"
proof -
  obtain r where r: "rr seed = (r, seed')" "x = rnd (a + rnd (rnd (of_nat r / of_nat RAND_MAX) * rnd (b - a)))"
    using assms(5) by (auto simp: draw_def split: prod.splits)
  have "r \<le> RAND_MAX" using assms(1) [of seed] r(1) by simp
  then have q: "0 \<le> rnd (of_nat r / of_nat RAND_MAX)" "rnd (of_nat r / of_nat RAND_MAX) \<le> 1"
    using fraction_bounds [of r RAND_MAX] by (simp_all add: RAND_MAX_def)
  note w = scaled_bounds [OF q rnd_nonneg is_double_rnd, of "b - a"]
  show "a \<le> x"
    using rnd_mono [of a "a + rnd (rnd (of_nat r / of_nat RAND_MAX) * rnd (b - a))"] w(1) assms(2,4)
    by (simp add: r(2) is_double_def)
  show u: "x \<le> rnd (a + rnd (b - a))"
    using w(2) assms(4) by (simp add: r(2) rnd_mono)
  show "is_double (b - a) \<Longrightarrow> x \<le> b" using u assms(3) by (simp add: is_double_def)
qed

theorem draw_bounds_witness:
  "\<exists>x s'. draw (\<lambda>s. (unat s mod 2147483648, s * 5 + 3)) 0 3 7 = (x, s') \<and> 0 \<le> x \<and> x \<le> 3"
proof -
  let ?rr = "\<lambda>s :: 32 word. (unat s mod 2147483648, s * 5 + 3)"
  obtain x s' where d: "draw ?rr 0 3 7 = (x, s')" by force
  have "\<And>s. fst (?rr s) \<le> RAND_MAX" by (simp add: RAND_MAX_def less_Suc_eq_le [symmetric])
  then have "0 \<le> x" "x \<le> 3"
    using draw_bounds(1,3) [of ?rr 0 3 7 x s'] d by (simp_all add: is_double_3)
  with d show ?thesis by blast
qed

lemma square_bounds:
  assumes "to_long (d ! 4) = Inr (int n)" "0 < n" "n < 2 ^ 31" "d ! 0 \<le> d ! 2" "d ! 1 \<le> d ! 3"
  obtains s where "square_of_one_square rr now d = Inr (Some s)"
    "0 \<le> s" "s \<le> rnd (rnd (d ! 2 - d ! 0) * rnd (d ! 3 - d ! 1))"
proof -
  let ?q = "rnd (of_nat (hits rr d n now) / of_nat n)"
  have q: "0 \<le> ?q" "?q \<le> 1" using fraction_bounds [OF hits_le assms(2)] by simp_all
  have w: "0 \<le> rnd (d ! 2 - d ! 0)" "0 \<le> rnd (d ! 3 - d ! 1)" using assms by (simp_all add: rnd_nonneg)
  note p = scaled_bounds [OF q w(1) is_double_rnd]
  have "0 \<le> rnd (rnd (?q * rnd (d ! 2 - d ! 0)) * rnd (d ! 3 - d ! 1))"
    using p(1) w(2) by (simp add: rnd_nonneg)
  moreover have "rnd (rnd (?q * rnd (d ! 2 - d ! 0)) * rnd (d ! 3 - d ! 1))
      \<le> rnd (rnd (d ! 2 - d ! 0) * rnd (d ! 3 - d ! 1))"
    by (rule rnd_mono) (rule mult_right_mono [OF p(2) w(2)])
  ultimately show ?thesis using that square_value [OF assms(1-3)] by blast
qed

lemma no_points: "to_long (d ! 4) = Inr 0 \<Longrightarrow> square_of_one_square rr now d = Inr None"
  by (simp add: square_of_one_square_def)

section \<open>The threads\<close>

text \<open>
  \<open>TRun\<close>: created, computing its share; \<open>TLock\<close>: in front of \<open>pthread_mutex_lock\<close>; then
  \<open>res_square += square\<close> as a load and a store.  \<open>work i\<close> is the share of thread \<open>i\<close>.
\<close>

datatype thread_pc = TNew | TRun | TLock | TLoad | TStore double | TUnlock | TDone

datatype main_pc = MCreate nat | MJoin nat | MRet double

record mc =
  res_square :: double
  owner :: "nat option"
  main_at :: main_pc
  threads :: "thread_pc list"

definition mc_init :: "nat \<Rightarrow> mc" where
  "mc_init n = \<lparr>res_square = Some 0, owner = None, main_at = MCreate 0, threads = replicate n TNew\<rparr>"

abbreviation pc_at :: "mc \<Rightarrow> nat \<Rightarrow> thread_pc \<Rightarrow> bool" where
  "pc_at s i p \<equiv> i < length (threads s) \<and> threads s ! i = p"

definition goto :: "mc \<Rightarrow> nat \<Rightarrow> thread_pc \<Rightarrow> mc" where
  "goto s i p = s\<lparr>threads := (threads s)[i := p]\<rparr>"

inductive mc_step :: "(nat \<Rightarrow> double) \<Rightarrow> mc \<Rightarrow> mc \<Rightarrow> bool" for work where
  create: "main_at s = MCreate i \<Longrightarrow> i < length (threads s) \<Longrightarrow>
     mc_step work s ((goto s i TRun)\<lparr>main_at := MCreate (Suc i)\<rparr>)"
| created: "main_at s = MCreate (length (threads s)) \<Longrightarrow> mc_step work s (s\<lparr>main_at := MJoin 0\<rparr>)"
| join: "main_at s = MJoin i \<Longrightarrow> pc_at s i TDone \<Longrightarrow> mc_step work s (s\<lparr>main_at := MJoin (Suc i)\<rparr>)"
| return: "main_at s = MJoin (length (threads s)) \<Longrightarrow>
     mc_step work s (s\<lparr>main_at := MRet (res_square s)\<rparr>)"
| compute: "pc_at s i TRun \<Longrightarrow> mc_step work s (goto s i TLock)"
| lock: "pc_at s i TLock \<Longrightarrow> owner s = None \<Longrightarrow> mc_step work s ((goto s i TLoad)\<lparr>owner := Some i\<rparr>)"
| load: "pc_at s i TLoad \<Longrightarrow> mc_step work s (goto s i (TStore (res_square s)))"
| store: "pc_at s i (TStore v) \<Longrightarrow>
     mc_step work s ((goto s i TUnlock)\<lparr>res_square := dbl_add v (work i)\<rparr>)"
| unlock: "pc_at s i TUnlock \<Longrightarrow> mc_step work s ((goto s i TDone)\<lparr>owner := None\<rparr>)"

lemma goto_simps [simp]:
  "res_square (goto s i p) = res_square s" "owner (goto s i p) = owner s"
  "main_at (goto s i p) = main_at s" "threads (goto s i p) = (threads s)[i := p]"
  by (simp_all add: goto_def)

subsection \<open>The invariant\<close>

fun holds :: "thread_pc \<Rightarrow> bool" where
  "holds TLoad \<longleftrightarrow> True"
| "holds (TStore v) \<longleftrightarrow> True"
| "holds TUnlock \<longleftrightarrow> True"
| "holds _ \<longleftrightarrow> False"

fun stored :: "thread_pc \<Rightarrow> bool" where
  "stored TUnlock \<longleftrightarrow> True"
| "stored TDone \<longleftrightarrow> True"
| "stored _ \<longleftrightarrow> False"

text \<open>Exactly the owner of the mutex is between the lock and the unlock.\<close>

definition lock_inv :: "mc \<Rightarrow> bool" where
  "lock_inv s \<longleftrightarrow>
     (\<forall>i < length (threads s). holds (threads s ! i) \<longleftrightarrow> owner s = Some i) \<and>
     (\<forall>i. owner s = Some i \<longrightarrow> i < length (threads s))"

text \<open>A loaded value is still the current one.\<close>

definition load_inv :: "mc \<Rightarrow> bool" where
  "load_inv s \<longleftrightarrow> (\<forall>i v. pc_at s i (TStore v) \<longrightarrow> v = res_square s)"

text \<open>The sum holds the shares of the threads that have stored, in some order.\<close>

definition sum_of :: "(nat \<Rightarrow> double) \<Rightarrow> nat set \<Rightarrow> double \<Rightarrow> bool" where
  "sum_of work I r \<longleftrightarrow>
     (\<exists>order. distinct order \<and> set order = I \<and> r = dbl_sum (Some 0) (map work order))"

definition sum_inv :: "(nat \<Rightarrow> double) \<Rightarrow> mc \<Rightarrow> bool" where
  "sum_inv work s \<longleftrightarrow> sum_of work {i. i < length (threads s) \<and> stored (threads s ! i)} (res_square s)"

fun main_ok :: "main_pc \<Rightarrow> double \<Rightarrow> thread_pc list \<Rightarrow> bool" where
  "main_ok (MCreate k) r ps \<longleftrightarrow> k \<le> length ps \<and> (\<forall>i < length ps. ps ! i = TNew \<longleftrightarrow> k \<le> i)"
| "main_ok (MJoin k) r ps \<longleftrightarrow> k \<le> length ps \<and> (\<forall>i < length ps. ps ! i \<noteq> TNew \<and> (i < k \<longrightarrow> ps ! i = TDone))"
| "main_ok (MRet v) r ps \<longleftrightarrow> v = r \<and> (\<forall>i < length ps. ps ! i = TDone)"

definition mc_inv :: "(nat \<Rightarrow> double) \<Rightarrow> nat \<Rightarrow> mc \<Rightarrow> bool" where
  "mc_inv work n s \<longleftrightarrow> length (threads s) = n \<and> lock_inv s \<and> load_inv s \<and> sum_inv work s \<and>
     main_ok (main_at s) (res_square s) (threads s)"

lemma sum_of_insert:
  "sum_of work I r \<Longrightarrow> i \<notin> I \<Longrightarrow> sum_of work (insert i I) (dbl_add r (work i))"
proof -
  assume "sum_of work I r" and i: "i \<notin> I"
  then obtain order where "distinct order" "set order = I" "r = dbl_sum (Some 0) (map work order)"
    unfolding sum_of_def by blast
  with i have "distinct (order @ [i])" "set (order @ [i]) = insert i I"
    "dbl_add r (work i) = dbl_sum (Some 0) (map work (order @ [i]))"
    by (auto simp: dbl_sum_append)
  then show ?thesis unfolding sum_of_def by blast
qed

lemma mc_init_inv: "mc_inv work n (mc_init n)"
proof -
  have "{i. i < n \<and> stored (replicate n TNew ! i)} = {}" by auto
  then have "sum_inv work (mc_init n)"
    by (auto simp: sum_inv_def sum_of_def mc_init_def intro!: exI [of _ "[]"])
  then show ?thesis by (auto simp: mc_inv_def mc_init_def lock_inv_def load_inv_def)
qed

lemma main_ok_new:
  "main_at s = MCreate i \<Longrightarrow> main_ok (main_at s) r (threads s) \<Longrightarrow> i < length (threads s) \<Longrightarrow>
   threads s ! i = TNew"
  by simp

lemma lock_inv_step:
  assumes "mc_step work s t" "lock_inv s" "main_ok (main_at s) r (threads s)"
  shows "lock_inv t"
  using assms
proof (induction rule: mc_step.induct)
  case (create s i)
  then have "\<not> holds (threads s ! i)" using main_ok_new by fastforce
  with create show ?case by (auto simp: lock_inv_def nth_list_update)
qed (auto simp: lock_inv_def nth_list_update)

lemma load_inv_step:
  assumes "mc_step work s t" "lock_inv s" "load_inv s"
  shows "load_inv t"
  using assms
proof (induction rule: mc_step.induct)
  case (store s i v)
  have "\<not> pc_at s j (TStore w)" if "j \<noteq> i" for j w
    using store that unfolding lock_inv_def by (metis holds.simps(2) option.inject)
  with store show ?case by (auto simp: load_inv_def nth_list_update split: if_splits)
qed (auto simp: load_inv_def nth_list_update)

lemma stored_goto:
  "i < length ps \<Longrightarrow> stored p = stored (ps ! i) \<Longrightarrow>
   {j. j < length ps \<and> stored (ps[i := p] ! j)} = {j. j < length ps \<and> stored (ps ! j)}"
  by (auto simp: nth_list_update)

lemma sum_inv_step:
  assumes "mc_step work s t" "load_inv s" "sum_inv work s" "main_ok (main_at s) r (threads s)"
  shows "sum_inv work t"
  using assms
proof (induction rule: mc_step.induct)
  case (store s i v)
  let ?I = "{j. j < length (threads s) \<and> stored (threads s ! j)}"
  have "v = res_square s" using store unfolding load_inv_def by blast
  moreover have "i \<notin> ?I" using store by auto
  ultimately have "sum_of work (insert i ?I) (dbl_add v (work i))"
    using store unfolding sum_inv_def by (metis sum_of_insert)
  moreover have "insert i ?I =
      {j. j < length (threads s) \<and> stored ((threads s)[i := TUnlock] ! j)}"
    using store by (auto simp: nth_list_update)
  ultimately show ?case by (simp add: sum_inv_def)
next
  case (create s i)
  then have "stored TRun = stored (threads s ! i)" using main_ok_new by fastforce
  from stored_goto [OF create(2) this] create show ?case by (simp add: sum_inv_def)
qed (simp_all add: sum_inv_def stored_goto)

lemma main_ok_goto:
  assumes "main_ok m r ps" "i < length ps" "ps ! i \<noteq> TNew" "ps ! i \<noteq> TDone" "p \<noteq> TNew"
  shows "main_ok m r' (ps[i := p])"
  using assms by (cases m) (auto simp: nth_list_update)

lemma main_ok_step:
  assumes "mc_step work s t" "main_ok (main_at s) (res_square s) (threads s)"
  shows "main_ok (main_at t) (res_square t) (threads t)"
  using assms
proof (induction rule: mc_step.induct)
  case (create s i)
  then show ?case by (auto simp: nth_list_update)
next
  case (join s i)
  then show ?case by (auto simp: less_Suc_eq)
qed (simp_all add: main_ok_goto)

lemma mc_inv_step:
  assumes "mc_inv work n s" "mc_step work s t"
  shows "mc_inv work n t"
proof -
  have "length (threads t) = length (threads s)"
    using assms(2) by (induction rule: mc_step.induct) simp_all
  then show ?thesis
    using assms lock_inv_step load_inv_step sum_inv_step main_ok_step
    unfolding mc_inv_def by metis
qed

subsection \<open>Progress\<close>

definition mc_final :: "mc \<Rightarrow> bool" where
  "mc_final s \<longleftrightarrow> (\<exists>r. main_at s = MRet r)"

fun thread_rank :: "thread_pc \<Rightarrow> nat" where
  "thread_rank TNew = 6"
| "thread_rank TRun = 5"
| "thread_rank TLock = 4"
| "thread_rank TLoad = 3"
| "thread_rank (TStore v) = 2"
| "thread_rank TUnlock = 1"
| "thread_rank TDone = 0"

fun main_rank :: "nat \<Rightarrow> main_pc \<Rightarrow> nat" where
  "main_rank n (MCreate k) = n + 2 + (n - k)"
| "main_rank n (MJoin k) = Suc (n - k)"
| "main_rank n (MRet r) = 0"

definition mc_rank :: "nat \<Rightarrow> mc \<Rightarrow> nat" where
  "mc_rank n s = sum_list (map thread_rank (threads s)) + main_rank n (main_at s)"

lemma sum_rank_update:
  "i < length ps \<Longrightarrow> thread_rank p < thread_rank (ps ! i) \<Longrightarrow>
   sum_list (map thread_rank (ps[i := p])) < sum_list (map thread_rank ps)"
proof (induction ps arbitrary: i)
  case (Cons q ps)
  then show ?case by (cases i) simp_all
qed simp

lemma mc_rank_step:
  assumes "mc_inv work n s" "mc_step work s t"
  shows "mc_rank n t < mc_rank n s"
proof -
  have n: "length (threads s) = n" and m: "main_ok (main_at s) (res_square s) (threads s)"
    using assms(1) by (simp_all add: mc_inv_def)
  from assms(2) n m show ?thesis
  proof (induction rule: mc_step.induct)
    case (create s i)
    then have "thread_rank TRun < thread_rank (threads s ! i)" using main_ok_new by fastforce
    from sum_rank_update [OF create(2) this] create show ?case by (simp add: mc_rank_def)
  next
    case (join s i)
    then have "i < n" by simp
    then have "n - Suc i < n - i" by simp
    with join show ?case by (simp add: mc_rank_def)
  qed (simp_all add: mc_rank_def sum_rank_update)
qed

text \<open>A thread in the middle of its work, or the main thread, can always move.\<close>

lemma thread_moves:
  assumes "lock_inv s" "i < length (threads s)" "threads s ! i \<noteq> TNew" "threads s ! i \<noteq> TDone"
  shows "\<exists>t. mc_step work s t"
proof (cases "owner s")
  case (Some j)
  then have j: "j < length (threads s)" "holds (threads s ! j)"
    using assms(1) unfolding lock_inv_def by blast+
  then show ?thesis
    by (cases "threads s ! j") (auto intro: mc_step.load mc_step.store mc_step.unlock)
next
  case None
  then have "\<not> holds (threads s ! i)" using assms(1,2) unfolding lock_inv_def by auto
  then show ?thesis
    using assms None by (cases "threads s ! i") (auto intro: mc_step.compute mc_step.lock)
qed

lemma mc_progress:
  assumes "mc_inv work n s" "\<not> mc_final s"
  shows "\<exists>t. mc_step work s t"
proof (cases "main_at s")
  case (MCreate k)
  then have "k \<le> length (threads s)" using assms(1) by (simp add: mc_inv_def)
  then show ?thesis
    using MCreate mc_step.create mc_step.created by (metis le_neq_implies_less)
next
  case (MJoin k)
  then have k: "k \<le> length (threads s)" "\<forall>i < length (threads s). threads s ! i \<noteq> TNew"
    using assms(1) by (simp_all add: mc_inv_def)
  consider "k = length (threads s)" | "k < length (threads s)" "threads s ! k = TDone"
    | "k < length (threads s)" "threads s ! k \<noteq> TDone" using k(1) by linarith
  then show ?thesis
  proof cases
    case 3
    then show ?thesis using thread_moves k(2) assms(1) by (simp add: mc_inv_def)
  qed (use MJoin mc_step.return mc_step.join in blast)+
qed (use assms(2) in \<open>simp add: mc_final_def\<close>)

interpretation mc_run: live_inv "\<lambda>s. s = mc_init n" "mc_step work" "mc_inv work n" mc_final "mc_rank n"
  for work n
  by unfold_locales (auto intro: mc_init_inv mc_inv_step mc_progress mc_rank_step)

subsection \<open>An atomic accumulator\<close>

text \<open>
  What the threads are to do together: each of them adds its share in one indivisible step.
  The lock, the load, the store and the unlock of a thread refine that step.
\<close>

record accumulator =
  acc :: double
  added :: "nat set"

definition acc_start :: accumulator where
  "acc_start = \<lparr>acc = Some 0, added = {}\<rparr>"

inductive acc_step :: "(nat \<Rightarrow> double) \<Rightarrow> nat \<Rightarrow> accumulator \<Rightarrow> accumulator \<Rightarrow> bool" for work n where
  add: "i < n \<Longrightarrow> i \<notin> added a \<Longrightarrow>
     acc_step work n a (a\<lparr>acc := dbl_add (acc a) (work i), added := insert i (added a)\<rparr>)"

definition have_stored :: "thread_pc list \<Rightarrow> nat set" where
  "have_stored ps = {i. i < length ps \<and> stored (ps ! i)}"

definition acc_view :: "mc \<Rightarrow> accumulator \<Rightarrow> bool" where
  "acc_view s a \<longleftrightarrow> acc a = res_square s \<and> added a = have_stored (threads s)"

lemma have_stored_goto:
  "i < length ps \<Longrightarrow> stored p = stored (ps ! i) \<Longrightarrow> have_stored (ps[i := p]) = have_stored ps"
  unfolding have_stored_def using stored_goto [of i ps p] by simp

lemma acc_view_step:
  assumes "mc_inv work n s" "mc_step work s t" "acc_view s a"
  shows "acc_view t a \<or> (\<exists>b. acc_step work n a b \<and> acc_view t b)"
  using assms(2)
proof cases
  case (create i)
  then have "stored TRun = stored (threads s ! i)"
    using assms(1) main_ok_new by (fastforce simp: mc_inv_def)
  then show ?thesis using create assms(3) by (simp add: acc_view_def have_stored_goto)
next
  case (store i v)
  let ?b = "a\<lparr>acc := dbl_add (acc a) (work i), added := insert i (added a)\<rparr>"
  have v: "v = res_square s" and n: "length (threads s) = n"
    using store assms(1) by (auto simp: mc_inv_def load_inv_def)
  have "i \<notin> added a" using store assms(3) by (simp add: acc_view_def have_stored_def)
  then have "acc_step work n a ?b" using store n by (intro acc_step.add) simp_all
  moreover have "have_stored ((threads s)[i := TUnlock]) = insert i (have_stored (threads s))"
    using store by (auto simp: have_stored_def nth_list_update)
  then have "acc_view t ?b" using store v assms(3) by (simp add: acc_view_def)
  ultimately show ?thesis by blast
qed (use assms(3) in \<open>simp_all add: acc_view_def have_stored_goto\<close>)

interpretation accumulates: simulation
  "\<lambda>s. s = mc_init n" "mc_step work" "mc_inv work n" "\<lambda>a. a = acc_start" "acc_step work n" acc_view
  for work n
proof unfold_locales
  show "\<exists>a. a = acc_start \<and> acc_view s a" if "s = mc_init n" for s
    unfolding that by (simp add: acc_view_def acc_start_def mc_init_def have_stored_def)
qed (rule acc_view_step)

text \<open>
  C25. The threads on their mutex refine an accumulator to which each thread adds its share in one
  step: in every schedule, at every moment, \<open>res_square\<close> is what the accumulator holds when
  exactly the threads that have stored have added, and the value that is returned is the
  one it holds when all of them have.
\<close>

theorem threads_refine_accumulator:
  assumes "(mc_step work)\<^sup>*\<^sup>* (mc_init n) s"
  shows "\<exists>a. (acc_step work n)\<^sup>*\<^sup>* acc_start a \<and> acc a = res_square s \<and> added a = have_stored (threads s) \<and>
    (\<forall>r. main_at s = MRet r \<longrightarrow> r = acc a \<and> added a = {..<n})"
proof -
  obtain a where a: "(acc_step work n)\<^sup>*\<^sup>* acc_start a" "acc_view s a"
    using accumulates.simulated [OF refl assms] by blast
  have inv: "mc_inv work n s" by (rule mc_run.reach_inv [OF refl assms])
  have "r = res_square s \<and> have_stored (threads s) = {..<n}" if "main_at s = MRet r" for r
    using inv that by (auto simp: mc_inv_def have_stored_def)
  with a show ?thesis by (intro exI [of _ a]) (simp add: acc_view_def)
qed

theorem threads_refine_accumulator_witness:
  "\<exists>s a. (mc_step (\<lambda>i. Some 1))\<^sup>*\<^sup>* (mc_init 2) s \<and> mc_final s \<and>
    (acc_step (\<lambda>i. Some 1) 2)\<^sup>*\<^sup>* acc_start a \<and> added a = {..<2} \<and> main_at s = MRet (acc a)"
proof -
  obtain s r where s: "(mc_step (\<lambda>i. Some 1))\<^sup>*\<^sup>* (mc_init 2) s" "mc_final s" "main_at s = MRet r"
    using mc_run.finishes [OF refl] unfolding mc_final_def by blast
  from threads_refine_accumulator [OF s(1)] s show ?thesis by blast
qed

subsection \<open>What the program returns\<close>

lemma mc_result:
  assumes "(mc_step work)\<^sup>*\<^sup>* (mc_init n) s" "main_at s = MRet r"
  shows "sum_of work {..<n} r"
proof -
  have inv: "mc_inv work n s" using mc_run.reach_inv assms(1) by blast
  then have "\<forall>i < n. threads s ! i = TDone" and "r = res_square s" and n: "length (threads s) = n"
    using assms(2) by (simp_all add: mc_inv_def)
  moreover from this have "{i. i < length (threads s) \<and> stored (threads s ! i)} = {..<n}" by auto
  ultimately show ?thesis using inv by (simp add: mc_inv_def sum_inv_def)
qed

text \<open>
  No share is lost: in every interleaving of the threads the value returned is the sum
  of all shares, each added once, in the order in which the threads got the lock.
\<close>

theorem no_lost_update:
  assumes "(mc_step work)\<^sup>*\<^sup>* (mc_init n) s" "main_at s = MRet r"
  shows "\<exists>order. distinct order \<and> set order = {..<n} \<and> r = dbl_sum (Some 0) (map work order)"
  using mc_result [OF assms] by (simp only: sum_of_def)

lemma threads_terminate_parts:
  assumes "(mc_step work ^^ k) (mc_init n) s"
  shows "k \<le> 8 * n + 2" "(\<nexists>t. mc_step work s t) \<Longrightarrow> mc_final s"
    "\<exists>t. (mc_step work)\<^sup>*\<^sup>* s t \<and> mc_final t"
    "i < length (threads s) \<Longrightarrow> j < length (threads s) \<Longrightarrow> holds (threads s ! i) \<Longrightarrow>
     holds (threads s ! j) \<Longrightarrow> i = j"
proof -
  have r: "(mc_step work)\<^sup>*\<^sup>* (mc_init n) s" using assms by (rule relpowp_imp_rtranclp)
  then have inv: "mc_inv work n s" using mc_run.reach_inv by blast
  have "mc_rank n (mc_init n) = 8 * n + 2"
    by (simp add: mc_rank_def mc_init_def sum_list_replicate)
  then show "k \<le> 8 * n + 2" using mc_run.run_length [OF assms mc_init_inv] by simp
  show "(\<nexists>t. mc_step work s t) \<Longrightarrow> mc_final s" using mc_progress inv by blast
  show "\<exists>t. (mc_step work)\<^sup>*\<^sup>* s t \<and> mc_final t" by (rule mc_run.finishes_from [OF inv])
  show "i < length (threads s) \<Longrightarrow> j < length (threads s) \<Longrightarrow> holds (threads s ! i) \<Longrightarrow>
      holds (threads s ! j) \<Longrightarrow> i = j"
    using inv unfolding mc_inv_def lock_inv_def by force
qed

text \<open>
  C22. Every schedule ends with \<open>monte_carlo\<close> returning: a run of \<open>n\<close> threads that cannot
  go on has returned, no run has more than \<open>8 n + 2\<close> steps, and at any time at most one
  thread is between the lock and the unlock.
\<close>

theorem threads_terminate:
  assumes "(mc_step work ^^ k) (mc_init n) s"
  shows "k \<le> 8 * n + 2 \<and> ((\<nexists>t. mc_step work s t) \<longrightarrow> mc_final s) \<and>
    (\<exists>t. (mc_step work)\<^sup>*\<^sup>* s t \<and> mc_final t) \<and>
    (\<forall>i < length (threads s). \<forall>j < length (threads s).
       holds (threads s ! i) \<and> holds (threads s ! j) \<longrightarrow> i = j)"
  using threads_terminate_parts [OF assms] by blast

theorem threads_terminate_witness:
  "\<exists>t. (mc_step (\<lambda>i. Some 0))\<^sup>*\<^sup>* (mc_init 2) t \<and> mc_final t"
proof -
  have "(mc_step (\<lambda>i. Some 0) ^^ 0) (mc_init 2) (mc_init 2)" by simp
  from threads_terminate [OF this] show ?thesis by blast
qed

lemma one_thread_run:
  "\<exists>s. (mc_step work)\<^sup>*\<^sup>* (mc_init 1) s \<and> main_at s = MRet (dbl_sum (Some 0) [work 0])"
proof -
  have "\<exists>t. (mc_step work)\<^sup>*\<^sup>* (mc_init 1) t \<and> mc_final t"
    by (rule mc_run.finishes) (rule refl)
  then obtain t r where t: "(mc_step work)\<^sup>*\<^sup>* (mc_init 1) t" "main_at t = MRet r"
    unfolding mc_final_def by blast
  have "{..<1 :: nat} = {0}" by auto
  then obtain order where o: "distinct order" "set order = {0}" "r = dbl_sum (Some 0) (map work order)"
    using mc_result [OF t] unfolding sum_of_def by auto
  have "length order = 1" using distinct_card [OF o(1)] o(2) by simp
  then obtain x where "order = [x]" by (cases order) simp_all
  then have "order = [0]" using o(2) by simp
  with o(3) t show ?thesis by (intro exI [of _ t]) simp
qed

theorem no_lost_update_witness:
  "\<exists>s r order. (mc_step (\<lambda>i. Some 2))\<^sup>*\<^sup>* (mc_init 1) s \<and> main_at s = MRet r \<and>
     set order = {..<1 :: nat} \<and> r = dbl_sum (Some 0) (map (\<lambda>i. Some 2) order)"
proof -
  obtain s r where s: "(mc_step (\<lambda>i. Some 2))\<^sup>*\<^sup>* (mc_init 1) s" "main_at s = MRet r"
    using one_thread_run by blast
  with no_lost_update [OF s] show ?thesis by blast
qed

subsection \<open>Slices and threads together\<close>

text \<open>The points of a thread: the quotient, whatever the division rounds to.\<close>

lemma power_between_nat: "0 < n \<Longrightarrow> \<exists>j. n \<le> 2 ^ j \<and> 2 ^ j < 2 * (n :: nat)"
proof (induction n rule: nat_induct_non_zero)
  case 1
  show ?case by (rule exI [of _ 0]) simp
next
  case (Suc n)
  then obtain j where j: "n \<le> 2 ^ j" "2 ^ j < 2 * n" by blast
  show ?case
  proof (cases "Suc n \<le> 2 ^ j")
    case True
    with j show ?thesis by (intro exI [of _ j]) simp
  next
    case False
    with j show ?thesis by (intro exI [of _ "Suc j"]) simp
  qed
qed

lemma power_between:
  assumes "0 < (n :: int)"
  obtains j where "n \<le> 2 ^ j" "2 ^ j < 2 * n"
proof -
  obtain j where "nat n \<le> 2 ^ j" "2 ^ j < 2 * nat n" using power_between_nat [of "nat n"] assms by auto
  then have "int (nat n) \<le> int (2 ^ j)" "int (2 ^ j) < int (2 * nat n)" by (simp_all only: of_nat_le_iff of_nat_less_iff)
  with assms that show thesis by simp
qed

lemma rounded_quotient:
  assumes "0 \<le> p" "0 < n" "p + n \<le> 2 ^ 52"
  shows "to_long (rnd (rnd (of_int p) / of_int n)) = Inr (p div n)"
proof -
  define k where "k = p div n"
  obtain j where j: "n \<le> 2 ^ j" "2 ^ j < 2 * n" using power_between [OF assms(2)] by blast
  have kn: "k * n \<le> p" "p \<le> k * n + (n - 1)" "0 \<le> k"
    using assms pos_mod_bound [of n p] pos_mod_sign [of n p] div_mult_mod_eq [of p n]
    unfolding k_def by (linarith, linarith, simp add: pos_imp_zdiv_nonneg_iff)
  have k1: "k \<le> k * n" using assms(2) kn(3) by (simp add: mult_le_cancel_left1)
  have p: "rnd (of_int p) = of_int p"
    using is_double_int [of p] assms by (simp add: is_double_def)
  let ?q = "of_int p / of_int n :: real"
  have lo: "of_int k \<le> ?q"
    using kn(1) assms(2) by (simp add: le_divide_eq flip: of_int_mult)
  have "(k + 1) * 2 ^ j \<le> (k + 1) * (2 * n)" using j(2) kn(3) by (intro mult_left_mono) simp_all
  also have "\<dots> \<le> 2 ^ 53" using kn(1) assms(3) by (simp add: algebra_simps)
  finally have "\<bar>(k + 1) * 2 ^ j - 1\<bar> \<le> 2 ^ 53"
    using mult_nonneg_nonneg [of "k + 1" "2 ^ j"] kn(3) by (simp add: abs_le_iff)
  then have "is_double (of_int ((k + 1) * 2 ^ j - 1) / 2 ^ j)" by (rule is_double_dyadic)
  moreover have e: "of_int ((k + 1) * 2 ^ j - 1) / 2 ^ j = of_int k + 1 - 1 / (2 ^ j :: real)"
    by (simp add: field_simps)
  ultimately have hd: "is_double (of_int k + 1 - 1 / 2 ^ j)" by simp
  have "?q \<le> of_int k + 1 - 1 / of_int n"
  proof -
    have "(of_int p :: real) \<le> of_int (k * n + (n - 1))" using kn(2) by (simp only: of_int_le_iff)
    then show ?thesis using assms(2) by (simp add: field_simps)
  qed
  also have "\<dots> \<le> of_int k + 1 - 1 / 2 ^ j"
  proof -
    have "(of_int n :: real) \<le> 2 ^ j" using j(1) by (metis of_int_le_iff of_int_numeral of_int_power)
    then show ?thesis using assms(2) by (simp add: frac_le)
  qed
  finally have hi: "?q \<le> of_int k + 1 - 1 / 2 ^ j" .
  have kd: "is_double (of_int k)" using kn(1) k1 kn(3) assms by (intro is_double_int) simp
  note b = dbl.round_between [OF kd hd lo hi]
  have "\<lfloor>rnd ?q\<rfloor> = k" using b by (intro floor_unique) (auto intro: le_less_trans)
  moreover have "0 \<le> rnd ?q" using b kn(3) by (meson of_int_0_le_iff order_trans)
  moreover have "k < 2 ^ 63" using kn(1) k1 assms by simp
  ultimately show ?thesis using kn(3) by (simp add: to_long_def p k_def [symmetric])
qed

text \<open>\<open>work\<close> is what the threads of a plan compute when they start at the seconds \<open>now\<close>.\<close>

definition shares :: "rand \<Rightarrow> (nat \<Rightarrow> 32 word) \<Rightarrow> real list list \<Rightarrow> (nat \<Rightarrow> double) \<Rightarrow> bool" where
  "shares rr now args work \<longleftrightarrow>
     (\<forall>i < length args. square_of_one_square rr (now i) (args ! i) = Inr (work i))"

lemma thread_points:
  assumes "mc_args t n = Inr args" "i < length args" "0 \<le> num_of_points t" "num_of_points t + n \<le> 2 ^ 52"
  shows "to_long (args ! i ! 4) = Inr (num_of_points t div n)"
  using assms rounded_quotient [OF assms(3) _ assms(4)] mc_args_nth [OF assms(1)]
  by (simp add: thread_args_def)

lemma monte_carlo_estimate_parts:
  assumes "mc_args t n = Inr args" "shares rr now args work"
    and "0 \<le> num_of_points t" "num_of_points t + n \<le> 2 ^ 52" "num_of_points t div n < 2 ^ 31"
    and "tx1 t \<le> tx2 t" "ty1 t \<le> ty2 t"
    and "(mc_step work)\<^sup>*\<^sup>* (mc_init (length args)) s" "main_at s = MRet r"
  shows "\<forall>i < length args. to_long (args ! i ! 4) = Inr (num_of_points t div n)"
    and "n \<le> num_of_points t \<Longrightarrow> \<exists>v order. r = Some v \<and> 0 \<le> v \<and> distinct order \<and>
      set order = {..<length args} \<and> r = dbl_sum (Some 0) (map work order)"
    and "num_of_points t < n \<Longrightarrow> r = None"
proof -
  note nth = mc_args_nth [OF assms(1)]
  obtain order where o: "distinct order" "set order = {..<length args}" "r = dbl_sum (Some 0) (map work order)"
    using mc_result [OF assms(8,9)] unfolding sum_of_def by blast
  show pts: "\<forall>i < length args. to_long (args ! i ! 4) = Inr (num_of_points t div n)"
    using thread_points [OF assms(1) _ assms(3,4)] by blast
  show "\<exists>v order. r = Some v \<and> 0 \<le> v \<and> distinct order \<and>
      set order = {..<length args} \<and> r = dbl_sum (Some 0) (map work order)" if np: "n \<le> num_of_points t"
  proof -
    have "\<exists>v. work i = Some v \<and> 0 \<le> v" if i: "i < length args" for i
    proof -
      have "0 < num_of_points t div n" using np nth(1) by (simp add: pos_imp_zdiv_pos_iff)
      moreover have "args ! i ! 0 \<le> args ! i ! 2" "args ! i ! 1 \<le> args ! i ! 3"
        using nth i assms(6,7) by (simp_all add: thread_args_def slice_edge_mono)
      ultimately obtain v where "square_of_one_square rr (now i) (args ! i) = Inr (Some v)" "0 \<le> v"
        using square_bounds [of "args ! i" "nat (num_of_points t div n)" rr "now i"] pts i assms(5)
        by (auto simp: nat_less_iff)
      with assms(2) i show ?thesis by (auto simp: shares_def)
    qed
    then have "\<forall>x \<in> set (map work order). \<exists>v. x = Some v \<and> 0 \<le> v" using o(2) by auto
    then obtain v where "r = Some v" "0 \<le> v" using dbl_sum_nonneg [of "map work order" 0] o(3) by auto
    with o show ?thesis by blast
  qed
  show "r = None" if np: "num_of_points t < n"
  proof -
    have z: "0 < length args" "num_of_points t div n = 0" using nth(1,2) np assms(3) by simp_all
    then have "square_of_one_square rr (now 0) (args ! 0) = Inr None" using pts no_points by simp
    then have "work 0 = None" using assms(2) z(1) by (auto simp: shares_def)
    moreover have "0 \<in> set order" using o(2) z(1) by simp
    ultimately have "None \<in> set (map work order)" by force
    then have "dbl_sum (Some 0) (map work order) = None" by (intro dbl_sum_NaN disjI1)
    with o(3) show ?thesis by (rule trans)
  qed
qed

text \<open>
  C21. The whole computation: every thread draws \<open>num_of_points / n_threads\<close> points, the
  remainder of the division is dropped; if that is at least one, every run returns a number
  that is not negative and is the sum of all shares, and if there are fewer points than
  threads, every run returns NaN.
\<close>

theorem monte_carlo_estimate:
  assumes "mc_args t n = Inr args" "shares rr now args work"
    and "0 \<le> num_of_points t" "num_of_points t + n \<le> 2 ^ 52" "num_of_points t div n < 2 ^ 31"
    and "tx1 t \<le> tx2 t" "ty1 t \<le> ty2 t"
    and "(mc_step work)\<^sup>*\<^sup>* (mc_init (length args)) s" "main_at s = MRet r"
  shows "(\<forall>i < length args. to_long (args ! i ! 4) = Inr (num_of_points t div n)) \<and>
    (if num_of_points t < n then r = None
     else \<exists>v order. r = Some v \<and> 0 \<le> v \<and> distinct order \<and>
       set order = {..<length args} \<and> r = dbl_sum (Some 0) (map work order))"
  using monte_carlo_estimate_parts [OF assms] by simp

theorem monte_carlo_estimate_witness:
  "\<exists>s r. (mc_step (\<lambda>i. None))\<^sup>*\<^sup>* (mc_init 1) s \<and> main_at s = MRet r \<and> r = None"
proof -
  define t :: Task where "t = \<lparr>tx1 = 0, tx2 = 3, ty1 = 0, ty2 = 3, num_of_points = 0\<rparr>"
  define args where "args = [thread_args t 1 0]"
  obtain s r where s: "(mc_step (\<lambda>i. None))\<^sup>*\<^sup>* (mc_init 1) s" "main_at s = MRet r"
    using one_thread_run [of "\<lambda>i. None"] by blast
  have a: "mc_args t 1 = Inr args" "length args = 1" by (simp_all add: mc_args_def args_def)
  have z: "to_long 0 = Inr 0" using to_long_nat [of 0] by simp
  have "shares (\<lambda>s. (0, s)) (\<lambda>i. 0) args (\<lambda>i. None)"
    by (simp add: shares_def args_def thread_args_def t_def no_points z)
  from monte_carlo_estimate [OF a(1) this, of s r] s a(2) have "r = None"
    by (simp add: t_def)
  with s show ?thesis by blast
qed

end
