(* ===== verification/Cluster.thy ===== *)
theory Cluster
  imports MonteCarlo
begin

text \<open>
  The distributed integration (\<open>task_8\<close>): the server (\<open>server.c\<close>) invites workers by
  broadcast, collects their answers for five seconds, cuts the interval into one task for
  each core, sends every worker a line of text and adds up the numbers that come back; the
  worker (\<open>worker.c\<close>) answers, reads its task and runs \<open>monte_carlo\<close>.
  The network is the argument of each operation: whether a call succeeds, which datagrams
  and values arrive and when.  A call that fails ends the program: \<open>Inl CallFailed\<close>.
\<close>

section \<open>Data\<close>

definition CLUSTER_BUF :: nat where
  "CLUSTER_BUF = 4096"

definition IP4_LEN :: nat where
  "IP4_LEN = 15"

definition MAX_WORKERS :: nat where
  "MAX_WORKERS = 10"

text \<open>\<open>None\<close> as a result or a socket: the variable has not been given a value.\<close>

record Worker =
  ip :: string
  num_of_cores :: int
  socket :: "int option"
  result :: "double option"

record Server =
  workers :: "Worker list"
  num_of_workers :: nat
  tasks :: "Task list"

definition empty_worker :: Worker where
  "empty_worker = \<lparr>ip = '''', num_of_cores = 0, socket = Some 0, result = Some (Some 0)\<rparr>"

definition empty_server :: Server where
  "empty_server = \<lparr>workers = replicate MAX_WORKERS empty_worker, num_of_workers = 0, tasks = []\<rparr>"

text \<open>An index of C: below zero or behind the end it is outside the array.\<close>

definition at_index :: "'a list \<Rightarrow> int \<Rightarrow> 'a result" where
  "at_index xs i = (if 0 \<le> i \<and> i < int (length xs) then Inr (xs ! nat i) else Inl OutOfBounds)"

text \<open>The calls whose failure the programs check.\<close>

datatype netcall =
    N_socket | N_broadcast | N_reuse | N_hostname | N_hostbyname | N_sendto | N_bind
  | N_recv | N_send_socket | N_listen_socket | N_tcp_bind | N_listen | N_accept

definition need :: "(netcall \<Rightarrow> bool) \<Rightarrow> netcall \<Rightarrow> unit result" where
  "need ok c = (if ok c then Inr () else Inl CallFailed)"

fun needs :: "(netcall \<Rightarrow> bool) \<Rightarrow> netcall list \<Rightarrow> unit result" where
  "needs ok [] = Inr ()"
| "needs ok (c # cs) = bindS (need ok c) (\<lambda>_. needs ok cs)"

lemma needs_iff: "needs ok cs = (if \<forall>c \<in> set cs. ok c then Inr () else Inl CallFailed)"
  by (induction cs) (auto simp: need_def)

section \<open>Inviting and registering workers\<close>

text \<open>The text that is broadcast.\<close>

definition send_invite_to_workers :: "(netcall \<Rightarrow> bool) \<Rightarrow> string result" where
  "send_invite_to_workers ok =
     bindS (needs ok [N_socket, N_broadcast, N_reuse, N_hostname, N_hostbyname, N_sendto])
       (\<lambda>_. Inr ''Hello'')"

type_synonym ip4 = "nat \<times> nat \<times> nat \<times> nat"

definition inet_ntoa :: "ip4 \<Rightarrow> string" where
  "inet_ntoa a = (case a of (p, q, r, s) \<Rightarrow>
     show_nat p @ ''.'' @ show_nat q @ ''.'' @ show_nat r @ ''.'' @ show_nat s)"

text \<open>
  One round of the listening loop: the seconds that have passed, and what \<open>select\<close> and
  \<open>recvfrom\<close> report.
\<close>

datatype udp_event = SelectFails | Quiet | RecvFails | Datagram bytes ip4

text \<open>
  An address of 15 characters is copied with its NUL over the end of its field: from there on
  C leaves open what happens, and the model ends.
\<close>

definition add_worker :: "Server \<Rightarrow> bytes \<Rightarrow> ip4 \<Rightarrow> Server result" where
  "add_worker srv payload from =
     (let buffer = take (CLUSTER_BUF - 1) payload @ [NUL]; n = num_of_workers srv
      in if n < MAX_WORKERS then
           (if length (inet_ntoa from) < IP4_LEN then
              bindS (atoi (cstr buffer)) (\<lambda>cores.
                Inr (srv\<lparr>workers := (workers srv)[n := \<lparr>ip = inet_ntoa from, num_of_cores = cores,
                             socket = None, result = None\<rparr>],
                         num_of_workers := Suc n\<rparr>))
            else Inl OutOfBounds)
         else Inr srv)"

fun listen_loop :: "Server \<Rightarrow> (int \<times> udp_event) list \<Rightarrow> Server result" where
  "listen_loop srv [] = Inl Blocked"
| "listen_loop srv ((elapsed, ev) # rounds) =
     (if 5 \<le> elapsed then Inr srv
      else case ev of
        SelectFails \<Rightarrow> Inl CallFailed
      | Quiet \<Rightarrow> listen_loop srv rounds
      | RecvFails \<Rightarrow> Inl CallFailed
      | Datagram payload from \<Rightarrow> bindS (add_worker srv payload from) (\<lambda>srv'. listen_loop srv' rounds))"

definition rcv_ip_from_workers ::
  "(netcall \<Rightarrow> bool) \<Rightarrow> (int \<times> udp_event) list \<Rightarrow> Server \<Rightarrow> Server result" where
  "rcv_ip_from_workers ok rounds srv =
     bindS (needs ok [N_socket, N_reuse, N_bind]) (\<lambda>_. listen_loop srv rounds)"

section \<open>Connecting\<close>

text \<open>\<open>conn i\<close>: the connected socket for worker \<open>i\<close>, \<open>None\<close> when \<open>connect\<close> fails.\<close>

fun connect_from :: "(nat \<Rightarrow> int option) \<Rightarrow> nat \<Rightarrow> nat \<Rightarrow> Worker list \<Rightarrow> Worker list result" where
  "connect_from conn i 0 ws = Inr ws"
| "connect_from conn i (Suc k) ws =
     (case conn i of
        None \<Rightarrow> Inl CallFailed
      | Some fd \<Rightarrow> connect_from conn (Suc i) k (ws[i := (ws ! i)\<lparr>socket := Some fd\<rparr>]))"

definition establish_connections :: "(nat \<Rightarrow> int option) \<Rightarrow> Server \<Rightarrow> Server result" where
  "establish_connections conn srv =
     bindS (connect_from conn 0 (num_of_workers srv) (workers srv)) (\<lambda>ws. Inr (srv\<lparr>workers := ws\<rparr>))"

section \<open>Tasks\<close>

definition active :: "Server \<Rightarrow> Worker list" where
  "active srv = take (num_of_workers srv) (workers srv)"

definition total_cores :: "Server \<Rightarrow> int" where
  "total_cores srv = sum_list (map num_of_cores (active srv))"

text \<open>C's division of integers cuts towards zero.\<close>

definition div_c :: "int \<Rightarrow> int \<Rightarrow> int" where
  "div_c a b = (if (a < 0) = (b < 0) then \<bar>a\<bar> div \<bar>b\<bar> else - (\<bar>a\<bar> div \<bar>b\<bar>))"

definition task_of_core :: "Task \<Rightarrow> int \<Rightarrow> int \<Rightarrow> Task" where
  "task_of_core t n i =
     \<lparr>tx1 = slice_edge (tx1 t) (tx2 t) n i, tx2 = slice_edge (tx1 t) (tx2 t) n (i + 1),
      ty1 = ty1 t, ty2 = ty2 t, num_of_points = div_c (num_of_points t) n\<rparr>"

text \<open>The sum of the cores as it is computed, in an \<open>int\<close>.\<close>

fun sum_cores :: "int \<Rightarrow> Worker list \<Rightarrow> int result" where
  "sum_cores n [] = Inr n"
| "sum_cores n (w # ws) =
     (if - (2 ^ 31) \<le> n + num_of_cores w \<and> n + num_of_cores w < 2 ^ 31
      then sum_cores (n + num_of_cores w) ws else Inl Overflow)"

definition split_tasks :: "Task \<Rightarrow> Server \<Rightarrow> Server result" where
  "split_tasks t srv = bindS (sum_cores 0 (active srv)) (\<lambda>n.
     Inr (srv\<lparr>tasks := map (\<lambda>i. task_of_core t n (int i)) [0..<nat n]\<rparr>))"

definition print_one_task :: "Task \<Rightarrow> string" where
  "print_one_task t = show_lf (tx1 t) @ '' '' @ show_lf (ty1 t) @ '' '' @ show_lf (tx2 t) @ '' '' @
     show_lf (ty2 t) @ '' '' @ show_int (num_of_points t) @ '' '' @ [CHR 0x0A]"

text \<open>The variable \<open>task_number\<close> is never changed: it is the argument \<open>k\<close>.\<close>

definition worker_task :: "Task list \<Rightarrow> int \<Rightarrow> int \<Rightarrow> Task result" where
  "worker_task ts k cores =
     bindS (at_index ts k) (\<lambda>first.
     bindS (at_index ts (k + cores - 1)) (\<lambda>final.
       (let p = num_of_points first * cores
        in if - (2 ^ 63) \<le> p \<and> p < 2 ^ 63 then
             Inr \<lparr>tx1 = tx1 first, tx2 = tx2 final, ty1 = ty1 first, ty2 = ty2 final, num_of_points = p\<rparr>
           else Inl Overflow)))"

definition task_line :: "Task \<Rightarrow> string result" where
  "task_line t = (let s = print_one_task t in if length s < CLUSTER_BUF then Inr s else Inl OutOfBounds)"

fun send_lines :: "Task list \<Rightarrow> int \<Rightarrow> Worker list \<Rightarrow> (int option \<times> string) list result" where
  "send_lines ts k [] = Inr []"
| "send_lines ts k (w # ws) =
     bindS (worker_task ts k (num_of_cores w)) (\<lambda>t.
     bindS (task_line t) (\<lambda>s.
     bindS (send_lines ts k ws) (\<lambda>out. Inr ((socket w, s) # out))))"

definition send_task :: "Server \<Rightarrow> (int option \<times> string) list result" where
  "send_task srv = send_lines (tasks srv) 0 (active srv)"

section \<open>Collecting the results\<close>

text \<open>
  \<open>recv\<close> of eight bytes: the value, the end of the connection, or less than eight bytes
  or an error.  One call of \<open>select\<close>: it fails, or reports the sockets that are ready
  among those it was given, and then what \<open>recv\<close> returns on each.
\<close>

datatype recv_event = Value double | Closed | Broken

datatype gather_event = GSelectFails | GReady "int list" "int \<Rightarrow> recv_event"

type_synonym gather_state = "Worker list \<times> int list \<times> nat"

text \<open>One worker in the loop over the ready sockets: the workers, \<open>readSet\<close>, \<open>responsesReceived\<close>.\<close>

definition receive :: "(int \<Rightarrow> recv_event) \<Rightarrow> nat \<Rightarrow> gather_state \<Rightarrow> gather_state result" where
  "receive rcv i st = (case st of (ws, readSet, responses) \<Rightarrow>
     (case socket (ws ! i) of
        None \<Rightarrow> Inl ReadUndef
      | Some fd \<Rightarrow>
          if fd \<in> set readSet then
            (case rcv fd of
               Value v \<Rightarrow> Inr (ws[i := (ws ! i)\<lparr>result := Some v\<rparr>], removeAll fd readSet, Suc responses)
             | Closed \<Rightarrow> Inr (ws, removeAll fd readSet, responses)
             | Broken \<Rightarrow> Inr st)
          else Inr st))"

fun receive_all :: "(int \<Rightarrow> recv_event) \<Rightarrow> nat list \<Rightarrow> gather_state \<Rightarrow> gather_state result" where
  "receive_all rcv [] st = Inr st"
| "receive_all rcv (i # is) st = bindS (receive rcv i st) (receive_all rcv is)"

fun gather_loop :: "nat \<Rightarrow> gather_event list \<Rightarrow> gather_state \<Rightarrow> Worker list result" where
  "gather_loop n evs (ws, readSet, responses) =
     (if n \<le> responses then Inr ws
      else case evs of
        [] \<Rightarrow> Inl Blocked
      | GSelectFails # evs' \<Rightarrow> Inl CallFailed
      | GReady ready rcv # evs' \<Rightarrow>
          (let readSet' = filter (\<lambda>fd. fd \<in> set ready) readSet
           in if readSet' = [] then Inr ws
              else bindS (receive_all rcv [0..<n] (ws, readSet', responses)) (gather_loop n evs')))"

fun fd_set_all :: "Worker list \<Rightarrow> int list result" where
  "fd_set_all [] = Inr []"
| "fd_set_all (w # ws) = (case socket w of
      None \<Rightarrow> Inl ReadUndef
    | Some fd \<Rightarrow> if 0 \<le> fd \<and> fd < 1024 then bindS (fd_set_all ws) (\<lambda>fds. Inr (fd # fds)) else Inl OutOfBounds)"

fun add_results :: "double \<Rightarrow> Worker list \<Rightarrow> double result" where
  "add_results res [] = Inr res"
| "add_results res (w # ws) = (case result w of
      None \<Rightarrow> Inl ReadUndef
    | Some v \<Rightarrow> add_results (dbl_add res v) ws)"

definition gather_results :: "gather_event list \<Rightarrow> Server \<Rightarrow> double result" where
  "gather_results evs srv =
     (let n = num_of_workers srv
      in bindS (at_index (workers srv) (int n - 1)) (\<lambda>w.
         bindS (fd_set_all (active srv)) (\<lambda>readSet.
         bindS (gather_loop n evs (workers srv, readSet, 0)) (\<lambda>ws.
           add_results (Some 0) (take n ws)))))"

section \<open>The server\<close>

definition main_task :: Task where
  "main_task = \<lparr>tx1 = 0, tx2 = 3, ty1 = 0, ty2 = 3, num_of_points = 100000\<rparr>"

text \<open>What is sent to the workers, and the number that is printed in the end.\<close>

definition server_main ::
  "(netcall \<Rightarrow> bool) \<Rightarrow> (int \<times> udp_event) list \<Rightarrow> (nat \<Rightarrow> int option) \<Rightarrow> gather_event list \<Rightarrow>
   ((int option \<times> string) list \<times> double) result" where
  "server_main ok rounds conn evs =
     bindS (send_invite_to_workers ok) (\<lambda>_.
     bindS (rcv_ip_from_workers ok rounds empty_server) (\<lambda>srv.
     bindS (split_tasks main_task srv) (\<lambda>srv.
     bindS (establish_connections conn srv) (\<lambda>srv.
     bindS (send_task srv) (\<lambda>out.
     bindS (gather_results evs srv) (\<lambda>res. Inr (out, res)))))))"

section \<open>The worker\<close>

definition MAX_CORES :: int where
  "MAX_CORES = 8"

text \<open>
  Up to the loop: the text that is sent back to whoever broadcast (\<open>None\<close> when a call before
  that fails), and whether the TCP socket then listens.
\<close>

definition worker_start :: "(netcall \<Rightarrow> bool) \<Rightarrow> string option \<times> unit result" where
  "worker_start ok =
     (case needs ok [N_socket, N_bind, N_recv, N_send_socket, N_sendto] of
        Inl e \<Rightarrow> (None, Inl e)
      | Inr _ \<Rightarrow> (Some (show_int MAX_CORES), needs ok [N_listen_socket, N_tcp_bind, N_listen]))"

text \<open>\<open>sscanf\<close> stops at the first field that is not there; the rest of the task stays zero.\<close>

definition scan_task :: "string \<Rightarrow> Task" where
  "scan_task s = (let t0 = \<lparr>tx1 = 0, tx2 = 0, ty1 = 0, ty2 = 0, num_of_points = 0\<rparr>
     in case scan_lf s of None \<Rightarrow> t0 | Some (a, s1) \<Rightarrow> (let t1 = t0\<lparr>tx1 := a\<rparr>
     in case scan_lf s1 of None \<Rightarrow> t1 | Some (b, s2) \<Rightarrow> (let t2 = t1\<lparr>ty1 := b\<rparr>
     in case scan_lf s2 of None \<Rightarrow> t2 | Some (c, s3) \<Rightarrow> (let t3 = t2\<lparr>tx2 := c\<rparr>
     in case scan_lf s3 of None \<Rightarrow> t3 | Some (d, s4) \<Rightarrow> (let t4 = t3\<lparr>ty2 := d\<rparr>
     in case scan_int s4 of None \<Rightarrow> t4 | Some (p, s5) \<Rightarrow> t4\<lparr>num_of_points := p\<rparr>)))))"

text \<open>
  The bytes of one \<open>read\<close> (\<open>None\<close>: it fails and returns -1) become a C string in the buffer,
  the task is read from it and cut into the slices of the threads.
\<close>

definition worker_read :: "bytes option \<Rightarrow> Task result" where
  "worker_read msg = (case msg of
      None \<Rightarrow> Inl OutOfBounds
    | Some bs \<Rightarrow>
        if length bs < CLUSTER_BUF then Inr (scan_task (cstr (bs @ [NUL]))) else Inl OutOfBounds)"

definition worker_serve :: "(netcall \<Rightarrow> bool) \<Rightarrow> bytes option \<Rightarrow> (Task \<times> real list list) result" where
  "worker_serve ok msg =
     bindS (need ok N_accept) (\<lambda>_.
     bindS (worker_read msg) (\<lambda>t.
     bindS (mc_args t MAX_CORES) (\<lambda>args. Inr (t, args))))"

section \<open>A task on its way to a worker\<close>

text \<open>What the decimals of the message leave of a task.\<close>

definition received :: "Task \<Rightarrow> Task" where
  "received t = \<lparr>tx1 = six_decimals (tx1 t), tx2 = six_decimals (tx2 t),
     ty1 = six_decimals (ty1 t), ty2 = six_decimals (ty2 t), num_of_points = num_of_points t\<rparr>"

lemma scan_lf_field: "scan_lf (show_lf x @ CHR '' '' # r) = Some (six_decimals x, CHR '' '' # r)"
  by (rule scan_lf_show) simp

lemma scan_lf_space: "scan_lf (CHR '' '' # s) = scan_lf s"
  by (simp add: scan_lf_def)

lemma scan_int_space: "scan_int (CHR '' '' # s) = scan_int s"
  by (simp add: scan_int_def)

lemma scan_task_print: "scan_task (print_one_task t) = received t"
proof -
  have "scan_int (show_int (num_of_points t) @ CHR '' '' # [CHR 0x0A]) =
      Some (num_of_points t, CHR '' '' # [CHR 0x0A])"
    by (rule scan_int_show) simp
  then show ?thesis
    by (simp add: scan_task_def print_one_task_def scan_lf_field scan_lf_space scan_int_space received_def)
qed

lemma pad0_no_NUL: "NUL \<notin> set (pad0 k n)"
  using pad0_digits digit_not_special(5) by blast

lemma print_no_NUL: "NUL \<notin> set (print_one_task t)"
  by (simp add: print_one_task_def show_lf_def show_int_def show_nat_no_NUL pad0_no_NUL)

lemma micros_bound:
  assumes "\<bar>x\<bar> \<le> 10 ^ k"
  shows "micros x div 10 ^ 6 < 10 ^ Suc k"
proof -
  have "\<bar>x\<bar> * 10 ^ 6 \<le> of_int (10 ^ k * 10 ^ 6)" using assms by simp
  then have "rne (\<bar>x\<bar> * 10 ^ 6) \<le> 10 ^ k * 10 ^ 6" by (rule rne_le_int)
  then have "micros x \<le> nat (10 ^ k * 10 ^ 6)" unfolding micros_def by (rule nat_mono)
  also have "\<dots> = 10 ^ k * 10 ^ 6" by (simp add: nat_mult_distrib nat_power_eq)
  finally have "micros x div 10 ^ 6 \<le> 10 ^ k" by (simp add: div_le_mono [of _ _ "10 ^ 6", THEN order_trans])
  then show ?thesis by (rule le_less_trans) simp
qed

lemma length_show_lf:
  assumes "\<bar>x\<bar> \<le> 10 ^ k"
  shows "length (show_lf x) \<le> k + 9"
proof -
  have "length (show_nat (micros x div 10 ^ 6)) \<le> Suc k"
    using length_show_nat [OF micros_bound [OF assms]] by simp
  moreover have "length (pad0 6 (micros x mod 10 ^ 6)) = 6" by (rule length_pad0) simp_all
  ultimately show ?thesis unfolding show_lf_def by (simp del: One_nat_def)
qed

lemma length_show_int: "\<bar>i\<bar> < 10 ^ k \<Longrightarrow> 0 < k \<Longrightarrow> length (show_int i) \<le> Suc k"
  using length_show_nat [of "nat \<bar>i\<bar>" k]
  by (cases "i < 0") (simp_all add: show_int_def nat_less_iff)

text \<open>A bound that every number of type \<open>double\<close> keeps, and the 64 bits of the points.\<close>

definition task_ok :: "Task \<Rightarrow> bool" where
  "task_ok t \<longleftrightarrow> \<bar>tx1 t\<bar> \<le> 10 ^ 309 \<and> \<bar>tx2 t\<bar> \<le> 10 ^ 309 \<and> \<bar>ty1 t\<bar> \<le> 10 ^ 309 \<and> \<bar>ty2 t\<bar> \<le> 10 ^ 309 \<and>
     - (2 ^ 63) \<le> num_of_points t \<and> num_of_points t < 2 ^ 63"

lemma task_line_ok:
  assumes "task_ok t"
  shows "task_line t = Inr (print_one_task t)" "length (print_one_task t) < CLUSTER_BUF"
proof -
  have b: "\<bar>tx1 t\<bar> \<le> 10 ^ 309" "\<bar>ty1 t\<bar> \<le> 10 ^ 309" "\<bar>tx2 t\<bar> \<le> 10 ^ 309" "\<bar>ty2 t\<bar> \<le> 10 ^ 309"
    and "- (2 ^ 63) \<le> num_of_points t" "num_of_points t < 2 ^ 63"
    using assms unfolding task_ok_def by blast+
  then have "\<bar>num_of_points t\<bar> < 10 ^ 19" by simp
  then have "length (show_int (num_of_points t)) \<le> 20" using length_show_int [of _ 19] by simp
  with b [THEN length_show_lf] show l: "length (print_one_task t) < CLUSTER_BUF"
    by (simp add: print_one_task_def CLUSTER_BUF_def)
  then show "task_line t = Inr (print_one_task t)" by (simp add: task_line_def)
qed

lemma worker_reads_line:
  assumes "task_ok t"
  shows "worker_read (Some (print_one_task t)) = Inr (received t)"
  using task_line_ok(2) [OF assms] print_no_NUL by (simp add: worker_read_def scan_task_print)

text \<open>
  C30. The line of a task always fits into the buffer; the worker reads from it the same
  number of points and every bound rounded to six decimals, off by half a millionth and one
  rounding at most, and exactly the task when the bounds are multiples of \<open>1/64\<close>.
\<close>

theorem task_message_roundtrip:
  assumes "task_ok t"
  shows "\<exists>s. task_line t = Inr s \<and> worker_read (Some s) = Inr (received t) \<and>
    (\<forall>f \<in> {tx1, tx2, ty1, ty2}. \<bar>f (received t) - f t\<bar> \<le> 1 / (2 * 10 ^ 6) + (\<bar>f t\<bar> + 1) / 2 ^ 53) \<and>
    ((\<forall>f \<in> {tx1, tx2, ty1, ty2}. is_double (f t) \<and> (\<exists>m. f t = of_int m / 64)) \<longrightarrow> received t = t)"
proof -
  have ex: "six_decimals x = x" if "is_double x" "x = of_int m / 64" for x m
  proof (rule six_decimals_exact [OF that(1)])
    show "\<bar>x\<bar> * 10 ^ 6 = of_nat (nat (\<bar>m\<bar> * 15625))" using that(2) by simp
  qed
  have "\<forall>f \<in> {tx1, tx2, ty1, ty2}. \<bar>f (received t) - f t\<bar> \<le> 1 / (2 * 10 ^ 6) + (\<bar>f t\<bar> + 1) / 2 ^ 53"
    using six_decimals_error [of "tx1 t"] six_decimals_error [of "tx2 t"]
      six_decimals_error [of "ty1 t"] six_decimals_error [of "ty2 t"] by (simp add: received_def)
  moreover have "received t = t" if "\<forall>f \<in> {tx1, tx2, ty1, ty2}. is_double (f t) \<and> (\<exists>m. f t = of_int m / 64)"
    using that by (auto simp: received_def ex)
  ultimately show ?thesis
    using task_line_ok(1) [OF assms] worker_reads_line [OF assms] by blast
qed

lemma main_task_ok: "task_ok main_task"
  by (simp add: task_ok_def main_task_def)

lemma received_main_task: "received main_task = main_task"
proof -
  have "six_decimals 3 = 3" by (rule six_decimals_exact [of 3 3000000]) (simp_all add: is_double_3)
  then show ?thesis by (simp add: received_def main_task_def)
qed

theorem task_message_roundtrip_witness:
  "\<exists>s. task_line main_task = Inr s \<and> worker_read (Some s) = Inr main_task"
  using task_message_roundtrip [OF main_task_ok] unfolding received_main_task by blast

section \<open>What is sent\<close>

lemma abs_rnd_le: "\<bar>x\<bar> \<le> 2 ^ k \<Longrightarrow> \<bar>rnd x\<bar> \<le> 2 ^ k"
proof -
  assume x: "\<bar>x\<bar> \<le> 2 ^ k"
  have "is_double (2 ^ k)" unfolding is_double_def
    by (rule rnd_exact [of _ 1 "int k"]) (simp_all add: powr_realpow)
  with x show "\<bar>rnd x\<bar> \<le> 2 ^ k"
    using dbl.round_between [of "- (2 ^ k)" "2 ^ k" x] by (auto simp: is_double_minus abs_le_iff)
qed

lemma slice_edge_bound:
  assumes "\<bar>a\<bar> \<le> 2 ^ 60" "\<bar>b\<bar> \<le> 2 ^ 60" "0 < n" "0 \<le> i" "i \<le> 2 ^ 31"
  shows "\<bar>slice_edge a b n i\<bar> \<le> 2 ^ 93"
proof -
  have "\<bar>b - a\<bar> \<le> 2 ^ 61" using assms(1,2) by simp
  then have d: "\<bar>rnd (b - a)\<bar> \<le> 2 ^ 61" by (rule abs_rnd_le)
  have "\<bar>rnd (b - a) / of_int n\<bar> \<le> \<bar>rnd (b - a)\<bar> / 1"
    using assms(3) by (simp add: abs_divide) (rule divide_left_mono [of 1, simplified]; simp)
  then have "\<bar>rnd (b - a) / of_int n\<bar> \<le> 2 ^ 61" using d by linarith
  then have q: "\<bar>rnd (rnd (b - a) / of_int n)\<bar> \<le> 2 ^ 61" by (rule abs_rnd_le)
  have "(of_int i :: real) \<le> 2 ^ 31" using assms(5) by (metis of_int_le_iff of_int_numeral of_int_power)
  then have "\<bar>rnd (rnd (b - a) / of_int n) * of_int i\<bar> \<le> 2 ^ 61 * 2 ^ 31"
    using q assms(4) unfolding abs_mult by (intro mult_mono) simp_all
  then have "\<bar>rnd (rnd (b - a) / of_int n) * of_int i\<bar> \<le> 2 ^ 92" by simp
  then have "\<bar>rnd (rnd (rnd (b - a) / of_int n) * of_int i)\<bar> \<le> 2 ^ 92" by (rule abs_rnd_le)
  then have "\<bar>rnd (rnd (rnd (b - a) / of_int n) * of_int i) + a\<bar> \<le> 2 ^ 93" using assms(1) by simp
  then show ?thesis unfolding slice_edge_def by (rule abs_rnd_le)
qed

lemma sum_cores_pos:
  "\<forall>w \<in> set ws. 0 < num_of_cores w \<Longrightarrow> 0 \<le> n \<Longrightarrow> n + sum_list (map num_of_cores ws) < 2 ^ 31 \<Longrightarrow>
   sum_cores n ws = Inr (n + sum_list (map num_of_cores ws))"
proof (induction ws arbitrary: n)
  case (Cons w ws)
  have "0 \<le> sum_list (map num_of_cores ws)"
    using Cons.prems(1) by (intro sum_list_nonneg) (auto intro: less_imp_le)
  with Cons show ?case by simp
qed simp

lemma member_le_sum:
  "\<forall>w \<in> set ws. 0 < num_of_cores w \<Longrightarrow> w \<in> set ws \<Longrightarrow> num_of_cores w \<le> sum_list (map num_of_cores ws)"
  by (intro member_le_sum_list) (auto intro: less_imp_le)

text \<open>The interval and the number of points that a worker is given.\<close>

definition first_tasks :: "Task \<Rightarrow> int \<Rightarrow> int \<Rightarrow> Task" where
  "first_tasks t n c =
     \<lparr>tx1 = slice_edge (tx1 t) (tx2 t) n 0, tx2 = slice_edge (tx1 t) (tx2 t) n c,
      ty1 = ty1 t, ty2 = ty2 t, num_of_points = num_of_points t div n * c\<rparr>"

definition main_ok :: "Task \<Rightarrow> bool" where
  "main_ok t \<longleftrightarrow> \<bar>tx1 t\<bar> \<le> 2 ^ 60 \<and> \<bar>tx2 t\<bar> \<le> 2 ^ 60 \<and> \<bar>ty1 t\<bar> \<le> 2 ^ 60 \<and> \<bar>ty2 t\<bar> \<le> 2 ^ 60 \<and>
     0 \<le> num_of_points t \<and> num_of_points t < 2 ^ 63"

lemma points_bound:
  "0 \<le> (p :: int) \<Longrightarrow> 0 < c \<Longrightarrow> c \<le> n \<Longrightarrow> 0 \<le> p div n * c \<and> p div n * c \<le> p"
proof -
  assume a: "0 \<le> p" "0 < c" "c \<le> n"
  then have q: "0 \<le> p div n" by (simp add: pos_imp_zdiv_nonneg_iff)
  then have "p div n * c \<le> p div n * n" using a by (intro mult_left_mono)
  also have "\<dots> \<le> p" using a pos_mod_sign [of n p] div_mult_mod_eq [of p n] by linarith
  finally show ?thesis using q a by simp
qed

lemma first_tasks_ok:
  assumes "main_ok t" "0 < c" "c \<le> n" "n < 2 ^ 31"
  shows "task_ok (first_tasks t n c)"
proof -
  have "\<bar>x\<bar> \<le> 10 ^ 309" if "\<bar>x\<bar> \<le> (2 :: real) ^ 93" for x using that by simp
  moreover have "\<bar>slice_edge (tx1 t) (tx2 t) n 0\<bar> \<le> 2 ^ 93" "\<bar>slice_edge (tx1 t) (tx2 t) n c\<bar> \<le> 2 ^ 93"
    using assms by (intro slice_edge_bound; simp add: main_ok_def)+
  ultimately show ?thesis
    using assms points_bound [of "num_of_points t" c n] by (simp add: task_ok_def first_tasks_def main_ok_def)
qed

lemma worker_task_first:
  assumes "main_ok t" "0 < c" "c \<le> n" "n < 2 ^ 31"
  shows "worker_task (map (\<lambda>i. task_of_core t n (int i)) [0..<nat n]) 0 c = Inr (first_tasks t n c)"
proof -
  have "div_c (num_of_points t) n = num_of_points t div n"
    using assms by (simp add: div_c_def main_ok_def)
  then show ?thesis
    using assms points_bound [of "num_of_points t" c n]
    by (simp add: worker_task_def at_index_def task_of_core_def first_tasks_def main_ok_def)
qed

lemma send_lines_first:
  assumes "main_ok t" "n < 2 ^ 31" "\<forall>w \<in> set ws. 0 < num_of_cores w \<and> num_of_cores w \<le> n"
  shows "send_lines (map (\<lambda>i. task_of_core t n (int i)) [0..<nat n]) 0 ws =
    Inr (map (\<lambda>w. (socket w, print_one_task (first_tasks t n (num_of_cores w)))) ws)"
  using assms(3)
proof (induction ws)
  case (Cons w ws)
  then have c: "0 < num_of_cores w" "num_of_cores w \<le> n" by simp_all
  with Cons show ?case
    by (simp add: worker_task_first [OF assms(1) c assms(2)]
        task_line_ok(1) [OF first_tasks_ok [OF assms(1) c assms(2)]])
qed simp

text \<open>
  C29. \<open>send_task\<close> never advances \<open>task_number\<close>: whatever the workers are, each of them is
  sent an interval that begins at the left end of the whole one and spans the first
  \<open>num_of_cores\<close> slices, with its share of the points.
\<close>

theorem workers_start_together:
  assumes "main_ok t" "is_double (tx1 t)"
    and "\<forall>w \<in> set (active srv). 0 < num_of_cores w" "total_cores srv < 2 ^ 31"
    and "split_tasks t srv = Inr srv'"
  shows "send_task srv' = Inr (map (\<lambda>w. (socket w, print_one_task
      \<lparr>tx1 = tx1 t, tx2 = slice_edge (tx1 t) (tx2 t) (total_cores srv) (num_of_cores w),
       ty1 = ty1 t, ty2 = ty2 t,
       num_of_points = num_of_points t div total_cores srv * num_of_cores w\<rparr>)) (active srv))"
proof -
  let ?n = "total_cores srv"
  have "sum_cores 0 (active srv) = Inr ?n"
    using sum_cores_pos [of "active srv" 0] assms(3,4) by (simp add: total_cores_def)
  then have "srv' = srv\<lparr>tasks := map (\<lambda>i. task_of_core t ?n (int i)) [0..<nat ?n]\<rparr>"
    using assms(5) by (simp add: split_tasks_def)
  moreover have "\<forall>w \<in> set (active srv). 0 < num_of_cores w \<and> num_of_cores w \<le> ?n"
    using assms(3) member_le_sum unfolding total_cores_def by blast
  ultimately show ?thesis
    using send_lines_first [OF assms(1,4)]
    by (simp add: send_task_def active_def first_tasks_def slice_edge_0 [OF assms(2)])
qed

definition two_workers :: Server where
  "two_workers = \<lparr>workers = replicate 2 (empty_worker\<lparr>num_of_cores := 8\<rparr>), num_of_workers = 2, tasks = []\<rparr>"

theorem workers_start_together_witness:
  "\<exists>srv' out. split_tasks main_task two_workers = Inr srv' \<and> send_task srv' = Inr out \<and>
     length out = 2 \<and> out ! 0 = out ! 1"
proof -
  have t: "total_cores two_workers = 16"
    by (simp add: total_cores_def active_def two_workers_def eval_nat_numeral)
  have w: "\<forall>w \<in> set (active two_workers). num_of_cores w = 8"
    by (simp add: active_def two_workers_def)
  obtain srv' where s: "split_tasks main_task two_workers = Inr srv'"
    using sum_cores_pos [of "active two_workers" 0] w t by (simp add: split_tasks_def total_cores_def)
  have "main_ok main_task" "is_double (tx1 main_task)"
    by (simp_all add: main_ok_def main_task_def is_double_3)
  from workers_start_together [OF this _ _ s] w t s show ?thesis
    by (auto simp: active_def two_workers_def)
qed

section \<open>What is collected\<close>

text \<open>The sockets of a list of workers are open descriptors, all different.\<close>

definition socks :: "Worker list \<Rightarrow> int list" where
  "socks ws = map (\<lambda>w. the (socket w)) ws"

definition connected :: "Worker list \<Rightarrow> bool" where
  "connected ws \<longleftrightarrow> (\<forall>w \<in> set ws. \<exists>fd. socket w = Some fd \<and> 0 \<le> fd \<and> fd < 1024) \<and> distinct (socks ws)"

lemma socks_nth [simp]: "i < length ws \<Longrightarrow> socks ws ! i = the (socket (ws ! i))"
  by (simp add: socks_def)

lemma length_socks [simp]: "length (socks ws) = length ws"
  by (simp add: socks_def)

lemma fd_set_all_connected:
  "\<forall>w \<in> set ws. \<exists>fd. socket w = Some fd \<and> 0 \<le> fd \<and> fd < 1024 \<Longrightarrow> fd_set_all ws = Inr (socks ws)"
  by (induction ws) (auto simp: socks_def)

text \<open>What one round leaves in a worker that is looked at.\<close>

definition filled :: "(int \<Rightarrow> recv_event) \<Rightarrow> int set \<Rightarrow> Worker \<Rightarrow> Worker" where
  "filled rcv R w = (case socket w of None \<Rightarrow> w | Some fd \<Rightarrow>
     if fd \<in> R then (case rcv fd of Value v \<Rightarrow> w\<lparr>result := Some v\<rparr> | _ \<Rightarrow> w) else w)"

definition answers :: "(int \<Rightarrow> recv_event) \<Rightarrow> int \<Rightarrow> bool" where
  "answers rcv fd \<longleftrightarrow> (\<exists>v. rcv fd = Value v)"

lemma socket_filled [simp]: "socket (filled rcv R w) = socket w"
  by (simp add: filled_def split: option.split recv_event.split)

lemma receive_step:
  assumes "i < length ws" "socket (ws ! i) = Some fd" "fd \<in> set R \<Longrightarrow> rcv fd \<noteq> Broken"
  shows "receive rcv i (ws, R, c) =
    Inr (ws[i := filled rcv (set R) (ws ! i)], removeAll fd R,
         c + of_bool (fd \<in> set R \<and> answers rcv fd))"
  using assms by (cases "rcv fd") (auto simp: receive_def filled_def answers_def removeAll_id)

lemma filled_none: "filled rcv {} w = w"
  by (simp add: filled_def split: option.split)

lemma filter_removeAll_length:
  "distinct R \<Longrightarrow> length (filter P R) = of_bool (x \<in> set R \<and> P x) + length (filter P (removeAll x R))"
proof (induction R)
  case (Cons y R)
  then have ih: "length (filter P R) = of_bool (x \<in> set R \<and> P x) + length (filter P (removeAll x R))" by simp
  show ?case
  proof (cases "x = y")
    case True
    then have "removeAll x R = R" "x \<notin> set R" using Cons.prems by (simp_all add: removeAll_id)
    with True show ?thesis by simp
  next
    case False
    with ih show ?thesis by simp
  qed
qed simp

text \<open>The round as a whole: each socket is looked at once, and taken out of the set.\<close>

lemma receive_all_upt:
  assumes "connected ws" "\<And>fd. fd \<in> set R \<Longrightarrow> rcv fd \<noteq> Broken" "j + k = length ws"
    and "set R \<subseteq> set (drop j (socks ws))" "distinct R"
    and "us = map (filled rcv R0) (take j ws) @ drop j ws"
    and "set R = R0 \<inter> set (drop j (socks ws))"
  shows "receive_all rcv [j..<length ws] (us, R, c) =
    Inr (map (filled rcv R0) ws, [], c + length (filter (answers rcv) R))"
  using assms
proof (induction k arbitrary: j us R c)
  case 0
  then show ?case by simp
next
  case (Suc k)
  then have j: "j < length ws" by simp
  obtain fd where fd: "socket (ws ! j) = Some fd" using Suc.prems(1) nth_mem [OF j] unfolding connected_def by blast
  have drop: "drop j (socks ws) = fd # drop (Suc j) (socks ws)" "drop j ws = ws ! j # drop (Suc j) ws"
    using j fd by (simp_all add: Cons_nth_drop_Suc [symmetric])
  have fresh: "fd \<notin> set (drop (Suc j) (socks ws))"
    using Suc.prems(1) distinct_drop [of "socks ws" j] by (simp add: drop(1) connected_def)
  have len: "length (map (filled rcv R0) (take j ws)) = j" using j by simp
  have us: "us ! j = ws ! j" "j < length us" using Suc.prems(6) j by (simp_all add: nth_append drop(2))
  have same: "filled rcv (set R) (ws ! j) = filled rcv R0 (ws ! j)"
    using Suc.prems(7) fd by (simp add: drop(1) filled_def)
  have us': "us[j := filled rcv R0 (ws ! j)] = map (filled rcv R0) (take (Suc j) ws) @ drop (Suc j) ws"
    using Suc.prems(6) j len by (simp add: drop(2) list_update_append take_Suc_conv_app_nth)
  have R': "set (removeAll fd R) = R0 \<inter> set (drop (Suc j) (socks ws))"
    using Suc.prems(7) fresh by (auto simp: drop(1))
  have cnt: "length (filter (answers rcv) R) =
      of_bool (fd \<in> set R \<and> answers rcv fd) + length (filter (answers rcv) (removeAll fd R))"
    by (rule filter_removeAll_length [OF Suc.prems(5)])
  have "receive rcv j (us, R, c) = Inr (us[j := filled rcv (set R) (us ! j)], removeAll fd R,
      c + of_bool (fd \<in> set R \<and> answers rcv fd))"
    using us fd Suc.prems(2) by (intro receive_step) simp_all
  then have "receive_all rcv [j..<length ws] (us, R, c) =
      receive_all rcv [Suc j..<length ws] (us[j := filled rcv R0 (ws ! j)], removeAll fd R,
        c + of_bool (fd \<in> set R \<and> answers rcv fd))"
    using j by (simp add: upt_conv_Cons us(1) same)
  also have "\<dots> = Inr (map (filled rcv R0) ws, [],
      c + of_bool (fd \<in> set R \<and> answers rcv fd) + length (filter (answers rcv) (removeAll fd R)))"
    using Suc.prems j R' us' by (intro Suc.IH) (auto simp: distinct_removeAll)
  finally show ?case by (simp add: cnt)
qed

lemma receive_round:
  assumes "connected ws" "set R \<subseteq> set (socks ws)" "distinct R" "\<And>fd. fd \<in> set R \<Longrightarrow> rcv fd \<noteq> Broken"
  shows "receive_all rcv [0..<length ws] (ws, R, c) =
    Inr (map (filled rcv (set R)) ws, [], c + length (filter (answers rcv) R))"
  using assms by (intro receive_all_upt [of _ _ _ 0 "length ws"]) auto

text \<open>The entries behind the registered workers are not touched.\<close>

definition with_rest :: "Worker list \<Rightarrow> gather_state \<Rightarrow> gather_state" where
  "with_rest rest st = (case st of (us, R, c) \<Rightarrow> (us @ rest, R, c))"

lemma receive_rest:
  assumes "i < length us" "receive rcv i (us, R, c) = Inr st"
  shows "receive rcv i (us @ rest, R, c) = Inr (with_rest rest st) \<and> length (fst st) = length us"
  using assms
  by (auto simp: receive_def with_rest_def nth_append list_update_append
      split: option.splits if_splits recv_event.splits)

lemma receive_all_rest:
  assumes "\<forall>i \<in> set is. i < length us" "receive_all rcv is (us, R, c) = Inr st"
  shows "receive_all rcv is (us @ rest, R, c) = Inr (with_rest rest st)"
  using assms
proof (induction "is" arbitrary: us R c)
  case Nil
  then show ?case by (auto simp: with_rest_def)
next
  case (Cons i "is")
  obtain us' R' c' where 1: "receive rcv i (us, R, c) = Inr (us', R', c')"
    and 2: "receive_all rcv is (us', R', c') = Inr st"
    using Cons.prems(2) by (auto simp: bindS_eq_Inr_iff)
  have "i < length us" using Cons.prems(1) by simp
  from receive_rest [OF this 1] have "length us' = length us"
    and "receive rcv i (us @ rest, R, c) = Inr (us' @ rest, R', c')" by (simp_all add: with_rest_def)
  moreover have "receive_all rcv is (us' @ rest, R', c') = Inr (with_rest rest st)"
    using Cons.IH [OF _ 2] Cons.prems(1) \<open>length us' = length us\<close> by simp
  ultimately show ?case by simp
qed

lemma add_results_filled:
  assumes "\<forall>w \<in> set ws. result w = None" "\<forall>w \<in> set ws. \<exists>fd. socket w = Some fd"
  shows "add_results a (map (filled rcv R) ws) =
    (if \<forall>fd \<in> set (socks ws). fd \<in> R \<and> answers rcv fd
     then Inr (dbl_sum a (map (\<lambda>fd. case rcv fd of Value v \<Rightarrow> v | _ \<Rightarrow> None) (socks ws)))
     else Inl ReadUndef)"
  using assms
proof (induction ws arbitrary: a)
  case (Cons w ws)
  then obtain fd where fd: "socket w = Some fd" by auto
  show ?case
  proof (cases "fd \<in> R \<and> answers rcv fd")
    case True
    then obtain v where "rcv fd = Value v" by (auto simp: answers_def)
    with True fd Cons show ?thesis by (simp add: filled_def socks_def)
  next
    case False
    then have "result (filled rcv R w) = None"
      using fd Cons.prems(1) by (auto simp: filled_def answers_def split: recv_event.split)
    with False fd show ?thesis by (auto simp: socks_def)
  qed
qed (simp add: socks_def)

lemma gather_loop_once:
  assumes "connected ws" "0 < length ws" "evs = GReady ready rcv # GReady ready' rcv' # evs'"
    and "\<And>fd. fd \<in> set ready \<Longrightarrow> rcv fd \<noteq> Broken"
  shows "gather_loop (length ws) evs (ws @ rest, socks ws, 0) = Inr (map (filled rcv (set ready)) ws @ rest)"
proof -
  define R where "R = filter (\<lambda>fd. fd \<in> set ready) (socks ws)"
  have fR: "filled rcv (set R) w = filled rcv (set ready) w" if "w \<in> set ws" for w
    using that by (auto simp: filled_def R_def socks_def split: option.split)
      (metis image_eqI option.sel)+
  have round: "receive_all rcv [0..<length ws] (ws @ rest, R, 0) =
      Inr (with_rest rest (map (filled rcv (set ready)) ws, [], length (filter (answers rcv) R)))"
  proof (rule receive_all_rest)
    have "receive_all rcv [0..<length ws] (ws, R, 0) =
        Inr (map (filled rcv (set R)) ws, [], 0 + length (filter (answers rcv) R))"
      using assms(1,4) by (intro receive_round) (auto simp: R_def connected_def)
    moreover have "map (filled rcv (set R)) ws = map (filled rcv (set ready)) ws"
      using fR by simp
    ultimately show "receive_all rcv [0..<length ws] (ws, R, 0) =
        Inr (map (filled rcv (set ready)) ws, [], length (filter (answers rcv) R))" by simp
  qed simp
  show ?thesis
  proof (cases "R = []")
    case True
    have "map (filled rcv (set ready)) ws = ws"
      using fR [symmetric] True by (intro map_idI) (simp add: filled_none)
    then show ?thesis using True assms(2,3) by (simp add: R_def)
  next
    case False
    then show ?thesis
      using round assms(2,3) by (simp add: R_def [symmetric] with_rest_def)
  qed
qed

lemma gather_first:
  assumes "connected (active srv)" "active srv \<noteq> []" "num_of_workers srv \<le> length (workers srv)"
    and "\<forall>w \<in> set (active srv). result w = None"
    and "\<forall>fd \<in> set ready. rcv fd \<noteq> Broken"
  shows "gather_results (GReady ready rcv # GReady ready' rcv' # evs) srv =
    (if \<forall>fd \<in> set (socks (active srv)). fd \<in> set ready \<and> answers rcv fd
     then Inr (dbl_sum (Some 0) (map (\<lambda>fd. case rcv fd of Value v \<Rightarrow> v | _ \<Rightarrow> None) (socks (active srv))))
     else Inl ReadUndef)"
proof -
  let ?ws = "active srv" and ?n = "num_of_workers srv"
  have n: "length ?ws = ?n" "0 < ?n" using assms(2,3) by (auto simp: active_def)
  have ws: "workers srv = ?ws @ drop ?n (workers srv)" by (simp add: active_def)
  have c: "\<forall>w \<in> set ?ws. \<exists>fd. socket w = Some fd \<and> 0 \<le> fd \<and> fd < 1024"
    using assms(1) by (simp add: connected_def)
  have "at_index (workers srv) (int ?n - 1) = Inr (workers srv ! (?n - 1))"
    using n(2) assms(3) by (simp add: at_index_def nat_diff_distrib)
  moreover have "gather_loop ?n (GReady ready rcv # GReady ready' rcv' # evs) (workers srv, socks ?ws, 0)
      = Inr (map (filled rcv (set ready)) ?ws @ drop ?n (workers srv))"
    using gather_loop_once [OF assms(1) _ refl, of ready rcv ready' rcv' evs "drop ?n (workers srv)"]
      n assms(5) ws by simp
  moreover have "take ?n (map (filled rcv (set ready)) ?ws @ drop ?n (workers srv)) =
      map (filled rcv (set ready)) ?ws" using n(1) by simp
  moreover have "\<forall>w \<in> set ?ws. \<exists>fd. socket w = Some fd" using c by blast
  ultimately show ?thesis
    using fd_set_all_connected [OF c] add_results_filled [OF assms(4)]
    by (simp add: gather_results_def Let_def del: gather_loop.simps)
qed

text \<open>
  C28. \<open>readSet\<close> is filled once, before the loop, and \<open>select\<close> leaves only the ready sockets in
  it: when the first \<open>select\<close> does not report every worker with a value, the second one waits
  for nobody, and the sum reads a result that was never stored; only when all of them are
  ready at once the sum of their values, in the order of registration, is returned.
\<close>

theorem gather_counts_first_round:
  assumes "connected (active srv)" "active srv \<noteq> []" "num_of_workers srv \<le> length (workers srv)"
    and "\<forall>w \<in> set (active srv). result w = None"
    and "\<forall>fd \<in> set ready. rcv fd \<noteq> Broken"
  shows "gather_results (GReady ready rcv # GReady ready' rcv' # evs) srv =
    (if \<forall>fd \<in> set (socks (active srv)). fd \<in> set ready \<and> answers rcv fd
     then Inr (dbl_sum (Some 0) (map (\<lambda>fd. case rcv fd of Value v \<Rightarrow> v | _ \<Rightarrow> None) (socks (active srv))))
     else Inl ReadUndef)"
  by (rule gather_first [OF assms])

lemma dbl_sum_0_1: "is_double v \<Longrightarrow> dbl_sum (Some 0) [Some v] = Some v"
  by (simp add: is_double_def)

definition one_worker :: "int \<Rightarrow> Worker" where
  "one_worker fd = \<lparr>ip = ''10.0.0.1'', num_of_cores = 8, socket = Some fd, result = None\<rparr>"

definition one_connected :: Server where
  "one_connected = \<lparr>workers = [one_worker 3], num_of_workers = 1, tasks = []\<rparr>"

theorem gather_counts_first_round_witness:
  "gather_results [GReady [3] (\<lambda>_. Value (Some 2)), GReady [] (\<lambda>_. Closed)] one_connected = Inr (Some 2)"
proof -
  have a: "active one_connected = [one_worker 3]" by (simp add: active_def one_connected_def)
  have "connected (active one_connected)" "active one_connected \<noteq> []"
    "\<forall>w \<in> set (active one_connected). result w = None"
    unfolding a by (simp_all add: connected_def one_worker_def socks_def)
  moreover have "num_of_workers one_connected \<le> length (workers one_connected)"
    by (simp add: one_connected_def)
  moreover have "\<forall>fd \<in> set [3]. (\<lambda>_. Value (Some 2)) fd \<noteq> Broken" by simp
  moreover have "is_double 2" using is_double_int [of 2] by simp
  ultimately show ?thesis
    using gather_counts_first_round [of one_connected "[3]" "\<lambda>_. Value (Some 2)" "[]" "\<lambda>_. Closed" "[]"]
    by (simp add: a one_worker_def socks_def answers_def is_double_def)
qed

section \<open>Registration\<close>

text \<open>
  Well-formed: the array keeps its ten entries, the counter counts entries of it, and what
  is registered has an address that fits its field and a number of cores that is an \<open>int\<close>.
\<close>

definition server_wf :: "Server \<Rightarrow> bool" where
  "server_wf srv \<longleftrightarrow> length (workers srv) = MAX_WORKERS \<and> num_of_workers srv \<le> MAX_WORKERS \<and>
     (\<forall>w \<in> set (active srv). length (ip w) < IP4_LEN \<and> NUL \<notin> set (ip w) \<and>
        - (2 ^ 31) \<le> num_of_cores w \<and> num_of_cores w < 2 ^ 31)"

lemma empty_server_wf: "server_wf empty_server"
  by (simp add: server_wf_def empty_server_def active_def)

lemma inet_ntoa_no_NUL: "NUL \<notin> set (inet_ntoa a)"
  by (simp add: inet_ntoa_def show_nat_no_NUL split: prod.split)

lemma atoi_range: "atoi s = Inr i \<Longrightarrow> - (2 ^ 31) \<le> i \<and> i < 2 ^ 31"
  by (auto simp: atoi_def split: option.splits if_splits)

lemma take_list_update: "n < length ws \<Longrightarrow> take (Suc n) (ws[n := w]) = take n ws @ [w]"
  by (simp add: take_Suc_conv_app_nth)

lemma add_worker_wf: "server_wf srv \<Longrightarrow> add_worker srv payload from = Inr srv' \<Longrightarrow> server_wf srv'"
  by (auto simp: server_wf_def add_worker_def active_def Let_def bindS_eq_Inr_iff take_list_update
      inet_ntoa_no_NUL split: if_splits dest!: atoi_range [simplified])

lemma listen_loop_wf: "server_wf srv \<Longrightarrow> listen_loop srv rounds = Inr srv' \<Longrightarrow> server_wf srv'"
  by (induction srv rounds rule: listen_loop.induct)
    (auto simp: bindS_eq_Inr_iff split: if_splits udp_event.splits dest: add_worker_wf)

lemma split_tasks_wf: "server_wf srv \<Longrightarrow> split_tasks t srv = Inr srv' \<Longrightarrow> server_wf srv'"
  by (auto simp: split_tasks_def bindS_eq_Inr_iff server_wf_def active_def)

lemma connect_from_keeps:
  "connect_from conn i k ws = Inr ws' \<Longrightarrow> i + k \<le> length ws \<Longrightarrow>
   length ws' = length ws \<and> map ip ws' = map ip ws \<and> map num_of_cores ws' = map num_of_cores ws"
proof (induction k arbitrary: i ws)
  case (Suc k)
  then obtain fd where "conn i = Some fd" by (auto split: option.splits)
  with Suc.prems have "connect_from conn (Suc i) k (ws[i := (ws ! i)\<lparr>socket := Some fd\<rparr>]) = Inr ws'" by simp
  from Suc.IH [OF this] Suc.prems(2) show ?case by (simp add: map_update list_update_same_conv)
qed simp

lemma connect_wf: "server_wf srv \<Longrightarrow> establish_connections conn srv = Inr srv' \<Longrightarrow> server_wf srv'"
proof -
  assume wf: "server_wf srv" and e: "establish_connections conn srv = Inr srv'"
  let ?n = "num_of_workers srv"
  obtain ws where ws: "connect_from conn 0 ?n (workers srv) = Inr ws" "srv' = srv\<lparr>workers := ws\<rparr>"
    using e by (auto simp: establish_connections_def bindS_eq_Inr_iff)
  have len: "?n \<le> length (workers srv)" using wf by (simp add: server_wf_def)
  note keep = connect_from_keeps [OF ws(1), simplified, OF len]
  have eq: "map ip (take ?n ws) = map ip (active srv)"
    "map num_of_cores (take ?n ws) = map num_of_cores (active srv)"
    using keep by (simp_all only: take_map [symmetric] active_def)
  have ex: "\<exists>v \<in> set (active srv). ip v = ip w \<and> num_of_cores v = num_of_cores w"
    if "w \<in> set (take ?n ws)" for w
  proof -
    obtain i where i: "i < length (take ?n ws)" "w = take ?n ws ! i"
      using \<open>w \<in> set (take ?n ws)\<close> by (auto simp: in_set_conv_nth)
    have "length (active srv) = length (take ?n ws)" using eq(1) by (metis length_map)
    then have "ip (active srv ! i) = ip w" "num_of_cores (active srv ! i) = num_of_cores w"
      "active srv ! i \<in> set (active srv)"
      using i eq by (metis nth_map, metis nth_map, simp)
    then show ?thesis by blast
  qed
  show ?thesis
    using wf ex keep unfolding server_wf_def active_def by (fastforce simp: ws(2))
qed

text \<open>
  Every datagram that may be registered comes from an address that fits its field, and how
  many datagrams come before the five seconds are over.
\<close>

definition addresses_fit :: "(int \<times> udp_event) list \<Rightarrow> bool" where
  "addresses_fit rounds \<longleftrightarrow>
     (\<forall>e p a. (e, Datagram p a) \<in> set rounds \<longrightarrow> length (inet_ntoa a) < IP4_LEN)"

fun datagrams :: "(int \<times> udp_event) list \<Rightarrow> nat" where
  "datagrams [] = 0"
| "datagrams ((elapsed, ev) # rounds) =
     (if 5 \<le> elapsed then 0 else (case ev of Datagram p a \<Rightarrow> 1 | _ \<Rightarrow> 0) + datagrams rounds)"

lemma atoi_error: "atoi s = Inl e \<Longrightarrow> e = Overflow"
  by (auto simp: atoi_def split: option.splits if_splits)

lemma add_worker_error:
  "length (inet_ntoa a) < IP4_LEN \<Longrightarrow> add_worker srv p a = Inl e \<Longrightarrow> e = Overflow"
  by (auto simp: add_worker_def Let_def bindS_def split: sum.splits if_splits dest: atoi_error)

lemma listen_loop_error:
  "addresses_fit rounds \<Longrightarrow> listen_loop srv rounds = Inl e \<Longrightarrow> e \<in> {CallFailed, Blocked, Overflow}"
proof (induction srv rounds rule: listen_loop.induct)
  case (2 srv elapsed ev rounds)
  have fit: "addresses_fit rounds" using 2(3) by (auto simp: addresses_fit_def)
  show ?case
  proof (cases ev)
    case (Datagram p a)
    then have "length (inet_ntoa a) < IP4_LEN" using 2(3) unfolding addresses_fit_def by (meson list.set_intros(1))
    then show ?thesis
      using 2 fit Datagram add_worker_error [of a srv p]
      by (cases "add_worker srv p a") (auto split: if_splits)
  qed (use 2 fit in \<open>auto split: if_splits\<close>)
qed simp

lemma add_worker_count:
  "add_worker srv p a = Inr srv' \<Longrightarrow> num_of_workers srv \<le> MAX_WORKERS \<Longrightarrow>
   num_of_workers srv' = min MAX_WORKERS (Suc (num_of_workers srv))"
  by (auto simp: add_worker_def Let_def bindS_eq_Inr_iff split: if_splits)

lemma listen_loop_count:
  "listen_loop srv rounds = Inr srv' \<Longrightarrow> num_of_workers srv \<le> MAX_WORKERS \<Longrightarrow>
   num_of_workers srv' = min MAX_WORKERS (num_of_workers srv + datagrams rounds)"
proof (induction srv rounds rule: listen_loop.induct)
  case (2 srv elapsed ev rounds)
  show ?case
  proof (cases ev)
    case (Datagram p a)
    then show ?thesis using 2 by (cases "add_worker srv p a") (auto dest: add_worker_count split: if_splits)
  qed (use 2 in \<open>auto split: if_splits\<close>)
qed simp

lemma sum_cores_error: "sum_cores n ws = Inl e \<Longrightarrow> e = Overflow"
  by (induction ws arbitrary: n) (auto split: if_splits)

lemma connect_from_error: "connect_from conn i k ws = Inl e \<Longrightarrow> e = CallFailed"
  by (induction k arbitrary: i ws) (auto split: option.splits)


lemma length_show_byte:
  assumes "n < 256"
  shows "length (show_nat n) = (if n < 10 then 1 else if n < 100 then 2 else 3)"
proof -
  consider "n < 10" | "10 \<le> n" "n < 100" | "100 \<le> n" by linarith
  then show ?thesis
  proof cases
    case 2
    then have "n div 10 < 10" by simp
    with 2 show ?thesis by (simp add: show_nat.simps [of n] show_nat.simps [of "n div 10"])
  next
    case 3
    then have "\<not> n div 10 < 10" "n div 10 div 10 < 10" using assms by simp_all
    with 3 show ?thesis
      by (simp add: show_nat.simps [of n] show_nat.simps [of "n div 10"] show_nat.simps [of "n div 10 div 10"])
  qed (simp add: show_nat.simps [of n])
qed

text \<open>
  C32. A fresh datagram is registered with the address of its sender and the number in its
  text as long as there is room; the address does not fit exactly when all its four numbers
  have three digits, as for the hosts from 100 on in the network that is invited; an
  eleventh worker is ignored.
\<close>

theorem register_worker:
  assumes "p < 256" "q < 256" "r < 256" "s < 256" "NUL \<notin> set msg" "length msg < CLUSTER_BUF"
    and "atoi msg = Inr cores"
  shows "add_worker srv msg (p, q, r, s) =
    (if MAX_WORKERS \<le> num_of_workers srv then Inr srv
     else if 100 \<le> p \<and> 100 \<le> q \<and> 100 \<le> r \<and> 100 \<le> s then Inl OutOfBounds
     else Inr (srv\<lparr>workers := (workers srv)[num_of_workers srv :=
                   \<lparr>ip = inet_ntoa (p, q, r, s), num_of_cores = cores, socket = None, result = None\<rparr>],
                 num_of_workers := Suc (num_of_workers srv)\<rparr>))"
proof -
  have "length (inet_ntoa (p, q, r, s)) < IP4_LEN \<longleftrightarrow> \<not> (100 \<le> p \<and> 100 \<le> q \<and> 100 \<le> r \<and> 100 \<le> s)"
    using assms(1-4) by (simp add: inet_ntoa_def IP4_LEN_def length_show_byte)
  moreover have "cstr (take (CLUSTER_BUF - 1) msg @ [NUL]) = msg" using assms(5,6) by simp
  ultimately show ?thesis using assms(7) by (simp add: add_worker_def Let_def)
qed

theorem register_worker_witness:
  "add_worker empty_server (show_int 8) (192, 168, 109, 128) = Inl OutOfBounds \<and>
   (\<exists>srv. add_worker empty_server (show_int 8) (192, 168, 109, 7) = Inr srv \<and> num_of_workers srv = 1)"
proof -
  have m: "NUL \<notin> set (show_int 8)" "length (show_int 8) < CLUSTER_BUF" "atoi (show_int 8) = Inr 8"
    using atoi_show [of 8] show_nat_no_NUL [of 8] length_show_byte [of 8]
    by (simp_all add: show_int_def CLUSTER_BUF_def)
  show ?thesis
    using register_worker [OF _ _ _ _ m, of 192 168 109 7 empty_server]
      register_worker [OF _ _ _ _ m, of 192 168 109 128 empty_server]
    by (simp add: empty_server_def MAX_WORKERS_def)
qed

section \<open>One worker, from the invitation to the result\<close>

lemma first_tasks_main: "first_tasks main_task 8 8 = main_task"
proof -
  have "slice_edge 0 3 8 8 = 3" by (rule slice_edge_last [of _ _ _ 3]) (simp_all add: is_double_3)
  then show ?thesis by (simp add: first_tasks_def main_task_def slice_edge_0 is_double_3)
qed

definition registered :: "ip4 \<Rightarrow> int option \<Rightarrow> Task list \<Rightarrow> Server" where
  "registered a fd ts = empty_server\<lparr>workers := (workers empty_server)[0 :=
       \<lparr>ip = inet_ntoa a, num_of_cores = 8, socket = fd, result = None\<rparr>], num_of_workers := 1, tasks := ts\<rparr>"

lemma active_registered:
  "active (registered a fd ts) = [\<lparr>ip = inet_ntoa a, num_of_cores = 8, socket = fd, result = None\<rparr>]"
  by (simp add: active_def registered_def empty_server_def MAX_WORKERS_def eval_nat_numeral)

lemma listen_registered:
  assumes "length (inet_ntoa a) < IP4_LEN" "e < 5"
  shows "listen_loop empty_server [(e, Datagram (show_int MAX_CORES) a), (5, Quiet)] = Inr (registered a None [])"
proof -
  have "cstr (take (CLUSTER_BUF - 1) (show_int 8) @ [NUL]) = show_int 8"
    using show_nat_no_NUL [of 8] length_show_nat [of 8 1]
    by (simp add: show_int_def CLUSTER_BUF_def)
  then have "add_worker empty_server (show_int MAX_CORES) a = Inr (registered a None [])"
    using assms(1) atoi_show [of 8]
    by (simp add: add_worker_def Let_def MAX_CORES_def registered_def empty_server_def MAX_WORKERS_def)
  with assms(2) show ?thesis by simp
qed

definition main_tasks :: "Task list" where
  "main_tasks = map (\<lambda>i. task_of_core main_task 8 (int i)) [0..<nat 8]"

lemma split_registered: "split_tasks main_task (registered a fd []) = Inr (registered a fd main_tasks)"
  unfolding split_tasks_def active_registered by (simp add: main_tasks_def registered_def)

lemma connect_registered:
  "conn 0 = Some fd \<Longrightarrow> establish_connections conn (registered a None ts) = Inr (registered a (Some fd) ts)"
  by (simp add: establish_connections_def registered_def empty_server_def MAX_WORKERS_def)

lemma send_registered:
  "send_task (registered a fd main_tasks) = Inr [(fd, print_one_task main_task)]"
proof -
  have "main_ok main_task" by (simp add: main_ok_def main_task_def)
  then have "send_lines main_tasks 0 (active (registered a fd main_tasks)) =
      Inr (map (\<lambda>w. (socket w, print_one_task (first_tasks main_task 8 (num_of_cores w))))
        (active (registered a fd main_tasks)))"
    unfolding main_tasks_def by (rule send_lines_first) (simp_all add: active_registered)
  moreover have "tasks (registered a fd main_tasks) = main_tasks" by (simp add: registered_def)
  ultimately show ?thesis by (simp add: send_task_def active_registered first_tasks_main)
qed

lemma gather_registered:
  assumes "0 \<le> fd" "fd < 1024" "rcv fd = Value (Some v)" "is_double v"
  shows "gather_results (GReady [fd] rcv # GReady ready' rcv' # evs) (registered a (Some fd) ts) = Inr (Some v)"
proof -
  have "connected (active (registered a (Some fd) ts))"
    unfolding active_registered using assms by (simp add: connected_def socks_def)
  moreover have "num_of_workers (registered a (Some fd) ts) \<le> length (workers (registered a (Some fd) ts))"
    by (simp add: registered_def empty_server_def MAX_WORKERS_def)
  ultimately show ?thesis
    using gather_first [of "registered a (Some fd) ts" "[fd]" rcv ready' rcv' evs] assms
    by (simp add: active_registered socks_def answers_def is_double_def)
qed

lemma main_args_8:
  obtains args where "mc_args main_task MAX_CORES = Inr args" "length args = 8"
    "\<And>i. i < 8 \<Longrightarrow> to_long (args ! i ! 4) = Inr 12500"
proof -
  obtain args where args: "mc_args main_task 8 = Inr args" by (simp add: mc_args_def)
  have "length args = 8" using mc_args_nth(2) [OF args] by simp
  moreover have "to_long (args ! i ! 4) = Inr 12500" if "i < 8" for i
    using thread_points [OF args, of i] \<open>length args = 8\<close> that by (simp add: main_task_def)
  ultimately show thesis using args that by (simp add: MAX_CORES_def)
qed

text \<open>
  C27. With one worker the parts fit together: the answer of the worker to the broadcast
  registers it with its eight cores, the line it is sent reads as exactly the whole task, its
  eight threads get 12500 points each, and the value it sends back is the result.
\<close>

theorem one_worker_end_to_end:
  assumes "\<And>c. ok c" "worker_start ok = (Some reply, Inr ())" "e < 5" "length (inet_ntoa a) < IP4_LEN"
    and "conn 0 = Some fd" "0 \<le> fd" "fd < 1024" "rcv fd = Value (Some v)" "is_double v"
  shows "\<exists>line args.
    server_main ok [(e, Datagram reply a), (5, Quiet)] conn (GReady [fd] rcv # GReady ready' rcv' # evs) =
      Inr ([(Some fd, line)], Some v) \<and>
    worker_serve ok (Some line) = Inr (main_task, args) \<and> length args = 8 \<and>
    (\<forall>i < 8. to_long (args ! i ! 4) = Inr 12500)"
proof -
  have r: "reply = show_int MAX_CORES" using assms(1,2) by (simp add: worker_start_def need_def)
  obtain args where args: "mc_args main_task MAX_CORES = Inr args" "length args = 8"
    "\<And>i. i < 8 \<Longrightarrow> to_long (args ! i ! 4) = Inr 12500" using main_args_8 by blast
  have i: "send_invite_to_workers ok = Inr ''Hello''"
    using assms(1) by (simp add: send_invite_to_workers_def needs_iff)
  have l: "rcv_ip_from_workers ok [(e, Datagram (show_int MAX_CORES) a), (5, Quiet)] empty_server =
      Inr (registered a None [])"
    using assms(1) listen_registered [OF assms(4,3)]
    by (simp add: rcv_ip_from_workers_def needs_iff del: listen_loop.simps)
  have "server_main ok [(e, Datagram reply a), (5, Quiet)] conn (GReady [fd] rcv # GReady ready' rcv' # evs) =
      Inr ([(Some fd, print_one_task main_task)], Some v)"
    unfolding server_main_def r by (simp only: i l split_registered
        connect_registered [of conn, OF assms(5)] send_registered
        gather_registered [of fd rcv, OF assms(6-9)] bindS_simps)
  moreover have "worker_serve ok (Some (print_one_task main_task)) = Inr (main_task, args)"
    using assms(1) args(1) worker_reads_line [OF main_task_ok]
    by (simp add: worker_serve_def need_def received_main_task)
  ultimately show ?thesis using args by blast
qed

theorem one_worker_end_to_end_witness:
  "\<exists>line args.
    server_main (\<lambda>_. True) [(0, Datagram (show_int 8) (10, 0, 0, 1)), (5, Quiet)] (\<lambda>_. Some 3)
      [GReady [3] (\<lambda>_. Value (Some 2)), GReady [] (\<lambda>_. Closed)] = Inr ([(Some 3, line)], Some 2) \<and>
    worker_serve (\<lambda>_. True) (Some line) = Inr (main_task, args)"
proof -
  have "worker_start (\<lambda>_. True) = (Some (show_int 8), Inr ())" by (simp add: worker_start_def need_def MAX_CORES_def)
  moreover have "length (inet_ntoa (10, 0, 0, 1)) < IP4_LEN"
    by (simp add: inet_ntoa_def length_show_byte IP4_LEN_def)
  moreover have "is_double 2" using is_double_int [of 2] by simp
  ultimately show ?thesis
    using one_worker_end_to_end [of "\<lambda>_. True" "show_int 8" 0 "(10, 0, 0, 1)" "\<lambda>_. Some 3" 3
        "\<lambda>_. Value (Some 2)" 2 "[]" "\<lambda>_. Closed" "[]"] by auto
qed

text \<open>Without a worker the server looks at the socket of the entry before the first one.\<close>

lemma no_worker_out_of_bounds:
  "num_of_workers srv = 0 \<Longrightarrow> gather_results evs srv = Inl OutOfBounds"
  by (simp add: gather_results_def at_index_def)


end
