(* ===== verification/Daemon.thy ===== *)
theory Daemon
  imports Decimal "HOL-Library.Word"
begin

text \<open>
  The directory daemon (\<open>task_6\<close>, \<open>main.c\<close>, \<open>daemon.c\<close>): \<open>main_daemon\<close> leaves the starting
  directory and reads the configuration, \<open>add_watcher_recursive\<close> walks over the directory
  tree of the watched process, \<open>event_loop\<close> cuts what \<open>read\<close> delivers into inotify events,
  and \<open>file_created\<close> and \<open>file_modified\<close> are the shell commands that answer them.
  The file system enters as the contents of the files that are read and as a tree.
\<close>

unbundle bit_operations_syntax

section \<open>State and configuration\<close>

definition PATH_MAX :: nat where
  "PATH_MAX = 4096"

record Daemon =
  sleep_seconds :: int
  pid :: int
  dump_dir :: string
  inotify_fd :: int
  inotify_size :: nat
  inotify_capacity :: nat
  inotify_wds :: "int list"
  config_file :: string

definition zero_daemon :: Daemon where
  "zero_daemon = \<lparr>sleep_seconds = 0, pid = 0, dump_dir = '''', inotify_fd = 0, inotify_size = 0,
     inotify_capacity = 0, inotify_wds = [], config_file = ''''\<rparr>"

text \<open>\<open>%s\<close> reads a word into a buffer of \<open>n\<close> bytes; \<open>None\<close>: there is none.\<close>

definition scan_word :: "nat \<Rightarrow> string \<Rightarrow> string option result" where
  "scan_word n s = (let w = takeWhile (\<lambda>c. \<not> is_space c) (skip_space s)
     in if w = [] then Inr None else if length w < n then Inr (Some w) else Inl OutOfBounds)"

text \<open>\<open>%d\<close>: a number that is not an \<open>int\<close> has no defined value.\<close>

definition scan_d :: "string \<Rightarrow> (int \<times> string) option result" where
  "scan_d s = (case scan_int s of
      None \<Rightarrow> Inr None
    | Some (i, r) \<Rightarrow> if - (2 ^ 31) \<le> i \<and> i < 2 ^ 31 then Inr (Some (i, r)) else Inl Overflow)"

text \<open>\<open>fscanf(f, "%d %d %s", ...)\<close>: a field that is not there ends it, the others keep their value.\<close>

definition read_config :: "string \<Rightarrow> Daemon \<Rightarrow> Daemon result" where
  "read_config s d =
     bindS (scan_d s) (\<lambda>f. case f of None \<Rightarrow> Inr d | Some (p, s1) \<Rightarrow> (let d1 = d\<lparr>pid := p\<rparr>
      in bindS (scan_d s1) (\<lambda>f. case f of None \<Rightarrow> Inr d1 | Some (n, s2) \<Rightarrow> (let d2 = d1\<lparr>sleep_seconds := n\<rparr>
      in bindS (scan_word PATH_MAX s2) (\<lambda>w.
           Inr (case w of None \<Rightarrow> d2 | Some x \<Rightarrow> d2\<lparr>dump_dir := x\<rparr>))))))"

text \<open>A command in a buffer of \<open>n\<close> bytes.\<close>

definition sprintf :: "nat \<Rightarrow> string \<Rightarrow> string result" where
  "sprintf n s = (if length s < n then Inr s else Inl OutOfBounds)"

text \<open>What a command or a file access changes, with the directory it is done in.\<close>

datatype action = Shell string | Truncate string

type_synonym effects = "(string \<times> action) list"

definition DIRS :: nat where
  "DIRS = 100"

text \<open>
  \<open>fd\<close> is what \<open>inotify_init\<close> returns, \<open>cfg\<close> the text of the file, \<open>None\<close> when it cannot
  be opened: then the assertion fails.
\<close>

definition daemon_init :: "int \<Rightarrow> string option \<Rightarrow> string \<Rightarrow> string \<Rightarrow> (Daemon \<times> effects) result" where
  "daemon_init fd cfg dir name =
     (if fd = -1 then Inl CallFailed
      else case cfg of
        None \<Rightarrow> Inl Aborted
      | Some s \<Rightarrow>
          bindS (read_config s (zero_daemon\<lparr>inotify_fd := fd\<rparr>)) (\<lambda>d.
          bindS (sprintf PATH_MAX (''mkdir '' @ dump_dir d)) (\<lambda>cmd.
            Inr (d\<lparr>config_file := name, inotify_capacity := DIRS, inotify_size := 0,
                   inotify_wds := replicate DIRS 0\<rparr>, [(dir, Shell cmd)]))))"

definition change_cfg :: "string option \<Rightarrow> Daemon \<Rightarrow> Daemon result" where
  "change_cfg cfg d = (case cfg of None \<Rightarrow> Inl Aborted | Some s \<Rightarrow> read_config s d)"

section \<open>Watching a directory tree\<close>

text \<open>
  A directory entry; a directory has its name, whether it may be read, and its entries
  in the order of \<open>readdir\<close>, which reports \<open>.\<close> and \<open>..\<close> as well.
\<close>

datatype entry = File string | Dir string bool "entry list"

definition entry_name :: "entry \<Rightarrow> string" where
  "entry_name e = (case e of File n \<Rightarrow> n | Dir n r es \<Rightarrow> n)"

definition dots :: "string \<Rightarrow> bool" where
  "dots n \<longleftrightarrow> n = ''.'' \<or> n = ''..''"

definition store_wd :: "int \<Rightarrow> Daemon \<Rightarrow> Daemon result" where
  "store_wd wd d =
     (if inotify_size d < length (inotify_wds d)
      then Inr (d\<lparr>inotify_wds := (inotify_wds d)[inotify_size d := wd],
                  inotify_size := Suc (inotify_size d)\<rparr>)
      else Inl OutOfBounds)"

text \<open>
  \<open>watch\<close> is \<open>inotify_add_watch\<close>, \<open>limit\<close> the number of descriptors a process may have and
  \<open>k\<close> how many it has: a directory that is opened is not closed again.
\<close>

fun add_watcher_recursive ::
  "(string \<Rightarrow> int) \<Rightarrow> nat \<Rightarrow> string \<Rightarrow> bool \<Rightarrow> entry list \<Rightarrow> Daemon \<times> nat \<Rightarrow> (Daemon \<times> nat) result"
and visit_entries ::
  "(string \<Rightarrow> int) \<Rightarrow> nat \<Rightarrow> string \<Rightarrow> entry list \<Rightarrow> Daemon \<times> nat \<Rightarrow> (Daemon \<times> nat) result" where
  "add_watcher_recursive watch limit wd readable es st =
     (if readable \<and> snd st < limit then
        bindS (store_wd (watch wd) (fst st)) (\<lambda>d.
        bindS (sprintf PATH_MAX (wd @ ''/'')) (\<lambda>_.
          visit_entries watch limit wd es (d, Suc (snd st))))
      else Inr st)"
| "visit_entries watch limit wd [] st = Inr st"
| "visit_entries watch limit wd (File n # es) st =
     bindS (sprintf PATH_MAX (wd @ ''/'' @ n)) (\<lambda>_. visit_entries watch limit wd es st)"
| "visit_entries watch limit wd (Dir n r sub # es) st =
     bindS (sprintf PATH_MAX (wd @ ''/'' @ n)) (\<lambda>path.
       if dots n then visit_entries watch limit wd es st
       else bindS (add_watcher_recursive watch limit path r sub st) (\<lambda>st'.
         visit_entries watch limit wd es st'))"

section \<open>Events\<close>

definition EVENT_SIZE :: nat where
  "EVENT_SIZE = 16"

definition BUF_LEN :: nat where
  "BUF_LEN = 1024 * (EVENT_SIZE + 16)"

definition IN_MODIFY :: "32 word" where
  "IN_MODIFY = 2"

definition IN_CREATE :: "32 word" where
  "IN_CREATE = 256"

definition IN_DELETE :: "32 word" where
  "IN_DELETE = 512"

definition asked :: "32 word \<Rightarrow> bool" where
  "asked m \<longleftrightarrow> m AND (IN_CREATE OR IN_MODIFY OR IN_DELETE) \<noteq> 0"

text \<open>A little-endian field of four bytes.\<close>

fun le32 :: "bytes \<Rightarrow> nat" where
  "le32 [] = 0"
| "le32 (b # bs) = of_char b + 256 * le32 bs"

record event =
  mask :: "32 word"
  ev_name :: string

definition field :: "bytes \<Rightarrow> nat \<Rightarrow> nat" where
  "field buf i = le32 (take 4 (drop i buf))"

text \<open>
  The loop over the buffer: the header of an event is 16 bytes, \<open>mask\<close> the second field,
  \<open>len\<close> the fourth, the name a C string behind it, which is read for the masks asked for
  and for no other.
\<close>

function event_loop :: "bytes \<Rightarrow> nat \<Rightarrow> nat \<Rightarrow> event list result" where
  "event_loop buf i len =
     (if i < len then
        (if i + EVENT_SIZE \<le> length buf then
           (let m = of_nat (field buf (i + 4)); name = drop (i + EVENT_SIZE) buf
            in if asked m \<and> NUL \<notin> set name then Inl ReadUndef
               else bindS (event_loop buf (i + EVENT_SIZE + field buf (i + 12)) len) (\<lambda>evs.
                 Inr (\<lparr>mask = m, ev_name = (if asked m then cstr name else [])\<rparr> # evs)))
         else Inl OutOfBounds)
      else Inr [])"
  by pat_completeness auto
termination
  by (relation "measure (\<lambda>(buf, i, len). len - i)") (auto simp: EVENT_SIZE_def)

declare event_loop.simps [simp del]

section \<open>Answering an event\<close>

text \<open>
  What the outside world contributes: whether \<open>find_file\<close> can be created, what the \<open>find\<close>
  command leaves in it (\<open>None\<close>: it cannot be opened again), and the local time.
\<close>

record outside =
  can_create :: bool
  find_output :: "string option"
  tm_year :: nat
  tm_mon :: nat
  tm_mday :: nat
  tm_hour :: nat
  tm_min :: nat
  tm_sec :: nat

text \<open>The part both handlers start with: where the file is, and the effects so far.\<close>

definition find_file :: "outside \<Rightarrow> string \<Rightarrow> string \<Rightarrow> string \<Rightarrow> string \<Rightarrow> (string \<times> effects) result" where
  "find_file w dir cwd dump filename =
     bindS (sprintf PATH_MAX (dump @ ''/find_file'')) (\<lambda>filepath.
       if can_create w then
         bindS (sprintf PATH_MAX (''find -name '' @ filename @ '' > '' @ filepath)) (\<lambda>cmd.
           case find_output w of
             None \<Rightarrow> Inl NullDeref
           | Some out \<Rightarrow>
               bindS (scan_word PATH_MAX out) (\<lambda>found.
                 Inr (case found of None \<Rightarrow> filepath | Some f \<Rightarrow> f,
                      [(dir, Truncate filepath), (cwd, Shell cmd)])))
       else Inl NullDeref)"

definition file_created :: "outside \<Rightarrow> string \<Rightarrow> string \<Rightarrow> string \<Rightarrow> string \<Rightarrow> effects result" where
  "file_created w dir cwd dump filename =
     bindS (find_file w dir cwd dump filename) (\<lambda>(filepath, eff).
     bindS (sprintf PATH_MAX (''mkdir '' @ dump @ ''/'' @ filename)) (\<lambda>mkdir.
     bindS (sprintf PATH_MAX (''cp '' @ filepath @ '' '' @ dump @ ''/'' @ filename)) (\<lambda>cp.
       Inr (eff @ [(cwd, Shell mkdir), (cwd, Shell cp)]))))"

definition diff_name :: "outside \<Rightarrow> string \<Rightarrow> string" where
  "diff_name w filename =
     filename @ ''_'' @ show_nat (tm_year w) @ ''-'' @ pad0 2 (tm_mon w) @ ''-'' @ pad0 2 (tm_mday w) @ ''_'' @
     pad0 2 (tm_hour w) @ ''-'' @ pad0 2 (tm_min w) @ ''-'' @ pad0 2 (tm_sec w) @ ''.diff''"

definition file_modified :: "outside \<Rightarrow> string \<Rightarrow> string \<Rightarrow> string \<Rightarrow> string \<Rightarrow> effects result" where
  "file_modified w dir cwd dump filename =
     bindS (find_file w dir cwd dump filename) (\<lambda>(filepath, eff).
     bindS (sprintf 100 (diff_name w filename)) (\<lambda>diff.
     bindS (sprintf PATH_MAX (''diff '' @ filepath @ '' '' @ dump @ ''/'' @ filename @ ''/'' @ filename @ '' > '' @
              dump @ ''/'' @ filename @ ''/'' @ diff)) (\<lambda>cmd.
     bindS (sprintf PATH_MAX (''cp '' @ filepath @ '' '' @ dump @ ''/'' @ filename)) (\<lambda>cp.
       Inr (eff @ [(cwd, Shell cmd), (cwd, Shell cp)])))))"

text \<open>The body of the event loop: a creation, then a modification; a deletion is only reported.\<close>

definition answer :: "outside \<Rightarrow> string \<Rightarrow> string \<Rightarrow> string \<Rightarrow> event \<Rightarrow> (string \<times> effects) result" where
  "answer w dir cwd dump ev =
     bindS (if mask ev AND IN_CREATE \<noteq> 0
            then bindS (file_created w dir cwd dump (ev_name ev)) (\<lambda>e. Inr (cwd, e))
            else Inr (dir, [])) (\<lambda>(dir, e1).
       if mask ev AND IN_MODIFY \<noteq> 0
       then bindS (file_modified w dir cwd dump (ev_name ev)) (\<lambda>e2. Inr (cwd, e1 @ e2))
       else Inr (dir, e1))"

fun answer_all :: "outside list \<Rightarrow> string \<Rightarrow> string \<Rightarrow> string \<Rightarrow> event list \<Rightarrow> (string \<times> effects) result" where
  "answer_all (w # ws) dir cwd dump (ev # evs) =
     bindS (answer w dir cwd dump ev) (\<lambda>(dir, e1).
     bindS (answer_all ws dir cwd dump evs) (\<lambda>(dir, e2). Inr (dir, e1 @ e2)))"
| "answer_all _ dir cwd dump _ = Inr (dir, [])"

text \<open>
  One round of the endless loop: \<open>flag\<close> is \<open>CHANGE_CFG\<close>, \<open>buf\<close> what \<open>read\<close> delivered
  (nothing when it failed), \<open>ws\<close> the outside world at each event, \<open>dir\<close> the working directory.
\<close>

definition monitor_round ::
  "bool \<Rightarrow> string option \<Rightarrow> bytes \<Rightarrow> outside list \<Rightarrow> string \<Rightarrow> string \<Rightarrow> Daemon \<Rightarrow>
   (Daemon \<times> string \<times> effects) result" where
  "monitor_round flag cfg buf ws dir cwd d =
     bindS (if flag then change_cfg cfg d else Inr d) (\<lambda>d.
     bindS (event_loop buf 0 (length buf)) (\<lambda>evs.
     bindS (answer_all ws dir cwd (dump_dir d) evs) (\<lambda>(dir, e). Inr (d, dir, e))))"

section \<open>Starting\<close>

text \<open>A path as the process sees it from the directory \<open>dir\<close>.\<close>

definition resolve :: "string \<Rightarrow> string \<Rightarrow> string" where
  "resolve dir path =
     (if path \<noteq> [] \<and> hd path = CHR ''/'' then path
      else if dir = ''/'' then ''/'' @ path else dir @ ''/'' @ path)"

text \<open>
  The files that are read, by their absolute path; whether a process exists and where its
  working directory is; the tree below that directory.
\<close>

record system =
  files :: "string \<Rightarrow> string option"
  process_cwd :: "int \<Rightarrow> string option option"
  tree :: "string \<Rightarrow> bool \<times> entry list"
  new_inotify :: int
  watch_number :: "string \<Rightarrow> int"
  fd_limit :: nat
  fds_open :: nat

text \<open>
  \<open>daemon_main\<close> up to the endless loop, in the directory \<open>dir\<close>: the daemon, the watched
  directory, the commands that were run.  \<open>readlink\<close> cuts a path at \<open>PATH_MAX - 1\<close> bytes.
\<close>

definition daemon_main :: "system \<Rightarrow> string \<Rightarrow> string \<Rightarrow> (Daemon \<times> string \<times> effects) result" where
  "daemon_main sys dir config =
     bindS (daemon_init (new_inotify sys) (files sys (resolve dir config)) dir config) (\<lambda>(d, eff).
       case process_cwd sys (pid d) of
         None \<Rightarrow> Inl CallFailed
       | Some None \<Rightarrow> Inl CallFailed
       | Some (Some link) \<Rightarrow>
           (let cwd = take (PATH_MAX - 1) link; (readable, es) = tree sys cwd
            in bindS (add_watcher_recursive (watch_number sys) (fd_limit sys) cwd readable es (d, fds_open sys))
                 (\<lambda>(d, k). Inr (d, cwd, eff))))"

text \<open>How far the program comes; the daemon is the child, the program that was started its parent.\<close>

datatype started =
    Usage
  | Fork_failed
  | Started "(Daemon \<times> string \<times> effects) result"

fun main_status :: "started \<Rightarrow> int" where
  "main_status Usage = -1"
| "main_status Fork_failed = -1"
| "main_status (Started child) = 0"

definition set_pid_file :: "string \<Rightarrow> string \<Rightarrow> nat \<Rightarrow> bool \<Rightarrow> (string \<times> string) list" where
  "set_pid_file dir filename self writable = (if writable then [(resolve dir filename, show_nat self)] else [])"

text \<open>
  \<open>main\<close> in the directory \<open>home\<close>: \<open>dump_ok\<close> and \<open>pid_ok\<close> say whether \<open>dump\<close> and the file for the
  number can be written, \<open>forked\<close> is the number of the child, \<open>None\<close> when \<open>fork\<close> fails.  The
  parent does nothing after \<open>fork\<close> but return its \<open>main_status\<close>, so that its order with the
  child does not matter.  The first component are the files that both have written.
\<close>

definition main_daemon ::
  "system \<Rightarrow> string \<Rightarrow> bool \<Rightarrow> bool \<Rightarrow> nat option \<Rightarrow> string list \<Rightarrow>
   ((string \<times> string) list \<times> started) result" where
  "main_daemon sys home dump_ok pid_ok forked argv =
     (if \<not> dump_ok then Inl NullDeref
      else let dump = [(resolve home ''dump'', '''')] in
        if length argv \<noteq> 2 then Inr (dump, Usage)
        else case forked of
          None \<Rightarrow> Inr (dump, Fork_failed)
        | Some self \<Rightarrow>
            Inr (dump @ set_pid_file home ''this_daemon.pid'' self pid_ok,
                 Started (daemon_main sys ''/'' (argv ! 1))))"

section \<open>The events\<close>

text \<open>
  The layout of the kernel (inotify(7)): watch descriptor, mask, cookie and length of the
  name field in four bytes each, then the name, filled up with NULs; an event that is not
  about an entry of the directory has no name field.
\<close>

definition le_bytes :: "nat \<Rightarrow> bytes" where
  "le_bytes n = [char_of n, char_of (n div 256), char_of (n div 256 div 256), char_of (n div 256 div 256 div 256)]"

record kevent =
  kwd :: nat
  kmask :: "32 word"
  kcookie :: nat
  kname :: string
  kpad :: nat

definition enc_event :: "kevent \<Rightarrow> bytes" where
  "enc_event e = le_bytes (kwd e) @ le_bytes (unat (kmask e)) @ le_bytes (kcookie e) @
     le_bytes (length (kname e) + kpad e) @ kname e @ replicate (kpad e) NUL"

definition seen :: "kevent \<Rightarrow> event" where
  "seen e = \<lparr>mask = kmask e, ev_name = (if asked (kmask e) then kname e else [])\<rparr>"

lemma le32_bytes: "n < 2 ^ 32 \<Longrightarrow> le32 (le_bytes n) = n"
proof -
  assume n: "n < 2 ^ 32"
  define a where "a = n div 256"
  define b where "b = a div 256"
  define c where "c = b div 256"
  have "n = n mod 256 + 256 * a" "a = a mod 256 + 256 * b" "b = b mod 256 + 256 * c" "c < 256"
    using n by (simp_all add: a_def b_def c_def)
  moreover have "le32 (le_bytes n) = n mod 256 + 256 * (a mod 256 + 256 * (b mod 256 + 256 * (c mod 256)))"
    by (simp add: le_bytes_def a_def b_def c_def)
  ultimately show ?thesis by simp
qed

lemma length_le_bytes [simp]: "length (le_bytes n) = 4"
  by (simp add: le_bytes_def)

lemma field_at:
  "length pre = i \<Longrightarrow> n < 2 ^ 32 \<Longrightarrow> field (pre @ le_bytes n @ r) i = n"
  by (simp add: field_def le32_bytes)

text \<open>The header fields of the event at the end of \<open>pre\<close>.\<close>

lemma event_fields:
  assumes "length (kname e) + kpad e < 2 ^ 32"
  shows "field (pre @ enc_event e @ r) (length pre + 4) = unat (kmask e)"
    and "field (pre @ enc_event e @ r) (length pre + 12) = length (kname e) + kpad e"
    and "drop (length pre + 16) (pre @ enc_event e @ r) = kname e @ replicate (kpad e) NUL @ r"
    and "length (enc_event e) = 16 + (length (kname e) + kpad e)"
proof -
  have "unat (kmask e) < 2 ^ 32" using unsigned_less [of "kmask e", where ?'a = nat] by simp
  then show "field (pre @ enc_event e @ r) (length pre + 4) = unat (kmask e)"
    using field_at [of "pre @ le_bytes (kwd e)" "length pre + 4" "unat (kmask e)"] by (simp add: enc_event_def)
  show "field (pre @ enc_event e @ r) (length pre + 12) = length (kname e) + kpad e"
    using field_at [of "pre @ le_bytes (kwd e) @ le_bytes (unat (kmask e)) @ le_bytes (kcookie e)"
        "length pre + 12"] assms by (simp add: enc_event_def)
  show "drop (length pre + 16) (pre @ enc_event e @ r) = kname e @ replicate (kpad e) NUL @ r"
    by (simp add: enc_event_def)
  show "length (enc_event e) = 16 + (length (kname e) + kpad e)"
    by (simp add: enc_event_def)
qed

definition kevent_ok :: "kevent \<Rightarrow> bool" where
  "kevent_ok e \<longleftrightarrow> NUL \<notin> set (kname e) \<and> length (kname e) + kpad e < 2 ^ 32 \<and>
     (kpad e = 0 \<longrightarrow> kname e = [] \<and> \<not> asked (kmask e))"

lemma padded: "NUL \<notin> set s \<Longrightarrow> 0 < n \<Longrightarrow> cstr (s @ replicate n NUL @ r) = s \<and> NUL \<in> set (s @ replicate n NUL @ r)"
  by (cases n) simp_all

lemma event_loop_events:
  assumes "\<forall>e \<in> set es. kevent_ok e"
  shows "event_loop (pre @ concat (map enc_event es)) (length pre) (length (pre @ concat (map enc_event es))) =
    Inr (map seen es)"
  using assms
proof (induction es arbitrary: pre)
  case Nil
  then show ?case by (simp add: event_loop.simps)
next
  case (Cons e es)
  let ?buf = "pre @ enc_event e @ concat (map enc_event es)"
  have ok: "NUL \<notin> set (kname e)" "length (kname e) + kpad e < 2 ^ 32" "asked (kmask e) \<Longrightarrow> 0 < kpad e"
    using Cons.prems by (auto simp: kevent_ok_def)
  note f = event_fields(1-3) [OF ok(2), of pre "concat (map enc_event es)"]
  note l = event_fields(4) [OF ok(2)]
  have ih: "event_loop ?buf (length (pre @ enc_event e)) (length ?buf) = Inr (map seen es)"
    using Cons.IH [of "pre @ enc_event e"] Cons.prems by simp
  have eq: "length pre + EVENT_SIZE + (length (kname e) + kpad e) = length (pre @ enc_event e)"
    by (simp add: EVENT_SIZE_def l)
  have "event_loop ?buf (length pre + EVENT_SIZE + field ?buf (length pre + 12)) (length ?buf) =
      Inr (map seen es)"
    unfolding f(2) eq by (rule ih)
  moreover have "length pre + EVENT_SIZE \<le> length ?buf" "length pre < length ?buf"
    using l by (simp_all add: EVENT_SIZE_def)
  moreover have "drop (length pre + EVENT_SIZE) ?buf = kname e @ replicate (kpad e) NUL @ concat (map enc_event es)"
    using f(3) by (simp only: EVENT_SIZE_def)
  ultimately have "event_loop ?buf (length pre) (length ?buf) = Inr (seen e # map seen es)"
    using ok(1,3) padded [of "kname e" "kpad e" "concat (map enc_event es)"]
    by (subst event_loop.simps) (auto simp: Let_def f(1) seen_def simp del: append_assoc)
  then show ?case by simp
qed

text \<open>
  C18. Every list of events, with or without a name, laid out in the buffer as the kernel does
  it, is cut into exactly these events: all of them, in their order, with their masks and,
  for the masks asked for, their names, whatever the padding is.
\<close>

theorem events_roundtrip:
  assumes "\<forall>e \<in> set es. kevent_ok e"
  shows "event_loop (concat (map enc_event es)) 0 (length (concat (map enc_event es))) =
    Inr (map (\<lambda>e. \<lparr>mask = kmask e, ev_name = (if asked (kmask e) then kname e else [])\<rparr>) es)"
  using event_loop_events [OF assms, of "[]"] by (simp add: seen_def [abs_def])

definition example_events :: "kevent list" where
  "example_events = [\<lparr>kwd = 1, kmask = IN_CREATE, kcookie = 0, kname = ''a.txt'', kpad = 11\<rparr>,
     \<lparr>kwd = 1, kmask = 32768, kcookie = 0, kname = [], kpad = 0\<rparr>]"

lemma asked_examples [simp]: "asked IN_CREATE" "asked IN_DELETE" "\<not> asked 32768"
  by (simp_all add: asked_def IN_CREATE_def IN_MODIFY_def IN_DELETE_def)

theorem events_roundtrip_witness:
  "event_loop (concat (map enc_event example_events)) 0 48 =
     Inr [\<lparr>mask = IN_CREATE, ev_name = ''a.txt''\<rparr>, \<lparr>mask = 32768, ev_name = []\<rparr>]"
proof -
  have "\<forall>e \<in> set example_events. kevent_ok e" by (simp add: example_events_def kevent_ok_def)
  from events_roundtrip [OF this] show ?thesis by (simp add: enc_event_def example_events_def)
qed

section \<open>The tree\<close>

text \<open>The directories below \<open>wd\<close> that can be read, each before its own subdirectories.\<close>

fun dirs_below :: "string \<Rightarrow> entry list \<Rightarrow> string list" where
  "dirs_below wd [] = []"
| "dirs_below wd (File n # es) = dirs_below wd es"
| "dirs_below wd (Dir n r sub # es) =
     (if dots n \<or> \<not> r then [] else (wd @ ''/'' @ n) # dirs_below (wd @ ''/'' @ n) sub) @ dirs_below wd es"

text \<open>Every path that is built on the way fits into \<open>PATH_MAX\<close> bytes.\<close>

fun paths_fit :: "string \<Rightarrow> entry list \<Rightarrow> bool" where
  "paths_fit wd [] \<longleftrightarrow> Suc (length wd) < PATH_MAX"
| "paths_fit wd (File n # es) \<longleftrightarrow> length (wd @ ''/'' @ n) < PATH_MAX \<and> paths_fit wd es"
| "paths_fit wd (Dir n r sub # es) \<longleftrightarrow> length (wd @ ''/'' @ n) < PATH_MAX \<and>
     (dots n \<or> \<not> r \<or> paths_fit (wd @ ''/'' @ n) sub) \<and> paths_fit wd es"

fun store_wds :: "int list \<Rightarrow> Daemon \<Rightarrow> Daemon result" where
  "store_wds [] d = Inr d"
| "store_wds (w # ws) d = bindS (store_wd w d) (store_wds ws)"

lemma store_wds_append: "store_wds (xs @ ys) d = bindS (store_wds xs d) (store_wds ys)"
  by (induction xs arbitrary: d) (auto simp: bindS_def split: sum.split)

text \<open>The numbers are stored one behind the other, as long as the array has room.\<close>

lemma store_wds_spec:
  "inotify_size d \<le> length (inotify_wds d) \<Longrightarrow> store_wds ws d =
   (if inotify_size d + length ws \<le> length (inotify_wds d)
    then Inr (d\<lparr>inotify_wds := take (inotify_size d) (inotify_wds d) @ ws @
                  drop (inotify_size d + length ws) (inotify_wds d),
                inotify_size := inotify_size d + length ws\<rparr>)
    else Inl OutOfBounds)"
proof (induction ws arbitrary: d)
  case (Cons w ws)
  show ?case
  proof (cases "inotify_size d < length (inotify_wds d)")
    case True
    let ?d = "d\<lparr>inotify_wds := (inotify_wds d)[inotify_size d := w], inotify_size := Suc (inotify_size d)\<rparr>"
    have "take (Suc (inotify_size d)) ((inotify_wds d)[inotify_size d := w]) =
        take (inotify_size d) (inotify_wds d) @ [w]"
      using True by (simp add: take_Suc_conv_app_nth)
    moreover have "store_wds (w # ws) d = store_wds ws ?d" using True by (simp add: store_wd_def)
    ultimately show ?thesis using Cons.IH [of ?d] True by simp
  next
    case False
    with Cons.prems show ?thesis by (simp add: store_wd_def)
  qed
qed simp

lemma paths_fit_wd: "paths_fit wd es \<Longrightarrow> Suc (length wd) < PATH_MAX"
  by (induction es) (auto elim: paths_fit.elims)

lemma store_wds_bind:
  "bindS (store_wds xs d) (\<lambda>d'. bindS (store_wds ys d') g) = bindS (store_wds (xs @ ys) d) g"
  unfolding store_wds_append by (cases "store_wds xs d") simp_all

lemma bindS_assoc: "bindS (bindS m f) g = bindS m (\<lambda>x. bindS (f x) g)"
  by (cases m) simp_all

text \<open>The walk: it stores the watches of the readable directories and opens each of them.\<close>

lemma walk:
  shows "readable \<Longrightarrow> paths_fit wd es \<Longrightarrow> snd st + Suc (length (dirs_below wd es)) \<le> limit \<Longrightarrow>
    add_watcher_recursive watch limit wd readable es st =
    bindS (store_wds (map watch (wd # dirs_below wd es)) (fst st))
      (\<lambda>d. Inr (d, snd st + Suc (length (dirs_below wd es))))"
    and "paths_fit wd es \<Longrightarrow> snd st + length (dirs_below wd es) \<le> limit \<Longrightarrow>
    visit_entries watch limit wd es st =
    bindS (store_wds (map watch (dirs_below wd es)) (fst st))
      (\<lambda>d. Inr (d, snd st + length (dirs_below wd es)))"
proof (induction watch limit wd readable es st and watch limit wd es st
    rule: add_watcher_recursive_visit_entries.induct)
  case (1 watch limit wd readable es st)
  have "sprintf PATH_MAX (wd @ ''/'') = Inr (wd @ ''/'')"
    using paths_fit_wd [OF 1(3)] by (simp add: sprintf_def)
  then show ?case using 1 by (cases "store_wd (watch wd) (fst st)") simp_all
next
  case (4 watch limit wd n r sub es st)
  let ?p = "wd @ ''/'' @ n"
  have p: "sprintf PATH_MAX ?p = Inr ?p" using "4.prems" by (simp add: sprintf_def)
  show ?case
  proof (cases "dots n")
    case True
    then show ?thesis using 4 p by simp
  next
    case d: False
    show ?thesis
    proof (cases r)
      case False
      then show ?thesis using 4 p d by simp
    next
      case True
      let ?k = "Suc (length (dirs_below ?p sub))"
      have sub: "add_watcher_recursive watch limit ?p r sub st =
          bindS (store_wds (map watch (?p # dirs_below ?p sub)) (fst st)) (\<lambda>d. Inr (d, snd st + ?k))"
        using "4.prems" d True by (intro "4.IH"(2)) simp_all
      have rest: "visit_entries watch limit wd es (d', snd st + ?k) =
          bindS (store_wds (map watch (dirs_below wd es)) d')
            (\<lambda>d. Inr (d, snd st + ?k + length (dirs_below wd es)))" for d'
        using "4.IH"(3) [OF d, of "(d', snd st + ?k)"] "4.prems" d True by simp
      have "visit_entries watch limit wd (Dir n r sub # es) st =
          bindS (add_watcher_recursive watch limit ?p r sub st) (\<lambda>st'. visit_entries watch limit wd es st')"
        using p d by (simp del: add_watcher_recursive.simps)
      also have "\<dots> = bindS (store_wds (map watch (?p # dirs_below ?p sub)) (fst st)) (\<lambda>d'.
          bindS (store_wds (map watch (dirs_below wd es)) d')
            (\<lambda>d. Inr (d, snd st + ?k + length (dirs_below wd es))))"
        by (simp only: sub bindS_assoc bindS_simps rest)
      also have "\<dots> = bindS (store_wds (map watch (?p # dirs_below ?p sub) @ map watch (dirs_below wd es)) (fst st))
            (\<lambda>d. Inr (d, snd st + ?k + length (dirs_below wd es)))"
        by (rule store_wds_bind)
      finally show ?thesis using d True by (simp add: add.assoc del: store_wds.simps)
    qed
  qed
qed (simp_all add: sprintf_def)

section \<open>Starting\<close>

definition word_ok :: "string \<Rightarrow> bool" where
  "word_ok w \<longleftrightarrow> w \<noteq> [] \<and> (\<forall>c \<in> set w. \<not> is_space c)"

lemma scan_word_word:
  assumes "word_ok w" "rest = [] \<or> is_space (hd rest)"
  shows "scan_word n (w @ rest) = (if length w < n then Inr (Some w) else Inl OutOfBounds)"
proof -
  have "skip_space (w @ rest) = w @ rest"
    using assms(1) by (intro skip_space_idem) (cases w; simp add: word_ok_def)
  moreover have "takeWhile (\<lambda>c. \<not> is_space c) (w @ rest) = w"
    using assms by (cases rest) (simp_all add: word_ok_def takeWhile_append2)
  ultimately show ?thesis using assms(1) by (simp add: scan_word_def word_ok_def)
qed

lemma scan_d_show:
  assumes "r = [] \<or> \<not> is_digit (hd r)" "- (2 ^ 31) \<le> i" "i < 2 ^ 31"
  shows "scan_d (show_int i @ r) = Inr (Some (i, r))"
  using scan_int_show [OF assms(1), of i] assms(2,3) by (simp add: scan_d_def)

lemma scan_space: "scan_d (CHR '' '' # s) = scan_d s" "scan_word n (CHR '' '' # s) = scan_word n s"
  by (simp_all add: scan_d_def scan_int_def scan_word_def)

text \<open>A configuration: two numbers and a word, and what may follow.\<close>

definition config_text :: "int \<Rightarrow> int \<Rightarrow> string \<Rightarrow> string \<Rightarrow> string" where
  "config_text p n dump rest = show_int p @ '' '' @ show_int n @ '' '' @ dump @ rest"

definition config_ok :: "int \<Rightarrow> int \<Rightarrow> string \<Rightarrow> string \<Rightarrow> bool" where
  "config_ok p n dump rest \<longleftrightarrow> - (2 ^ 31) \<le> p \<and> p < 2 ^ 31 \<and> - (2 ^ 31) \<le> n \<and> n < 2 ^ 31 \<and>
     word_ok dump \<and> length (''mkdir '' @ dump) < PATH_MAX \<and> (rest = [] \<or> is_space (hd rest))"

lemma read_config_text:
  assumes "config_ok p n dump rest"
  shows "read_config (config_text p n dump rest) d =
    Inr (d\<lparr>pid := p, sleep_seconds := n, dump_dir := dump\<rparr>)"
proof -
  have 1: "scan_d (config_text p n dump rest) = Inr (Some (p, '' '' @ show_int n @ '' '' @ dump @ rest))"
    unfolding config_text_def using assms by (intro scan_d_show) (simp_all add: config_ok_def)
  have "scan_d (show_int n @ '' '' @ dump @ rest) = Inr (Some (n, '' '' @ dump @ rest))"
    using assms by (intro scan_d_show) (simp_all add: config_ok_def)
  then have 2: "scan_d ('' '' @ show_int n @ '' '' @ dump @ rest) = Inr (Some (n, '' '' @ dump @ rest))"
    by (simp add: scan_space)
  have "scan_word PATH_MAX (dump @ rest) = Inr (Some dump)"
    using scan_word_word [of dump rest PATH_MAX] assms by (simp add: config_ok_def)
  then have 3: "scan_word PATH_MAX ('' '' @ dump @ rest) = Inr (Some dump)" by (simp add: scan_space)
  show ?thesis unfolding read_config_def 1 by (simp add: 2 [simplified] 3 [simplified])
qed

text \<open>
  C17. \<open>daemon_main\<close> on a well-formed configuration: the three fields are taken from the file,
  the dump directory is made, and the watches of exactly the readable directories below the
  working directory of the process are stored in the order of the walk, while more than a
  hundred of them are written behind the array.
\<close>

theorem daemon_starts:
  assumes "files sys (resolve dir config) = Some (config_text p n dump rest)" "config_ok p n dump rest"
    and "new_inotify sys \<noteq> -1" "process_cwd sys p = Some (Some cwd)" "length cwd < PATH_MAX"
    and "tree sys cwd = (True, es)" "paths_fit cwd es" "ds = cwd # dirs_below cwd es"
    and "fds_open sys + length ds \<le> fd_limit sys"
  shows "daemon_main sys dir config =
    (if length ds \<le> DIRS
     then Inr (\<lparr>sleep_seconds = n, pid = p, dump_dir = dump, inotify_fd = new_inotify sys,
                inotify_size = length ds, inotify_capacity = DIRS,
                inotify_wds = map (watch_number sys) ds @ replicate (DIRS - length ds) 0,
                config_file = config\<rparr>,
               cwd, [(dir, Shell (''mkdir '' @ dump))])
     else Inl OutOfBounds)"
proof -
  let ?d = "\<lparr>sleep_seconds = n, pid = p, dump_dir = dump, inotify_fd = new_inotify sys,
    inotify_size = 0, inotify_capacity = DIRS, inotify_wds = replicate DIRS 0, config_file = config\<rparr>"
  have "sprintf PATH_MAX (''mkdir '' @ dump) = Inr (''mkdir '' @ dump)"
    using assms(2) by (simp add: sprintf_def config_ok_def)
  then have init: "daemon_init (new_inotify sys) (Some (config_text p n dump rest)) dir config =
      Inr (?d, [(dir, Shell (''mkdir '' @ dump))])"
    using assms(3) read_config_text [OF assms(2)] by (simp add: daemon_init_def zero_daemon_def)
  have "add_watcher_recursive (watch_number sys) (fd_limit sys) cwd True es (?d, fds_open sys) =
      bindS (store_wds (map (watch_number sys) ds) ?d) (\<lambda>d. Inr (d, fds_open sys + length ds))"
    using walk(1) [of True cwd es "(?d, fds_open sys)" "fd_limit sys" "watch_number sys"] assms(7-9) by simp
  moreover have "store_wds (map (watch_number sys) ds) ?d =
      (if length ds \<le> DIRS
       then Inr (?d\<lparr>inotify_wds := map (watch_number sys) ds @ replicate (DIRS - length ds) 0,
                    inotify_size := length ds\<rparr>)
       else Inl OutOfBounds)"
    by (subst store_wds_spec) simp_all
  moreover have "take (PATH_MAX - 1) cwd = cwd" using assms(5) by simp
  ultimately show ?thesis
    unfolding daemon_main_def assms(1) init
    by (simp add: assms(4,6) Let_def del: add_watcher_recursive.simps)
qed

definition example_system :: system where
  "example_system = \<lparr>files = (\<lambda>f. if f = ''/d.cfg'' then Some (config_text 7 1 ''/tmp/dump'' '''') else None),
     process_cwd = (\<lambda>p. Some (Some ''/w'')),
     tree = (\<lambda>f. (True, [Dir ''.'' True [], File ''a'', Dir ''s'' True [File ''b'']])),
     new_inotify = 3, watch_number = (\<lambda>f. int (length f)), fd_limit = 1024, fds_open = 4\<rparr>"

lemma example_config: "config_ok 7 1 ''/tmp/dump'' ''''"
  by (simp add: config_ok_def word_ok_def is_space_def PATH_MAX_def)

theorem daemon_starts_witness:
  "\<exists>d. daemon_main example_system ''/'' ''/d.cfg'' = Inr (d, ''/w'', [(''/'', Shell ''mkdir /tmp/dump'')]) \<and>
     inotify_size d = 2 \<and> take 2 (inotify_wds d) = [2, 4]"
proof -
  have "files example_system (resolve ''/'' ''/d.cfg'') = Some (config_text 7 1 ''/tmp/dump'' '''')"
    "new_inotify example_system \<noteq> -1" "process_cwd example_system 7 = Some (Some ''/w'')"
    "length ''/w'' < PATH_MAX" "tree example_system ''/w'' = (True, [Dir ''.'' True [], File ''a'', Dir ''s'' True [File ''b'']])"
    "paths_fit ''/w'' [Dir ''.'' True [], File ''a'', Dir ''s'' True [File ''b'']]"
    "fds_open example_system + length (''/w'' # dirs_below ''/w'' [Dir ''.'' True [], File ''a'', Dir ''s'' True [File ''b'']])
       \<le> fd_limit example_system"
    by (simp_all add: example_system_def resolve_def PATH_MAX_def dots_def)
  from daemon_starts [OF this(1) example_config this(2-6) refl this(7)] show ?thesis
    by (simp add: DIRS_def dots_def example_system_def eval_nat_numeral)
qed

text \<open>
  The child looks for its configuration after it has moved to the root: a relative name
  that is there for the user who starts the program, but not in the root, ends the daemon
  by its assertion, while the program that was started reports success.
\<close>

theorem relative_config_aborts:
  assumes "cfg \<noteq> []" "hd cfg \<noteq> CHR ''/''" "files sys (''/'' @ cfg) = None" "new_inotify sys \<noteq> -1"
  shows "\<exists>w. main_daemon sys home True pid_ok (Some self) [prog, cfg] = Inr (w, Started (Inl Aborted)) \<and>
    main_status (Started (Inl Aborted)) = 0"
  using assms by (simp add: main_daemon_def daemon_main_def resolve_def daemon_init_def)

section \<open>A modified file\<close>

lemma length_pad2: "n < 100 \<Longrightarrow> length (pad0 2 n) = 2"
  by (rule length_pad0) simp_all

lemma length_year: "1000 \<le> n \<Longrightarrow> n < 10000 \<Longrightarrow> length (show_nat n) = 4"
proof -
  assume n: "1000 \<le> n" "n < 10000"
  then have "\<not> n div 10 < 10" "\<not> n div 10 div 10 < 10" "n div 10 div 10 div 10 < 10" by simp_all
  with n show ?thesis
    by (simp add: show_nat.simps [of n] show_nat.simps [of "n div 10"] show_nat.simps [of "n div 10 div 10"]
        show_nat.simps [of "n div 10 div 10 div 10"])
qed

definition time_ok :: "outside \<Rightarrow> bool" where
  "time_ok w \<longleftrightarrow> 1000 \<le> tm_year w \<and> tm_year w < 10000 \<and> tm_mon w < 100 \<and> tm_mday w < 100 \<and>
     tm_hour w < 100 \<and> tm_min w < 100 \<and> tm_sec w < 100"

lemma length_diff_name: "time_ok w \<Longrightarrow> length (diff_name w f) = length f + 25"
  by (simp add: diff_name_def time_ok_def length_pad2 length_year)

text \<open>
  C19. What a modification does: \<open>find_file\<close> is emptied in the directory the daemon is in, and
  in the watched directory the first path that \<open>find\<close> printed is compared with the stored
  copy and then copied; the name of the difference is 25 characters longer than the file's
  and its buffer holds 100, so that a file name of 75 characters is one too many.
\<close>

theorem file_modified_effects:
  assumes "can_create w" "find_output w = Some (found @ rest)" "word_ok found" "rest = [] \<or> is_space (hd rest)"
    and "time_ok w" "length found \<le> 1000" "length dump \<le> 500" "length f < 256"
  shows "file_modified w dir cwd dump f =
    (if length f < 75
     then Inr [(dir, Truncate (dump @ ''/find_file'')),
               (cwd, Shell (''find -name '' @ f @ '' > '' @ dump @ ''/find_file'')),
               (cwd, Shell (''diff '' @ found @ '' '' @ dump @ ''/'' @ f @ ''/'' @ f @ '' > '' @
                  dump @ ''/'' @ f @ ''/'' @ diff_name w f)),
               (cwd, Shell (''cp '' @ found @ '' '' @ dump @ ''/'' @ f))]
     else Inl OutOfBounds)"
proof -
  have "scan_word PATH_MAX (found @ rest) = Inr (Some found)"
    using scan_word_word [OF assms(3,4), of PATH_MAX] assms(6) by (simp add: PATH_MAX_def)
  then have ff: "find_file w dir cwd dump f = Inr (found, [(dir, Truncate (dump @ ''/find_file'')),
      (cwd, Shell (''find -name '' @ f @ '' > '' @ dump @ ''/find_file''))])"
    using assms by (simp add: find_file_def sprintf_def PATH_MAX_def)
  show ?thesis
  proof (cases "length f < 75")
    case True
    then show ?thesis
      using length_diff_name [OF assms(5), of f] assms
      by (simp add: file_modified_def ff sprintf_def PATH_MAX_def)
  next
    case False
    then show ?thesis
      using length_diff_name [OF assms(5), of f] by (simp add: file_modified_def ff sprintf_def)
  qed
qed

definition example_outside :: outside where
  "example_outside = \<lparr>can_create = True, find_output = Some ''./a.txt'', tm_year = 2023, tm_mon = 12,
     tm_mday = 1, tm_hour = 10, tm_min = 5, tm_sec = 0\<rparr>"

theorem file_modified_effects_witness:
  "\<exists>e. file_modified example_outside ''/'' ''/w'' ''/tmp'' ''a.txt'' = Inr e \<and> length e = 4"
proof -
  have "can_create example_outside" "find_output example_outside = Some (''./a.txt'' @ [])" "word_ok ''./a.txt''"
    "time_ok example_outside"
    by (simp_all add: example_outside_def word_ok_def is_space_def time_ok_def)
  then show ?thesis
    using file_modified_effects [of example_outside "''./a.txt''" "[]" "''/tmp''" "''a.txt''" "''/''" "''/w''"] by simp
qed

end
