(* ===== verification/ProdCons.thy ===== *)
theory ProdCons
  imports Channel
begin

text \<open>
  The bounded buffer of \<open>task_4/examples/10_prod_cons_cond_var.c\<close>: one producer, one consumer,
  a mutex and two condition variables.  \<open>pthread_cond_wait\<close> gives the mutex back, waits, and
  takes it again; the test before it is an \<open>if\<close>, so what holds after it depends on
  whether a wait may end without a signal.  \<open>spurious\<close> says so: POSIX allows it.  Without such
  waits the buffer refines the bounded channel; \<open>bb_main_step\<close> adds the main thread.
\<close>

section \<open>State and steps\<close>

definition BUF_SLOTS :: nat where
  "BUF_SLOTS = 10"

definition ITEMS :: nat where
  "ITEMS = 20"

datatype prod_pc = PLock | PTest | PWait | PRelock | PAdd | PSignal | PUnlock | PQuit

datatype cons_pc = CLock | CTest | CWait | CRelock | CRem | CSignal | CUnlock

datatype holder = Nobody | Producer | Consumer

record bbuf =
  slots :: "int list"
  add_at :: nat
  rem_at :: nat
  num :: int
  mutex :: holder
  producer :: prod_pc
  item :: nat
  consumer :: cons_pc
  printed :: "int list"

definition bb_init :: bbuf where
  "bb_init = \<lparr>slots = replicate BUF_SLOTS 0, add_at = 0, rem_at = 0, num = 0, mutex = Nobody,
     producer = PLock, item = 1, consumer = CLock, printed = []\<rparr>"

inductive prod_step :: "bbuf \<Rightarrow> bbuf \<Rightarrow> bool" where
  p_lock: "producer s = PLock \<Longrightarrow> mutex s = Nobody \<Longrightarrow> prod_step s (s\<lparr>producer := PTest, mutex := Producer\<rparr>)"
| p_full: "producer s = PTest \<Longrightarrow> num s = int BUF_SLOTS \<Longrightarrow> prod_step s (s\<lparr>producer := PWait, mutex := Nobody\<rparr>)"
| p_room: "producer s = PTest \<Longrightarrow> num s \<noteq> int BUF_SLOTS \<Longrightarrow> prod_step s (s\<lparr>producer := PAdd\<rparr>)"
| p_relock: "producer s = PRelock \<Longrightarrow> mutex s = Nobody \<Longrightarrow> prod_step s (s\<lparr>producer := PAdd, mutex := Producer\<rparr>)"
| p_add: "producer s = PAdd \<Longrightarrow> prod_step s (s\<lparr>slots := (slots s)[add_at s := int (item s)],
     add_at := (add_at s + 1) mod BUF_SLOTS, num := num s + 1, producer := PSignal\<rparr>)"
| p_signal: "producer s = PSignal \<Longrightarrow>
     prod_step s (s\<lparr>consumer := (if consumer s = CWait then CRelock else consumer s), producer := PUnlock\<rparr>)"
| p_unlock: "producer s = PUnlock \<Longrightarrow> prod_step s (s\<lparr>mutex := Nobody, item := item s + 1,
     producer := (if item s + 1 \<le> ITEMS then PLock else PQuit)\<rparr>)"

inductive cons_step :: "bbuf \<Rightarrow> bbuf \<Rightarrow> bool" where
  c_lock: "consumer s = CLock \<Longrightarrow> mutex s = Nobody \<Longrightarrow> cons_step s (s\<lparr>consumer := CTest, mutex := Consumer\<rparr>)"
| c_empty: "consumer s = CTest \<Longrightarrow> num s = 0 \<Longrightarrow> cons_step s (s\<lparr>consumer := CWait, mutex := Nobody\<rparr>)"
| c_some: "consumer s = CTest \<Longrightarrow> num s \<noteq> 0 \<Longrightarrow> cons_step s (s\<lparr>consumer := CRem\<rparr>)"
| c_relock: "consumer s = CRelock \<Longrightarrow> mutex s = Nobody \<Longrightarrow> cons_step s (s\<lparr>consumer := CRem, mutex := Consumer\<rparr>)"
| c_rem: "consumer s = CRem \<Longrightarrow> cons_step s (s\<lparr>printed := printed s @ [slots s ! rem_at s],
     rem_at := (rem_at s + 1) mod BUF_SLOTS, num := num s - 1, consumer := CSignal\<rparr>)"
| c_signal: "consumer s = CSignal \<Longrightarrow>
     cons_step s (s\<lparr>producer := (if producer s = PWait then PRelock else producer s), consumer := CUnlock\<rparr>)"
| c_unlock: "consumer s = CUnlock \<Longrightarrow> cons_step s (s\<lparr>mutex := Nobody, consumer := CLock\<rparr>)"

text \<open>A wait that ends by itself.\<close>

inductive wake_step :: "bbuf \<Rightarrow> bbuf \<Rightarrow> bool" where
  p_wake: "producer s = PWait \<Longrightarrow> wake_step s (s\<lparr>producer := PRelock\<rparr>)"
| c_wake: "consumer s = CWait \<Longrightarrow> wake_step s (s\<lparr>consumer := CRelock\<rparr>)"

definition bb_step :: "bool \<Rightarrow> bbuf \<Rightarrow> bbuf \<Rightarrow> bool" where
  "bb_step spurious s t \<longleftrightarrow> prod_step s t \<or> cons_step s t \<or> spurious \<and> wake_step s t"

section \<open>The invariant\<close>

fun prod_in :: "prod_pc \<Rightarrow> bool" where
  "prod_in PTest \<longleftrightarrow> True"
| "prod_in PAdd \<longleftrightarrow> True"
| "prod_in PSignal \<longleftrightarrow> True"
| "prod_in PUnlock \<longleftrightarrow> True"
| "prod_in _ \<longleftrightarrow> False"

fun cons_in :: "cons_pc \<Rightarrow> bool" where
  "cons_in CTest \<longleftrightarrow> True"
| "cons_in CRem \<longleftrightarrow> True"
| "cons_in CSignal \<longleftrightarrow> True"
| "cons_in CUnlock \<longleftrightarrow> True"
| "cons_in _ \<longleftrightarrow> False"

definition bb_lock :: "bbuf \<Rightarrow> bool" where
  "bb_lock s \<longleftrightarrow> (prod_in (producer s) \<longleftrightarrow> mutex s = Producer) \<and> (cons_in (consumer s) \<longleftrightarrow> mutex s = Consumer)"

text \<open>What each thread may rely on at its control points, and why no wait is for nothing.\<close>

definition bb_room :: "bbuf \<Rightarrow> bool" where
  "bb_room s \<longleftrightarrow> 0 \<le> num s \<and> num s \<le> int BUF_SLOTS \<and>
     (producer s = PAdd \<or> producer s = PRelock \<or> consumer s = CSignal \<longrightarrow> num s < int BUF_SLOTS) \<and>
     (consumer s = CRem \<or> consumer s = CRelock \<or> producer s = PSignal \<longrightarrow> 0 < num s) \<and>
     (producer s = PWait \<longrightarrow> num s = int BUF_SLOTS \<or> consumer s = CSignal) \<and>
     (consumer s = CWait \<longrightarrow> num s = 0 \<or> producer s = PSignal)"

text \<open>The elements in the buffer, in the order in which they will be taken out.\<close>

definition stored :: "bbuf \<Rightarrow> int list" where
  "stored s = map (\<lambda>k. slots s ! ((rem_at s + k) mod BUF_SLOTS)) [0..<nat (num s)]"

text \<open>How many items the producer has put into the buffer.\<close>

definition produced :: "bbuf \<Rightarrow> nat" where
  "produced s = (if producer s = PSignal \<or> producer s = PUnlock then item s else item s - 1)"

definition bb_ring :: "bbuf \<Rightarrow> bool" where
  "bb_ring s \<longleftrightarrow> length (slots s) = BUF_SLOTS \<and> rem_at s < BUF_SLOTS \<and>
     add_at s = (rem_at s + nat (num s)) mod BUF_SLOTS \<and>
     printed s @ stored s = map int [1..<produced s + 1] \<and>
     1 \<le> item s \<and> (producer s = PQuit \<longleftrightarrow> item s = ITEMS + 1) \<and> item s \<le> ITEMS + 1"

definition bb_inv :: "bbuf \<Rightarrow> bool" where
  "bb_inv s \<longleftrightarrow> bb_lock s \<and> bb_room s \<and> bb_ring s"

lemma BUF_SLOTS_pos: "0 < BUF_SLOTS"
  by (simp add: BUF_SLOTS_def)

lemma bb_init_inv: "bb_inv bb_init"
  by (simp add: bb_inv_def bb_lock_def bb_room_def bb_ring_def bb_init_def stored_def produced_def
      BUF_SLOTS_def ITEMS_def)

text \<open>Steps that leave the buffer alone.\<close>

lemma bb_ring_cong:
  assumes "bb_ring s" "slots t = slots s" "add_at t = add_at s" "rem_at t = rem_at s" "num t = num s"
    "item t = item s" "printed t = printed s" "produced t = produced s" "(producer t = PQuit) = (producer s = PQuit)"
  shows "bb_ring t"
  using assms by (simp add: bb_ring_def stored_def)

lemma prod_lock: "prod_step s t \<Longrightarrow> bb_lock s \<Longrightarrow> bb_lock t"
  by (induction rule: prod_step.induct) (auto simp: bb_lock_def)

lemma cons_lock: "cons_step s t \<Longrightarrow> bb_lock s \<Longrightarrow> bb_lock t"
  by (induction rule: cons_step.induct) (auto simp: bb_lock_def)

lemma wake_lock: "wake_step s t \<Longrightarrow> bb_lock s \<Longrightarrow> bb_lock t"
  by (induction rule: wake_step.induct) (auto simp: bb_lock_def)

text \<open>Who is in the critical section keeps the other one out.\<close>

lemma apart: "bb_lock s \<Longrightarrow> prod_in (producer s) \<Longrightarrow> \<not> cons_in (consumer s)"
  by (simp add: bb_lock_def)

lemma prod_room: "prod_step s t \<Longrightarrow> bb_lock s \<Longrightarrow> bb_room s \<Longrightarrow> bb_room t"
proof (induction rule: prod_step.induct)
  case (p_add s)
  then have "\<not> cons_in (consumer s)" by (intro apart) simp_all
  with p_add show ?case by (auto simp: bb_room_def)
next
  case (p_signal s)
  then show ?case by (auto simp: bb_room_def)
qed (auto simp: bb_room_def)

lemma cons_room: "cons_step s t \<Longrightarrow> bb_lock s \<Longrightarrow> bb_room s \<Longrightarrow> bb_room t"
proof (induction rule: cons_step.induct)
  case (c_rem s)
  then have "\<not> prod_in (producer s)" using apart [of s] by auto
  with c_rem show ?case by (auto simp: bb_room_def)
next
  case (c_signal s)
  then show ?case by (auto simp: bb_room_def)
qed (auto simp: bb_room_def)

lemma stored_add:
  assumes "length (slots s) = BUF_SLOTS" "0 \<le> num s" "num s < int BUF_SLOTS"
    and "add_at s = (rem_at s + nat (num s)) mod BUF_SLOTS"
    and "t = s\<lparr>slots := (slots s)[add_at s := v], add_at := a, num := num s + 1, producer := p\<rparr>"
  shows "stored t = stored s @ [v]"
proof -
  let ?n = "nat (num s)"
  have n: "nat (num s + 1) = Suc ?n" "?n < BUF_SLOTS" using assms(2,3) by (simp_all add: nat_add_distrib)
  have "(rem_at s + ?n) mod BUF_SLOTS \<noteq> (rem_at s + k) mod BUF_SLOTS" if "k < ?n" for k
  proof
    assume "(rem_at s + ?n) mod BUF_SLOTS = (rem_at s + k) mod BUF_SLOTS"
    then have "?n mod BUF_SLOTS = k mod BUF_SLOTS" by (simp add: mod_add_left_eq nat_mod_eq_iff)
    with that n(2) show False by simp
  qed
  then have "map (\<lambda>k. slots t ! ((rem_at s + k) mod BUF_SLOTS)) [0..<?n] = stored s"
    unfolding stored_def using assms(4,5) by (intro map_cong) auto
  moreover have "slots t ! ((rem_at s + ?n) mod BUF_SLOTS) = v"
    using assms(1,4,5) BUF_SLOTS_pos by simp
  ultimately show ?thesis using assms(5) n(1) by (simp add: stored_def)
qed

lemma stored_rem:
  assumes "0 < num s" "rem_at s < BUF_SLOTS"
    and "t = s\<lparr>printed := p, rem_at := (rem_at s + 1) mod BUF_SLOTS, num := num s - 1, consumer := c\<rparr>"
  shows "stored s = slots s ! rem_at s # stored t"
proof -
  have n: "nat (num s) = Suc (nat (num s - 1))" using assms(1) by simp
  have "map (\<lambda>k. slots s ! ((rem_at s + k) mod BUF_SLOTS)) [Suc 0..<Suc m] =
      map (\<lambda>k. slots s ! (((rem_at s + 1) mod BUF_SLOTS + k) mod BUF_SLOTS)) [0..<m]" for m
  proof -
    have "[Suc 0..<Suc m] = map Suc [0..<m]" by (simp only: map_Suc_upt)
    then show ?thesis by (simp add: mod_add_left_eq del: upt_Suc)
  qed
  then show ?thesis
    using assms n by (simp add: stored_def upt_conv_Cons del: upt_Suc)
qed

lemma prod_ring: "prod_step s t \<Longrightarrow> bb_room s \<Longrightarrow> bb_ring s \<Longrightarrow> bb_ring t"
proof (induction rule: prod_step.induct)
  case (p_add s)
  let ?t = "s\<lparr>slots := (slots s)[add_at s := int (item s)],
     add_at := (add_at s + 1) mod BUF_SLOTS, num := num s + 1, producer := PSignal\<rparr>"
  have n: "0 \<le> num s" "num s < int BUF_SLOTS" using p_add by (simp_all add: bb_room_def)
  then have "stored ?t = stored s @ [int (item s)]"
    using p_add by (intro stored_add) (simp_all add: bb_ring_def)
  moreover have "map int [1..<item s] @ [int (item s)] = map int [1..<item s + 1]"
    using p_add by (simp add: bb_ring_def)
  moreover have "(add_at s + 1) mod BUF_SLOTS = (rem_at s + nat (num s + 1)) mod BUF_SLOTS"
    using p_add n by (simp add: bb_ring_def nat_add_distrib mod_Suc_eq)
  ultimately show ?case
    using p_add by (auto simp: bb_ring_def produced_def simp del: upt_Suc simp flip: append_assoc)
next
  case (p_unlock s)
  then show ?case by (auto simp: bb_ring_def produced_def stored_def)
qed (auto elim!: bb_ring_cong simp: produced_def)

lemma cons_ring: "cons_step s t \<Longrightarrow> bb_room s \<Longrightarrow> bb_ring s \<Longrightarrow> bb_ring t"
proof (induction rule: cons_step.induct)
  case (c_rem s)
  let ?t = "s\<lparr>printed := printed s @ [slots s ! rem_at s],
     rem_at := (rem_at s + 1) mod BUF_SLOTS, num := num s - 1, consumer := CSignal\<rparr>"
  have n: "0 < num s" using c_rem by (simp add: bb_room_def)
  then have "stored s = slots s ! rem_at s # stored ?t"
    using c_rem by (intro stored_rem) (simp_all add: bb_ring_def)
  moreover have "nat (num s) = Suc (nat (num s - 1))" using n by simp
  then have "(rem_at s + nat (num s)) mod BUF_SLOTS =
      ((rem_at s + 1) mod BUF_SLOTS + nat (num s - 1)) mod BUF_SLOTS"
    by (simp add: mod_add_left_eq)
  ultimately show ?case
    using c_rem BUF_SLOTS_pos by (simp add: bb_ring_def produced_def)
qed (auto elim!: bb_ring_cong simp: produced_def)

lemma bb_inv_step: "bb_inv s \<Longrightarrow> bb_step False s t \<Longrightarrow> bb_inv t"
  using prod_lock prod_room prod_ring cons_lock cons_room cons_ring
  unfolding bb_inv_def bb_step_def by blast

section \<open>Progress\<close>

text \<open>
  The end: the producer has gone, the consumer waits for an item that nobody will add, and
  \<open>main\<close> for the consumer.
\<close>

definition bb_final :: "bbuf \<Rightarrow> bool" where
  "bb_final s \<longleftrightarrow> producer s = PQuit \<and> consumer s = CWait"

fun prod_rank :: "prod_pc \<Rightarrow> nat" where
  "prod_rank PLock = 6"
| "prod_rank PTest = 5"
| "prod_rank PWait = 4"
| "prod_rank PRelock = 3"
| "prod_rank PAdd = 2"
| "prod_rank PSignal = 1"
| "prod_rank PUnlock = 0"
| "prod_rank PQuit = 0"

fun cons_rank :: "cons_pc \<Rightarrow> nat" where
  "cons_rank CSignal = 8"
| "cons_rank CUnlock = 7"
| "cons_rank CLock = 6"
| "cons_rank CTest = 5"
| "cons_rank CWait = 4"
| "cons_rank CRelock = 3"
| "cons_rank CRem = 2"

definition bb_rank :: "bbuf \<Rightarrow> nat" where
  "bb_rank s = 7 * (ITEMS + 1 - item s) + prod_rank (producer s) +
     7 * (ITEMS - length (printed s)) + cons_rank (consumer s)"

lemma printed_le:
  assumes "bb_ring s"
  shows "length (printed s) + nat (num s) = produced s" "produced s \<le> ITEMS"
proof -
  have "length (printed s @ stored s) = length (map int [1..<produced s + 1])"
    using assms unfolding bb_ring_def by presburger
  then show "length (printed s) + nat (num s) = produced s" by (simp add: stored_def)
  show "produced s \<le> ITEMS" using assms by (auto simp: bb_ring_def produced_def)
qed

lemma bb_rank_step:
  assumes "bb_inv s" "bb_step False s t"
  shows "bb_rank t < bb_rank s"
proof -
  have ring: "bb_ring s" and room: "bb_room s" using assms(1) by (simp_all add: bb_inv_def)
  consider "prod_step s t" | "cons_step s t" using assms(2) by (auto simp: bb_step_def)
  then show ?thesis
  proof cases
    case 1
    then show ?thesis using ring
    proof (induction rule: prod_step.induct)
      case (p_unlock s)
      then have "item s \<le> ITEMS" by (auto simp: bb_ring_def)
      with p_unlock show ?case by (auto simp: bb_rank_def)
    qed (auto simp: bb_rank_def)
  next
    case 2
    then show ?thesis using ring room
    proof (induction rule: cons_step.induct)
      case (c_rem s)
      then have "0 < nat (num s)" by (simp add: bb_room_def)
      then have "length (printed s) < ITEMS" using printed_le [of s] c_rem by linarith
      with c_rem show ?case by (simp add: bb_rank_def)
    qed (auto simp: bb_rank_def)
  qed
qed

lemma prod_moves:
  assumes "producer s \<noteq> PWait" "producer s \<noteq> PQuit" "prod_in (producer s) \<or> mutex s = Nobody"
  shows "\<exists>t. prod_step s t"
  using assms by (cases "producer s"; cases "num s = int BUF_SLOTS") (auto intro: prod_step.intros)

lemma cons_moves:
  assumes "consumer s \<noteq> CWait" "cons_in (consumer s) \<or> mutex s = Nobody"
  shows "\<exists>t. cons_step s t"
  using assms by (cases "consumer s"; cases "num s = 0") (auto intro: cons_step.intros)

lemma bb_progress:
  assumes "bb_inv s" "\<not> bb_final s"
  shows "\<exists>t. bb_step False s t"
proof -
  have lock: "bb_lock s" and room: "bb_room s" using assms(1) by (simp_all add: bb_inv_def)
  show ?thesis
  proof (cases "mutex s")
    case Producer
    then have "prod_in (producer s)" using lock by (simp add: bb_lock_def)
    then have "\<exists>t. prod_step s t" by (intro prod_moves) auto
    then show ?thesis unfolding bb_step_def by blast
  next
    case Consumer
    then have "cons_in (consumer s)" using lock by (simp add: bb_lock_def)
    then have "\<exists>t. cons_step s t" by (intro cons_moves) auto
    then show ?thesis unfolding bb_step_def by blast
  next
    case Nobody
    show ?thesis
    proof (cases "consumer s = CWait")
      case False
      then have "\<exists>t. cons_step s t" using Nobody by (intro cons_moves) auto
      then show ?thesis unfolding bb_step_def by blast
    next
      case True
      then have "producer s \<noteq> PQuit" using assms(2) by (simp add: bb_final_def)
      moreover have "num s = 0"
        using True room lock Nobody by (auto simp: bb_room_def bb_lock_def)
      then have "producer s \<noteq> PWait" using room True by (auto simp: bb_room_def BUF_SLOTS_def)
      ultimately have "\<exists>t. prod_step s t" using Nobody by (intro prod_moves) auto
      then show ?thesis unfolding bb_step_def by blast
    qed
  qed
qed

interpretation bb_run: live_inv "\<lambda>s. s = bb_init" "bb_step False" bb_inv bb_final bb_rank
  by unfold_locales (auto intro: bb_init_inv bb_inv_step bb_progress bb_rank_step)

lemma bb_final_printed:
  assumes "bb_inv s" "bb_final s"
  shows "printed s = map int [1..<ITEMS + 1]"
proof -
  have "num s = 0" using assms by (auto simp: bb_inv_def bb_room_def bb_final_def)
  then show ?thesis using assms by (auto simp: bb_inv_def bb_ring_def bb_final_def stored_def produced_def)
qed

text \<open>
  C33. As long as waits end only by a signal, every run prints the numbers in the order in
  which they were produced, never reads an empty slot or writes a full one, has at most 292
  steps, and ends with all twenty numbers printed, the producer gone and the consumer,
  and with it \<open>main\<close>, waiting for ever.
\<close>

theorem buffer_runs:
  assumes "(bb_step False ^^ k) bb_init s"
  shows "k \<le> 292 \<and> (\<exists>m. printed s = map int [1..<m + 1] \<and> m \<le> ITEMS) \<and>
    0 \<le> num s \<and> num s \<le> int BUF_SLOTS \<and> (consumer s = CRem \<longrightarrow> 0 < num s) \<and>
    (producer s = PAdd \<longrightarrow> num s < int BUF_SLOTS) \<and>
    ((\<nexists>t. bb_step False s t) \<longrightarrow>
       producer s = PQuit \<and> consumer s = CWait \<and> printed s = map int [1..<ITEMS + 1])"
proof -
  have "(bb_step False)\<^sup>*\<^sup>* bb_init s" using assms by (rule relpowp_imp_rtranclp)
  then have inv: "bb_inv s" by (rule bb_run.reach_inv [OF refl])
  then have ring: "bb_ring s" and room: "bb_room s" by (simp_all add: bb_inv_def)
  have "bb_rank bb_init = 292" by (simp add: bb_rank_def bb_init_def ITEMS_def)
  then have "k \<le> 292" using bb_run.run_length [OF assms bb_init_inv] by simp
  moreover have "\<exists>m. printed s = map int [1..<m + 1] \<and> m \<le> ITEMS"
  proof (intro exI conjI)
    have "printed s = take (length (printed s)) (map int [1..<produced s + 1])"
      using ring unfolding bb_ring_def by (metis append_eq_conv_conj)
    then show "printed s = map int [1..<length (printed s) + 1]"
      using printed_le(1) [OF ring] by (simp add: take_map take_upt del: upt_Suc)
    show "length (printed s) \<le> ITEMS" using printed_le [OF ring] by simp
  qed
  moreover have "(\<nexists>t. bb_step False s t) \<longrightarrow> bb_final s" using bb_progress inv by blast
  ultimately show ?thesis
    using room bb_final_printed [OF inv] by (auto simp: bb_room_def bb_final_def)
qed

theorem buffer_runs_witness:
  "0 \<le> num bb_init \<and> num bb_init \<le> int BUF_SLOTS"
proof -
  have "(bb_step False ^^ 0) bb_init bb_init" by simp
  from buffer_runs [OF this] show ?thesis by blast
qed

section \<open>The buffer as a channel\<close>

text \<open>Items that the producer has not put into the buffer yet.\<close>

definition to_produce :: "bbuf \<Rightarrow> int list" where
  "to_produce s = map int [produced s + 1..<ITEMS + 1]"

definition bb_view :: "bbuf \<Rightarrow> int channel \<Rightarrow> bool" where
  "bb_view s c \<longleftrightarrow> unsent c = to_produce s \<and> travelling c = stored s \<and> arrived c = printed s"

lemma bb_view_same:
  assumes "bb_view s c" "slots t = slots s" "rem_at t = rem_at s" "num t = num s" "printed t = printed s"
    "produced t = produced s"
  shows "bb_view t c"
  using assms by (simp add: bb_view_def stored_def to_produce_def)

lemma length_in_use: "length (stored s) = nat (num s)"
  by (simp add: stored_def)

lemma prod_view:
  "prod_step s t \<Longrightarrow> bb_room s \<Longrightarrow> bb_ring s \<Longrightarrow> bb_view s c \<Longrightarrow>
   bb_view t c \<or> (\<exists>d. chan_step BUF_SLOTS c d \<and> bb_view t d)"
proof (induction rule: prod_step.induct)
  case (p_add s)
  let ?t = "s\<lparr>slots := (slots s)[add_at s := int (item s)],
     add_at := (add_at s + 1) mod BUF_SLOTS, num := num s + 1, producer := PSignal\<rparr>"
  let ?d = "c\<lparr>unsent := to_produce ?t, travelling := travelling c @ [int (item s)]\<rparr>"
  have n: "0 \<le> num s" "num s < int BUF_SLOTS" using p_add by (simp_all add: bb_room_def)
  have st: "stored ?t = stored s @ [int (item s)]"
    using p_add n by (intro stored_add) (simp_all add: bb_ring_def)
  have i: "1 \<le> item s" "item s < ITEMS + 1" using p_add by (auto simp: bb_ring_def)
  then have "to_produce s = int (item s) # to_produce ?t"
    using p_add(1) by (simp add: to_produce_def produced_def upt_conv_Cons del: upt_Suc)
  then have "chan_step BUF_SLOTS c ?d"
    using p_add(4) n by (intro chan_step.send) (simp_all add: bb_view_def length_in_use)
  moreover have "bb_view ?t ?d" using p_add(4) st by (simp add: bb_view_def)
  ultimately show ?case by blast
qed (auto elim!: bb_view_same simp: produced_def bb_ring_def)

lemma cons_view:
  "cons_step s t \<Longrightarrow> bb_room s \<Longrightarrow> bb_ring s \<Longrightarrow> bb_view s c \<Longrightarrow>
   bb_view t c \<or> (\<exists>d. chan_step BUF_SLOTS c d \<and> bb_view t d)"
proof (induction rule: cons_step.induct)
  case (c_rem s)
  let ?t = "s\<lparr>printed := printed s @ [slots s ! rem_at s],
     rem_at := (rem_at s + 1) mod BUF_SLOTS, num := num s - 1, consumer := CSignal\<rparr>"
  let ?d = "c\<lparr>travelling := stored ?t, arrived := arrived c @ [slots s ! rem_at s]\<rparr>"
  have n: "0 < num s" using c_rem by (simp add: bb_room_def)
  have st: "stored s = slots s ! rem_at s # stored ?t"
    using c_rem n by (intro stored_rem) (simp_all add: bb_ring_def)
  then have "chan_step BUF_SLOTS c ?d"
    using c_rem(4) by (intro chan_step.receive) (simp_all add: bb_view_def)
  moreover have "bb_view ?t ?d" using c_rem(4) by (simp add: bb_view_def to_produce_def produced_def)
  ultimately show ?case by blast
qed (auto elim!: bb_view_same simp: produced_def)

lemma bb_view_step:
  "bb_inv s \<Longrightarrow> bb_step False s t \<Longrightarrow> bb_view s c \<Longrightarrow>
   bb_view t c \<or> (\<exists>d. chan_step BUF_SLOTS c d \<and> bb_view t d)"
  using prod_view cons_view unfolding bb_inv_def bb_step_def by blast

lemma bb_view_start: "bb_view bb_init (chan_start (map int [1..<ITEMS + 1]))"
  by (simp add: bb_view_def to_produce_def stored_def produced_def bb_init_def)

interpretation bb_channel: medium
  "\<lambda>s. s = bb_init" "bb_step False" bb_inv BUF_SLOTS "map int [1..<ITEMS + 1]" bb_view
proof unfold_locales
  show "bb_view s (chan_start (map int [1..<ITEMS + 1]))" if "s = bb_init" for s
    unfolding that by (rule bb_view_start)
qed (rule bb_view_step)

text \<open>
  C35. The ring buffer with its mutex and its two condition variables refines the bounded
  channel of ten items that carries the numbers from one to twenty: whatever the schedule, the
  slots in use, read from \<open>rem_at\<close> on, are what travels, and the printed numbers are what has
  arrived.  Waits end only by a signal here.
\<close>

theorem buffer_refines_channel:
  assumes "(bb_step False)\<^sup>*\<^sup>* bb_init s"
  shows "\<exists>c. (chan_step BUF_SLOTS)\<^sup>*\<^sup>* (chan_start (map int [1..<ITEMS + 1])) c \<and>
    travelling c = stored s \<and> arrived c = printed s \<and>
    printed s @ stored s @ unsent c = map int [1..<ITEMS + 1] \<and> length (stored s) \<le> BUF_SLOTS"
proof -
  obtain c where "(chan_step BUF_SLOTS)\<^sup>*\<^sup>* (chan_start (map int [1..<ITEMS + 1])) c" "bb_view s c"
    "arrived c @ travelling c @ unsent c = map int [1..<ITEMS + 1]" "length (travelling c) \<le> BUF_SLOTS"
    using bb_channel.carries [OF refl assms] by blast
  then show ?thesis by (intro exI [of _ c]) (simp add: bb_view_def)
qed

theorem buffer_refines_channel_witness:
  "\<exists>c. (chan_step BUF_SLOTS)\<^sup>*\<^sup>* (chan_start (map int [1..<ITEMS + 1])) c \<and>
    travelling c = stored bb_init \<and> arrived c = printed bb_init"
  using buffer_refines_channel [OF rtranclp.rtrancl_refl] by blast

text \<open>
  With a wait that ends by itself the consumer takes an item out of the empty buffer: it
  prints a slot that was never filled and the number of items becomes negative.
\<close>

lemma spurious_wakeup:
  "\<exists>s. (bb_step True)\<^sup>*\<^sup>* bb_init s \<and> printed s = [0] \<and> num s = -1"
proof -
  let ?a = "bb_init\<lparr>consumer := CTest, mutex := Consumer\<rparr>"
  let ?b = "bb_init\<lparr>consumer := CWait\<rparr>"
  let ?c = "bb_init\<lparr>consumer := CRelock\<rparr>"
  let ?d = "bb_init\<lparr>consumer := CRem, mutex := Consumer\<rparr>"
  let ?e = "bb_init\<lparr>consumer := CSignal, mutex := Consumer, printed := [0], rem_at := 1, num := -1\<rparr>"
  have "bb_step True bb_init ?a" using cons_step.c_lock [of bb_init] by (simp add: bb_step_def bb_init_def)
  moreover have "bb_step True ?a ?b" using cons_step.c_empty [of ?a] by (simp add: bb_step_def bb_init_def)
  moreover have "bb_step True ?b ?c" using wake_step.c_wake [of ?b] by (simp add: bb_step_def bb_init_def)
  moreover have "bb_step True ?c ?d" using cons_step.c_relock [of ?c] by (simp add: bb_step_def bb_init_def)
  moreover have "bb_step True ?d ?e"
    using cons_step.c_rem [of ?d] by (simp add: bb_step_def bb_init_def BUF_SLOTS_def)
  ultimately have "(bb_step True)\<^sup>*\<^sup>* bb_init ?e"
    by (meson converse_rtranclp_into_rtranclp rtranclp.rtrancl_refl)
  then show ?thesis by (intro exI [of _ ?e]) simp
qed

section \<open>The main thread\<close>

text \<open>
  \<open>main\<close> creates both threads and joins them; when a thread cannot be created it ends the process.
  \<open>threads_on\<close> says which threads exist.
\<close>

datatype bb_main_pc = MakeProducer | MakeConsumer | JoinProducer | JoinConsumer | ParentQuits | ParentFails

record pc_run =
  parent :: bb_main_pc
  threads_on :: "bool \<times> bool"
  buffers :: bbuf

definition pc_start :: pc_run where
  "pc_start = \<lparr>parent = MakeProducer, threads_on = (False, False), buffers = bb_init\<rparr>"

fun process_lives :: "bb_main_pc \<Rightarrow> bool" where
  "process_lives ParentQuits \<longleftrightarrow> False"
| "process_lives ParentFails \<longleftrightarrow> False"
| "process_lives _ \<longleftrightarrow> True"

text \<open>The loop of the consumer has no end.\<close>

definition consumer_ended :: "cons_pc \<Rightarrow> bool" where
  "consumer_ended pc \<longleftrightarrow> False"

inductive bb_main_step :: "pc_run \<Rightarrow> pc_run \<Rightarrow> bool" where
  makes_producer: "parent s = MakeProducer \<Longrightarrow>
     bb_main_step s (s\<lparr>parent := MakeConsumer, threads_on := (True, snd (threads_on s))\<rparr>)"
| makes_consumer: "parent s = MakeConsumer \<Longrightarrow>
     bb_main_step s (s\<lparr>parent := JoinProducer, threads_on := (fst (threads_on s), True)\<rparr>)"
| cannot_make: "parent s = MakeProducer \<or> parent s = MakeConsumer \<Longrightarrow> bb_main_step s (s\<lparr>parent := ParentFails\<rparr>)"
| joins_producer: "parent s = JoinProducer \<Longrightarrow> producer (buffers s) = PQuit \<Longrightarrow> bb_main_step s (s\<lparr>parent := JoinConsumer\<rparr>)"
| joins_consumer: "parent s = JoinConsumer \<Longrightarrow> consumer_ended (consumer (buffers s)) \<Longrightarrow>
     bb_main_step s (s\<lparr>parent := ParentQuits\<rparr>)"
| runs_producer: "process_lives (parent s) \<Longrightarrow> fst (threads_on s) \<Longrightarrow> prod_step (buffers s) b \<Longrightarrow>
     bb_main_step s (s\<lparr>buffers := b\<rparr>)"
| runs_consumer: "process_lives (parent s) \<Longrightarrow> snd (threads_on s) \<Longrightarrow> cons_step (buffers s) b \<Longrightarrow>
     bb_main_step s (s\<lparr>buffers := b\<rparr>)"

fun parent_ok :: "bb_main_pc \<Rightarrow> bool \<times> bool \<Rightarrow> bool" where
  "parent_ok MakeProducer on \<longleftrightarrow> on = (False, False)"
| "parent_ok MakeConsumer on \<longleftrightarrow> on = (True, False)"
| "parent_ok ParentFails on \<longleftrightarrow> \<not> snd on"
| "parent_ok ParentQuits on \<longleftrightarrow> False"
| "parent_ok _ on \<longleftrightarrow> on = (True, True)"

definition parent_inv :: "pc_run \<Rightarrow> bool" where
  "parent_inv s \<longleftrightarrow> bb_inv (buffers s) \<and> parent_ok (parent s) (threads_on s) \<and>
     (\<not> snd (threads_on s) \<longrightarrow> printed (buffers s) = [])"

lemma prod_prints_nothing: "prod_step s t \<Longrightarrow> printed t = printed s"
  by (induction rule: prod_step.induct) simp_all

lemma parent_inv_step: "parent_inv s \<Longrightarrow> bb_main_step s t \<Longrightarrow> parent_inv t"
proof -
  assume inv: "parent_inv s" and "bb_main_step s t"
  from this(2) show "parent_inv t"
  proof cases
    case (runs_producer b)
    then have "bb_step False (buffers s) b" by (simp add: bb_step_def)
    then have "bb_inv b" using bb_inv_step inv by (auto simp: parent_inv_def)
    with runs_producer inv show ?thesis by (simp add: parent_inv_def prod_prints_nothing)
  next
    case (runs_consumer b)
    then have "bb_step False (buffers s) b" by (simp add: bb_step_def)
    then have "bb_inv b" using bb_inv_step inv by (auto simp: parent_inv_def)
    with runs_consumer inv show ?thesis by (simp add: parent_inv_def)
  next
    case cannot_make
    with inv show ?thesis by (auto simp: parent_inv_def)
  qed (use inv in \<open>simp_all add: parent_inv_def consumer_ended_def\<close>)
qed

lemma parent_inv_start: "parent_inv pc_start"
proof -
  have "printed bb_init = []" by (simp add: bb_init_def)
  then show ?thesis using bb_init_inv by (simp add: parent_inv_def pc_start_def)
qed

interpretation parent_run: trans_inv "\<lambda>s. s = pc_start" bb_main_step parent_inv
  by unfold_locales (auto intro: parent_inv_start parent_inv_step)

text \<open>
  The process never comes to its last line.  Either it fails because a thread could not be created,
  and then nothing has been printed, or it gets to the state in which everything is printed and
  \<open>main\<close> waits for the consumer.
\<close>

theorem parent_never_quits:
  assumes "bb_main_step\<^sup>*\<^sup>* pc_start s"
  shows "parent s \<noteq> ParentQuits" "parent s = ParentFails \<Longrightarrow> printed (buffers s) = []"
    "(\<nexists>t. bb_main_step s t) \<Longrightarrow> parent s \<noteq> ParentFails \<Longrightarrow>
      parent s = JoinConsumer \<and> printed (buffers s) = map int [1..<ITEMS + 1]"
proof -
  have inv: "parent_inv s" by (rule parent_run.reach_inv [OF refl assms])
  show "parent s \<noteq> ParentQuits" using inv by (auto simp: parent_inv_def)
  show "parent s = ParentFails \<Longrightarrow> printed (buffers s) = []" using inv by (auto simp: parent_inv_def)
  assume stuck: "\<nexists>t. bb_main_step s t" and "parent s \<noteq> ParentFails"
  then have "parent s \<noteq> MakeProducer" "parent s \<noteq> MakeConsumer" "parent s \<noteq> ParentQuits"
    using bb_main_step.cannot_make inv by (auto simp: parent_inv_def)
  then have pc: "parent s = JoinProducer \<or> parent s = JoinConsumer" using \<open>parent s \<noteq> ParentFails\<close>
    by (cases "parent s") auto
  then have on: "threads_on s = (True, True)" "process_lives (parent s)" using inv by (auto simp: parent_inv_def)
  have "\<not> bb_step False (buffers s) b" for b
    using stuck on bb_main_step.runs_producer [of s b] bb_main_step.runs_consumer [of s b]
    by (auto simp: bb_step_def)
  then have fin: "bb_final (buffers s)" using bb_progress inv by (auto simp: parent_inv_def)
  then have "parent s \<noteq> JoinProducer" using stuck bb_main_step.joins_producer by (auto simp: bb_final_def)
  then show "parent s = JoinConsumer \<and> printed (buffers s) = map int [1..<ITEMS + 1]"
    using pc fin bb_final_printed inv by (auto simp: parent_inv_def)
qed

theorem parent_never_quits_witness:
  "\<exists>s. bb_main_step\<^sup>*\<^sup>* pc_start s \<and> parent s = ParentFails \<and> printed (buffers s) = []"
proof -
  have s: "bb_main_step\<^sup>*\<^sup>* pc_start (pc_start\<lparr>parent := ParentFails\<rparr>)"
    using bb_main_step.cannot_make [of pc_start] by (simp add: pc_start_def)
  from parent_never_quits(2) [OF s] s show ?thesis by (intro exI [of _ "pc_start\<lparr>parent := ParentFails\<rparr>"]) simp
qed

end
