(* ===== verification/Counting.thy ===== *)
theory Counting
  imports Prelude
begin

text \<open>
  Two threads that add 1 and -1 to a shared sum a million times,
  \<open>task_4/examples/2_multithread_counting_nosync.c\<close> and \<open>3_mutex_lock.c\<close>: \<open>sum += offset\<close> is
  a load and a store.  \<open>plain_step\<close> is the program without, \<open>mutex_step\<close> the one with the
  lock; the state is the same.
\<close>

section \<open>State and steps\<close>

definition NUM_LOOPS :: nat where
  "NUM_LOOPS = 1000000"

datatype count_pc = KLock | KLoad | KStore int | KUnlock | KExit

text \<open>\<open>True\<close> is the first thread, \<open>False\<close> the second.\<close>

record counting =
  sum_now :: int
  lock_of :: "bool option"
  pc_of :: "bool \<Rightarrow> count_pc"
  loops :: "bool \<Rightarrow> nat"

definition offset_of :: "bool \<Rightarrow> int" where
  "offset_of t = (if t then 1 else -1)"

text \<open>Where a thread that has finished \<open>i\<close> of \<open>n\<close> rounds goes on.\<close>

definition next_round :: "count_pc \<Rightarrow> nat \<Rightarrow> nat \<Rightarrow> count_pc" where
  "next_round p n i = (if i < n then p else KExit)"

definition move :: "bool \<Rightarrow> count_pc \<Rightarrow> counting \<Rightarrow> counting" where
  "move t p s = s\<lparr>pc_of := (pc_of s)(t := p)\<rparr>"

definition plain_start :: "nat \<Rightarrow> counting" where
  "plain_start n = \<lparr>sum_now = 0, lock_of = None, pc_of = (\<lambda>t. next_round KLoad n 0), loops = (\<lambda>t. 0)\<rparr>"

inductive plain_step :: "nat \<Rightarrow> counting \<Rightarrow> counting \<Rightarrow> bool" for n where
  load: "pc_of s t = KLoad \<Longrightarrow> plain_step n s (move t (KStore (sum_now s)) s)"
| store: "pc_of s t = KStore v \<Longrightarrow>
     plain_step n s ((move t (next_round KLoad n (loops s t + 1)) s)
       \<lparr>sum_now := v + offset_of t, loops := (loops s)(t := loops s t + 1)\<rparr>)"

definition mutex_start :: "nat \<Rightarrow> counting" where
  "mutex_start n = \<lparr>sum_now = 0, lock_of = None, pc_of = (\<lambda>t. next_round KLock n 0), loops = (\<lambda>t. 0)\<rparr>"

inductive mutex_step :: "nat \<Rightarrow> counting \<Rightarrow> counting \<Rightarrow> bool" for n where
  lock: "pc_of s t = KLock \<Longrightarrow> lock_of s = None \<Longrightarrow> mutex_step n s ((move t KLoad s)\<lparr>lock_of := Some t\<rparr>)"
| load: "pc_of s t = KLoad \<Longrightarrow> mutex_step n s (move t (KStore (sum_now s)) s)"
| store: "pc_of s t = KStore v \<Longrightarrow> mutex_step n s ((move t KUnlock s)\<lparr>sum_now := v + offset_of t\<rparr>)"
| unlock: "pc_of s t = KUnlock \<Longrightarrow>
     mutex_step n s ((move t (next_round KLock n (loops s t + 1)) s)
       \<lparr>lock_of := None, loops := (loops s)(t := loops s t + 1)\<rparr>)"

text \<open>Both threads have left their loops: \<open>main\<close> prints \<open>sum_now\<close>.\<close>

definition counted :: "counting \<Rightarrow> bool" where
  "counted s \<longleftrightarrow> (\<forall>t. pc_of s t = KExit)"

lemma move_simps [simp]:
  "sum_now (move t p s) = sum_now s" "lock_of (move t p s) = lock_of s" "loops (move t p s) = loops s"
  "pc_of (move t p s) u = (if u = t then p else pc_of s u)"
  by (simp_all add: move_def)

section \<open>With the mutex\<close>

fun in_section :: "count_pc \<Rightarrow> bool" where
  "in_section KLock \<longleftrightarrow> False"
| "in_section KExit \<longleftrightarrow> False"
| "in_section _ \<longleftrightarrow> True"

text \<open>How often a thread has added its offset.\<close>

definition added :: "counting \<Rightarrow> bool \<Rightarrow> nat" where
  "added s t = loops s t + (if pc_of s t = KUnlock then 1 else 0)"

definition count_inv :: "nat \<Rightarrow> counting \<Rightarrow> bool" where
  "count_inv n s \<longleftrightarrow>
     (\<forall>t. in_section (pc_of s t) \<longleftrightarrow> lock_of s = Some t) \<and>
     (\<forall>t v. pc_of s t = KStore v \<longrightarrow> v = sum_now s) \<and>
     (\<forall>t. if pc_of s t = KExit then loops s t = n else loops s t < n) \<and>
     sum_now s = int (added s True) - int (added s False)"

lemma mutex_start_inv: "count_inv n (mutex_start n)"
  by (simp add: count_inv_def mutex_start_def next_round_def added_def)

lemma next_round_cases:
  "i < n \<Longrightarrow> next_round p n i = p" "\<not> i < n \<Longrightarrow> next_round p n i = KExit"
  by (simp_all add: next_round_def)

lemma other_outside: "count_inv n s \<Longrightarrow> in_section (pc_of s t) \<Longrightarrow> \<not> in_section (pc_of s (\<not> t))"
  by (auto simp: count_inv_def)

lemma count_inv_step:
  assumes "count_inv n s" "mutex_step n s s'"
  shows "count_inv n s'"
  using assms(2,1)
proof (induction rule: mutex_step.induct)
  case (lock s t)
  then have "\<not> in_section (pc_of s (\<not> t))" by (simp add: count_inv_def)
  then have "pc_of s (\<not> t) \<noteq> KUnlock" by auto
  with lock show ?case by (cases t) (auto simp: count_inv_def added_def)
next
  case (load s t)
  then have "\<not> in_section (pc_of s (\<not> t))" by (intro other_outside) simp_all
  then have "\<forall>v. pc_of s (\<not> t) \<noteq> KStore v" by auto
  with load show ?case by (cases t) (auto simp: count_inv_def added_def)
next
  case (store s t v)
  then have "\<not> in_section (pc_of s (\<not> t))" by (intro other_outside) simp_all
  then have "\<forall>w. pc_of s (\<not> t) \<noteq> KStore w" "pc_of s (\<not> t) \<noteq> KUnlock" by auto
  with store show ?case by (cases t) (auto simp: count_inv_def added_def offset_of_def)
next
  case (unlock s t)
  let ?p = "next_round KLock n (loops s t + 1)"
  have out: "\<not> in_section (pc_of s (\<not> t))" using unlock by (intro other_outside) simp_all
  then have other: "\<forall>w. pc_of s (\<not> t) \<noteq> KStore w" "pc_of s (\<not> t) \<noteq> KUnlock" by auto
  have p: "\<not> in_section ?p" "\<forall>w. ?p \<noteq> KStore w" "?p \<noteq> KUnlock" by (simp_all add: next_round_def)
  have "if pc_of s t = KExit then loops s t = n else loops s t < n"
    and rest: "if pc_of s (\<not> t) = KExit then loops s (\<not> t) = n else loops s (\<not> t) < n"
    using unlock(2) unfolding count_inv_def by blast+
  then have "loops s t < n" using unlock(1) by simp
  then have done_t: "if ?p = KExit then loops s t + 1 = n else loops s t + 1 < n"
    by (auto simp: next_round_def)
  have sum: "sum_now s = int (added s True) - int (added s False)"
    using unlock(2) by (simp add: count_inv_def)
  show ?case unfolding count_inv_def all_bool_eq
    using out other p rest done_t sum unlock(1) by (cases t) (simp_all add: added_def if_bool_eq_conj)
qed

fun count_rank :: "count_pc \<Rightarrow> nat" where
  "count_rank KLock = 3"
| "count_rank KLoad = 2"
| "count_rank (KStore v) = 1"
| "count_rank KUnlock = 0"
| "count_rank KExit = 0"

definition mutex_rank :: "nat \<Rightarrow> counting \<Rightarrow> nat" where
  "mutex_rank n s = (\<Sum>t \<in> {True, False}. 4 * (n - loops s t) + count_rank (pc_of s t))"

lemma mutex_rank_step:
  assumes "count_inv n s" "mutex_step n s s'"
  shows "mutex_rank n s' < mutex_rank n s"
  using assms(2,1)
proof (induction rule: mutex_step.induct)
  case (unlock s t)
  then have "loops s t < n" by (auto simp: count_inv_def split: if_splits)
  with unlock show ?case
    by (cases t; cases "loops s t + 1 < n") (auto simp: mutex_rank_def next_round_cases)
next
  case (lock s t)
  then show ?case by (cases t) (simp_all add: mutex_rank_def)
next
  case (load s t)
  then show ?case by (cases t) (simp_all add: mutex_rank_def)
next
  case (store s t v)
  then show ?case by (cases t) (simp_all add: mutex_rank_def)
qed

lemma mutex_progress:
  assumes "count_inv n s" "\<not> counted s"
  shows "\<exists>s'. mutex_step n s s'"
proof (cases "lock_of s")
  case (Some t)
  then have "in_section (pc_of s t)" using assms(1) by (simp add: count_inv_def)
  then show ?thesis by (cases "pc_of s t") (auto intro: mutex_step.load mutex_step.store mutex_step.unlock)
next
  case None
  obtain t where "pc_of s t \<noteq> KExit" using assms(2) by (auto simp: counted_def)
  moreover have "\<not> in_section (pc_of s t)" using assms(1) None by (simp add: count_inv_def)
  ultimately have "pc_of s t = KLock" by (cases "pc_of s t") simp_all
  with None show ?thesis by (blast intro: mutex_step.lock)
qed

interpretation counting_run: live_inv "\<lambda>s. s = mutex_start n" "mutex_step n" "count_inv n" counted "mutex_rank n"
  for n
  by unfold_locales (auto intro: mutex_start_inv count_inv_step mutex_progress mutex_rank_step)

lemma counted_zero: "count_inv n s \<Longrightarrow> counted s \<Longrightarrow> sum_now s = 0"
  by (auto simp: count_inv_def counted_def added_def)

section \<open>Without the mutex\<close>

text \<open>One thread alone: \<open>k\<close> rounds, while the other one stays where it is.\<close>

lemma rounds:
  assumes "pc_of s t = KLoad" "loops s t + k \<le> n" "0 < k"
  shows "(plain_step n)\<^sup>*\<^sup>* s (s\<lparr>sum_now := sum_now s + int k * offset_of t,
     pc_of := (pc_of s)(t := next_round KLoad n (loops s t + k)), loops := (loops s)(t := loops s t + k)\<rparr>)"
  using assms
proof (induction k arbitrary: s)
  case (Suc k)
  let ?a = "move t (KStore (sum_now s)) s"
  let ?b = "(move t (next_round KLoad n (loops s t + 1)) s)
       \<lparr>sum_now := sum_now s + offset_of t, loops := (loops s)(t := loops s t + 1)\<rparr>"
  have 1: "plain_step n s ?a" using Suc.prems(1) by (rule plain_step.load)
  have "plain_step n ?a ((move t (next_round KLoad n (loops ?a t + 1)) ?a)
       \<lparr>sum_now := sum_now s + offset_of t, loops := (loops ?a)(t := loops ?a t + 1)\<rparr>)"
    by (rule plain_step.store) simp
  moreover have "(move t (next_round KLoad n (loops ?a t + 1)) ?a)
       \<lparr>sum_now := sum_now s + offset_of t, loops := (loops ?a)(t := loops ?a t + 1)\<rparr> = ?b"
    by (simp add: move_def)
  ultimately have 2: "plain_step n ?a ?b" by simp
  show ?case
  proof (cases "k = 0")
    case True
    then have "?b = s\<lparr>sum_now := sum_now s + int (Suc k) * offset_of t,
        pc_of := (pc_of s)(t := next_round KLoad n (loops s t + Suc k)), loops := (loops s)(t := loops s t + Suc k)\<rparr>"
      by (simp add: move_def)
    then show ?thesis using 1 2 by (metis (no_types, lifting) converse_rtranclp_into_rtranclp rtranclp.rtrancl_refl)
  next
    case False
    then have "loops s t + 1 < n" using Suc.prems by simp
    then have "(plain_step n)\<^sup>*\<^sup>* ?b (?b\<lparr>sum_now := sum_now ?b + int k * offset_of t,
        pc_of := (pc_of ?b)(t := next_round KLoad n (loops ?b t + k)), loops := (loops ?b)(t := loops ?b t + k)\<rparr>)"
      using Suc.prems False by (intro Suc.IH) (simp_all add: next_round_cases)
    moreover have "?b\<lparr>sum_now := sum_now ?b + int k * offset_of t,
        pc_of := (pc_of ?b)(t := next_round KLoad n (loops ?b t + k)), loops := (loops ?b)(t := loops ?b t + k)\<rparr> =
      s\<lparr>sum_now := sum_now s + int (Suc k) * offset_of t,
        pc_of := (pc_of s)(t := next_round KLoad n (loops s t + Suc k)), loops := (loops s)(t := loops s t + Suc k)\<rparr>"
      by (simp add: move_def algebra_simps)
    ultimately show ?thesis using 1 2 by (metis (no_types, lifting) converse_rtranclp_into_rtranclp)
  qed
qed simp

text \<open>
  The first thread loads 0, the second counts all the way down, the first stores 1 and
  counts on: everything the second one did is lost.
\<close>

lemma plain_loses:
  assumes "0 < n"
  shows "\<exists>s. (plain_step n)\<^sup>*\<^sup>* (plain_start n) s \<and> counted s \<and> sum_now s = int n"
proof -
  let ?s0 = "plain_start n" let ?s1 = "move True (KStore 0) (plain_start n)"
  let ?s2 = "?s1\<lparr>sum_now := - int n, pc_of := (pc_of ?s1)(False := KExit), loops := (loops ?s1)(False := n)\<rparr>"
  let ?s3 = "(move True (next_round KLoad n 1) ?s2)\<lparr>sum_now := 1, loops := (loops ?s2)(True := 1)\<rparr>"
  have "plain_step n ?s0 (move True (KStore (sum_now ?s0)) ?s0)"
    using assms by (intro plain_step.load) (simp add: plain_start_def next_round_def)
  then have 1: "plain_step n ?s0 ?s1" by (simp add: plain_start_def)
  have 2: "(plain_step n)\<^sup>*\<^sup>* ?s1 ?s2"
    using rounds [of ?s1 False n n] assms by (simp add: plain_start_def next_round_def offset_of_def)
  have "plain_step n ?s2 ((move True (next_round KLoad n (loops ?s2 True + 1)) ?s2)
      \<lparr>sum_now := 0 + offset_of True, loops := (loops ?s2)(True := loops ?s2 True + 1)\<rparr>)"
    by (rule plain_step.store) simp
  then have 3: "plain_step n ?s2 ?s3" by (simp add: plain_start_def offset_of_def)
  have "\<exists>s. (plain_step n)\<^sup>*\<^sup>* ?s3 s \<and> counted s \<and> sum_now s = int n"
  proof (cases "n = 1")
    case True
    then show ?thesis
      by (intro exI [of _ ?s3]) (auto simp: counted_def next_round_def)
  next
    case False
    then have n: "1 < n" using assms by simp
    have "(plain_step n)\<^sup>*\<^sup>* ?s3 (?s3\<lparr>sum_now := sum_now ?s3 + int (n - 1) * offset_of True,
        pc_of := (pc_of ?s3)(True := next_round KLoad n (loops ?s3 True + (n - 1))),
        loops := (loops ?s3)(True := loops ?s3 True + (n - 1))\<rparr>)"
      using n by (intro rounds) (simp_all add: next_round_def)
    then show ?thesis
      using n by (intro exI conjI) (assumption, auto simp: counted_def next_round_def offset_of_def)
  qed
  then show ?thesis using 1 2 3
    by (meson converse_rtranclp_into_rtranclp rtranclp_trans)
qed

text \<open>
  C34. With the mutex every run of the two threads ends, in any order, after at most \<open>8 n + 6\<close>
  steps, and prints 0; without it there is, for every positive number of rounds, a run
  that ends with all of one thread's additions lost.
\<close>

theorem counting_needs_the_mutex:
  assumes "(mutex_step NUM_LOOPS ^^ k) (mutex_start NUM_LOOPS) s"
  shows "k \<le> 8 * NUM_LOOPS + 6 \<and> ((\<nexists>s'. mutex_step NUM_LOOPS s s') \<longrightarrow> counted s) \<and>
    (counted s \<longrightarrow> sum_now s = 0) \<and>
    (\<exists>s'. (plain_step NUM_LOOPS)\<^sup>*\<^sup>* (plain_start NUM_LOOPS) s' \<and> counted s' \<and> sum_now s' = int NUM_LOOPS)"
proof -
  have pos: "0 < NUM_LOOPS" by (simp add: NUM_LOOPS_def)
  have "(mutex_step NUM_LOOPS)\<^sup>*\<^sup>* (mutex_start NUM_LOOPS) s" using assms by (rule relpowp_imp_rtranclp)
  then have inv: "count_inv NUM_LOOPS s" by (rule counting_run.reach_inv [OF refl])
  have "mutex_rank NUM_LOOPS (mutex_start NUM_LOOPS) = 8 * NUM_LOOPS + 6"
    using pos by (simp add: mutex_rank_def mutex_start_def next_round_def)
  then have "k \<le> 8 * NUM_LOOPS + 6"
    using counting_run.run_length [OF assms mutex_start_inv] by simp
  then show ?thesis
    using mutex_progress [OF inv] counted_zero [OF inv] plain_loses [OF pos] by blast
qed

theorem counting_needs_the_mutex_witness:
  "\<exists>s'. (plain_step NUM_LOOPS)\<^sup>*\<^sup>* (plain_start NUM_LOOPS) s' \<and> counted s' \<and> sum_now s' = int NUM_LOOPS"
proof -
  have "(mutex_step NUM_LOOPS ^^ 0) (mutex_start NUM_LOOPS) (mutex_start NUM_LOOPS)" by simp
  from counting_needs_the_mutex [OF this] show ?thesis by blast
qed

end
