(* ===== verification/Chat.thy ===== *)
theory Chat
  imports Kernel
begin

text \<open>
  The chat of \<open>task_8/examples/tcp_serv.c\<close> and \<open>tcp_client.c\<close>: client and server type lines in
  turn, each line is sent as a buffer of 80 bytes over a TCP connection, and a line of the
  server that begins with \<open>exit\<close> ends both.  A connection is a byte stream in each
  direction; how many of the waiting bytes a \<open>read\<close> delivers is the network's choice.
\<close>

section \<open>Typing a line\<close>

definition LINE_MAX :: nat where
  "LINE_MAX = 80"

abbreviation NEWLINE :: byte where
  "NEWLINE \<equiv> CHR 0x0A"

text \<open>What \<open>getchar\<close> returns at the end of the input, stored in a \<open>char\<close>.\<close>

abbreviation EOF_BYTE :: byte where
  "EOF_BYTE \<equiv> CHR 0xFF"

text \<open>
  \<open>while ((buff[n++] = getchar()) != '\n')\<close>: \<open>typed\<close> is what will be typed; nothing compares
  \<open>n\<close> with the size of the buffer.
\<close>

function getchars :: "bytes \<Rightarrow> nat \<Rightarrow> bytes \<Rightarrow> (bytes \<times> bytes) result" where
  "getchars buf n typed =
     (let c = (case typed of [] \<Rightarrow> EOF_BYTE | x # _ \<Rightarrow> x)
      in if length buf \<le> n then Inl OutOfBounds
         else if c = NEWLINE then Inr (buf[n := c], tl typed)
         else getchars (buf[n := c]) (n + 1) (tl typed))"
  by pat_completeness auto
termination
  by (relation "measure (\<lambda>(buf, n, typed). length buf - n)") auto

declare getchars.simps [simp del]

text \<open>\<open>strncmp(a, b, n) == 0\<close>.\<close>

fun strncmp_eq :: "nat \<Rightarrow> bytes \<Rightarrow> bytes \<Rightarrow> bool result" where
  "strncmp_eq 0 a b = Inr True"
| "strncmp_eq (Suc n) (x # a) (y # b) =
     (if x \<noteq> y then Inr False else if x = NUL then Inr True else strncmp_eq n a b)"
| "strncmp_eq (Suc n) a b = Inl OutOfBounds"

section \<open>Client and server\<close>

text \<open>Before \<open>getchar\<close>, before \<open>read\<close>, after \<open>main\<close>, dead.\<close>

datatype chat_pc = Typing | Listening | Gone | Crashed

record chat =
  to_server :: kpipe
  to_client :: kpipe
  client_at :: chat_pc
  server_at :: chat_pc
  client_types :: bytes
  server_types :: bytes
  client_sees :: bytes
  server_sees :: bytes

text \<open>
  \<open>write\<close> on the connection, \<open>back\<close> being its other direction: when the peer has closed, the
  bytes are lost at first (\<open>killed = False\<close>), then \<open>SIGPIPE\<close> kills the process.
\<close>

definition send_line :: "bool \<Rightarrow> kpipe \<Rightarrow> bytes \<Rightarrow> kpipe \<Rightarrow> kpipe result" where
  "send_line killed back buf ch =
     (if writers back = 0 then (if killed then Inl Aborted else Inr ch)
      else case pipe_write ch buf of None \<Rightarrow> Inl Blocked | Some ch' \<Rightarrow> Inr ch')"

text \<open>\<open>read\<close> into the cleared buffer; \<open>k\<close> is how much the network offers at once.\<close>

definition recv_line :: "nat \<Rightarrow> kpipe \<Rightarrow> (bytes \<times> kpipe) result" where
  "recv_line k ch =
     (case pipe_read ch (min LINE_MAX k) of
        None \<Rightarrow> Inl Blocked
      | Some (xs, ch') \<Rightarrow> bindS (poke (replicate LINE_MAX NUL) 0 xs) (\<lambda>buf. Inr (buf, ch')))"

definition hang_up :: "kpipe \<Rightarrow> kpipe" where
  "hang_up ch = ch\<lparr>writers := 0\<rparr>"

definition client_typing :: "bool \<Rightarrow> chat \<Rightarrow> chat result" where
  "client_typing killed s =
     bindS (getchars (replicate LINE_MAX NUL) 0 (client_types s)) (\<lambda>(buff, rest).
     bindS (send_line killed (to_client s) buff (to_server s)) (\<lambda>ch.
       Inr (s\<lparr>client_sees := client_sees s @ ''Enter the string : '', client_types := rest,
              to_server := ch, client_at := Listening\<rparr>)))"

definition client_listening :: "nat \<Rightarrow> chat \<Rightarrow> chat result" where
  "client_listening k s =
     bindS (recv_line k (to_client s)) (\<lambda>(buff, ch).
     bindS (format_s buff) (\<lambda>text.
     bindS (strncmp_eq 4 buff (lit ''exit'')) (\<lambda>leave.
       let s' = s\<lparr>to_client := ch, client_sees := client_sees s @ ''From Server : '' @ text\<rparr>
       in if leave
          then Inr (s'\<lparr>client_sees := client_sees s' @ ''Client Exit...'' @ [NEWLINE],
                       client_at := Gone, to_server := hang_up (to_server s)\<rparr>)
          else Inr (s'\<lparr>client_at := Typing\<rparr>))))"

definition client_step :: "nat \<Rightarrow> bool \<Rightarrow> chat \<Rightarrow> chat result" where
  "client_step k killed s =
     (case client_at s of
        Typing \<Rightarrow> client_typing killed s
      | Listening \<Rightarrow> client_listening k s
      | _ \<Rightarrow> Inl Blocked)"

definition server_listening :: "nat \<Rightarrow> chat \<Rightarrow> chat result" where
  "server_listening k s =
     bindS (recv_line k (to_server s)) (\<lambda>(buff, ch).
     bindS (format_s buff) (\<lambda>text.
       Inr (s\<lparr>to_server := ch,
              server_sees := server_sees s @ ''From client: '' @ text @ CHR 0x09 # '' To client : '',
              server_at := Typing\<rparr>)))"

definition server_typing :: "bool \<Rightarrow> chat \<Rightarrow> chat result" where
  "server_typing killed s =
     bindS (getchars (replicate LINE_MAX NUL) 0 (server_types s)) (\<lambda>(buff, rest).
     bindS (send_line killed (to_server s) buff (to_client s)) (\<lambda>ch.
     bindS (strncmp_eq 4 (lit ''exit'') buff) (\<lambda>leave.
       let s' = s\<lparr>server_types := rest, to_client := ch\<rparr>
       in if leave
          then Inr (s'\<lparr>server_sees := server_sees s @ ''Server Exit...'' @ [NEWLINE],
                       server_at := Gone, to_client := hang_up ch\<rparr>)
          else Inr (s'\<lparr>server_at := Listening\<rparr>))))"

definition server_step :: "nat \<Rightarrow> bool \<Rightarrow> chat \<Rightarrow> chat result" where
  "server_step k killed s =
     (case server_at s of
        Typing \<Rightarrow> server_typing killed s
      | Listening \<Rightarrow> server_listening k s
      | _ \<Rightarrow> Inl Blocked)"

text \<open>
  One of the two moves.  \<open>whole\<close>: every \<open>read\<close> gets all that is there, up to the size of its
  buffer; TCP does not promise it.  A fault kills the process and closes its end.
\<close>

inductive chat_step :: "bool \<Rightarrow> chat \<Rightarrow> chat \<Rightarrow> bool" for whole where
  client: "0 < k \<Longrightarrow> whole \<longrightarrow> LINE_MAX \<le> k \<Longrightarrow> client_step k killed s = Inr t \<Longrightarrow>
     chat_step whole s t"
| client_fault: "0 < k \<Longrightarrow> whole \<longrightarrow> LINE_MAX \<le> k \<Longrightarrow> client_step k killed s = Inl e \<Longrightarrow> e \<noteq> Blocked \<Longrightarrow>
     chat_step whole s (s\<lparr>client_at := Crashed, to_server := hang_up (to_server s)\<rparr>)"
| server: "0 < k \<Longrightarrow> whole \<longrightarrow> LINE_MAX \<le> k \<Longrightarrow> server_step k killed s = Inr t \<Longrightarrow>
     chat_step whole s t"
| server_fault: "0 < k \<Longrightarrow> whole \<longrightarrow> LINE_MAX \<le> k \<Longrightarrow> server_step k killed s = Inl e \<Longrightarrow> e \<noteq> Blocked \<Longrightarrow>
     chat_step whole s (s\<lparr>server_at := Crashed, to_client := hang_up (to_client s)\<rparr>)"

inductive_cases chat_stepE: "chat_step whole s t"

text \<open>The two \<open>main\<close> functions: what they print, and whether they come to the chat.\<close>

definition serv_main :: "int \<Rightarrow> int \<Rightarrow> int \<Rightarrow> int \<Rightarrow> string list \<times> bool" where
  "serv_main sockfd bound listens connfd =
     (if sockfd = -1 then ([''socket creation failed...''], False)
      else if bound \<noteq> 0 then ([''Socket successfully created..'', ''socket bind failed...''], False)
      else if listens \<noteq> 0
      then ([''Socket successfully created..'', ''Socket successfully binded..'', ''Listen failed...''], False)
      else ([''Socket successfully created..'', ''Socket successfully binded..'', ''Server listening..'',
             if connfd < 0 then ''server acccept failed...'' else ''server acccept the client...''],
            \<not> connfd < 0))"

definition client_main :: "int \<Rightarrow> int \<Rightarrow> string list \<times> bool" where
  "client_main sockfd connected =
     (if sockfd = -1 then ([''socket creation failed...''], False)
      else ([''Socket successfully created..'',
             if connected \<noteq> 0 then ''connection with the server failed...'' else ''connected to the server..''],
            connected = 0))"

definition chat_start :: "bytes \<Rightarrow> bytes \<Rightarrow> chat" where
  "chat_start ctyped styped =
     \<lparr>to_server = \<lparr>buffered = [], writers = 1\<rparr>, to_client = \<lparr>buffered = [], writers = 1\<rparr>,
      client_at = Typing, server_at = Listening, client_types = ctyped, server_types = styped,
      client_sees = [], server_sees = []\<rparr>"

section \<open>Lines that fit\<close>

lemma getchars_line:
  "NEWLINE \<notin> set l \<Longrightarrow> n + length l < length buf \<Longrightarrow>
   getchars buf n (l @ NEWLINE # r) = Inr (take n buf @ l @ NEWLINE # drop (n + length l + 1) buf, r)"
proof (induction l arbitrary: buf n)
  case Nil
  then show ?case by (simp add: getchars.simps upd_conv_take_nth_drop)
next
  case (Cons x l)
  then have "getchars buf n ((x # l) @ NEWLINE # r) = getchars (buf[n := x]) (n + 1) (l @ NEWLINE # r)"
    by (subst getchars.simps) auto
  then show ?case using Cons by (simp add: take_Suc_conv_app_nth)
qed

lemma getchars_runs_over:
  "NEWLINE \<notin> set (take (length buf - n) typed) \<Longrightarrow> getchars buf n typed = Inl OutOfBounds"
proof (induction "length buf - n" arbitrary: buf n typed)
  case 0
  then show ?case by (subst getchars.simps) (simp add: Let_def)
next
  case (Suc d)
  define c where "c = (case typed of [] \<Rightarrow> EOF_BYTE | x # _ \<Rightarrow> x)"
  have m: "length buf - n = Suc d" "\<not> length buf \<le> n" using Suc.hyps(2) by simp_all
  have c: "c \<noteq> NEWLINE" and rest: "NEWLINE \<notin> set (take d (tl typed))"
    using Suc.prems unfolding m c_def by (cases typed; auto)+
  have "getchars buf n typed = getchars (buf[n := c]) (n + 1) (tl typed)"
    using m(2) c unfolding getchars.simps [of buf n typed] Let_def c_def [symmetric]
    by (simp only: if_False)
  moreover have "length (buf[n := c]) - (n + 1) = d" using m by simp
  ultimately show ?case using Suc.hyps(1) [of "buf[n := c]" "n + 1" "tl typed"] rest by simp
qed

text \<open>A line of at most 78 characters leaves room for its newline and a NUL byte.\<close>

definition fits :: "bytes \<Rightarrow> bool" where
  "fits l \<longleftrightarrow> length l + 2 \<le> LINE_MAX \<and> NEWLINE \<notin> set l \<and> NUL \<notin> set l"

definition ended :: "bytes \<Rightarrow> bytes" where
  "ended l = l @ [NEWLINE]"

definition line_buf :: "bytes \<Rightarrow> bytes" where
  "line_buf l = ended l @ replicate (LINE_MAX - length l - 1) NUL"

definition leaving :: "bytes \<Rightarrow> bool" where
  "leaving l \<longleftrightarrow> take 4 l = ''exit''"

lemma length_line_buf: "fits l \<Longrightarrow> length (line_buf l) = LINE_MAX"
  by (simp add: fits_def line_buf_def ended_def)

lemma getchars_fits: "fits l \<Longrightarrow> getchars (replicate LINE_MAX NUL) 0 (ended l @ r) = Inr (line_buf l, r)"
  using getchars_line [of l 0 "replicate LINE_MAX NUL" r]
  by (simp add: fits_def line_buf_def ended_def diff_diff_left)

lemma format_fits: "fits l \<Longrightarrow> format_s (line_buf l) = Inr (ended l)"
proof -
  assume "fits l"
  then have n: "NUL \<notin> set (ended l)"
    and "line_buf l = ended l @ NUL # replicate (LINE_MAX - length l - 2) NUL"
    by (auto simp: fits_def line_buf_def ended_def simp flip: replicate_Suc)
  then show ?thesis by (simp add: format_s_def strlen_terminated)
qed

lemma strncmp_exit:
  assumes "4 \<le> length b"
  shows "strncmp_eq 4 b (lit ''exit'') = Inr (leaving b)" "strncmp_eq 4 (lit ''exit'') b = Inr (leaving b)"
proof -
  obtain w x y z r where "b = w # x # y # z # r"
    using assms by (auto simp: eval_nat_numeral Suc_le_length_iff)
  then show "strncmp_eq 4 b (lit ''exit'') = Inr (leaving b)" "strncmp_eq 4 (lit ''exit'') b = Inr (leaving b)"
    by (auto simp: eval_nat_numeral leaving_def)
qed

lemma leaving_line: "leaving (line_buf l) \<longleftrightarrow> leaving l"
proof (cases "4 \<le> length l")
  case True
  then show ?thesis by (simp add: leaving_def line_buf_def ended_def)
next
  case False
  then have "length (take 4 l) \<noteq> length ''exit''" by simp
  then have "\<not> leaving l" unfolding leaving_def by metis
  moreover have "NEWLINE \<in> set (take 4 (line_buf l))"
    using False by (simp add: line_buf_def ended_def take_Cons')
  then have "\<not> leaving (line_buf l)" by (auto simp: leaving_def)
  ultimately show ?thesis by simp
qed

lemmas line_simps = getchars_fits format_fits leaving_line length_line_buf strncmp_exit

lemma recv_whole:
  assumes "length (buffered ch) = LINE_MAX" "LINE_MAX \<le> k"
  shows "recv_line k ch = Inr (buffered ch, ch\<lparr>buffered := []\<rparr>)"
proof -
  have "buffered ch \<noteq> []" using assms(1) by (auto simp: LINE_MAX_def)
  then have "pipe_read ch (min LINE_MAX k) = Some (buffered ch, ch\<lparr>buffered := []\<rparr>)"
    using assms by (intro pipe_read_all) simp_all
  then show ?thesis using assms(1) by (simp add: recv_line_def poke_def)
qed

lemma recv_waits: "buffered ch = [] \<Longrightarrow> 0 < writers ch \<Longrightarrow> recv_line k ch = Inl Blocked"
  by (simp add: recv_line_def pipe_read_def)

lemma send_fits:
  "buffered ch = [] \<Longrightarrow> 0 < writers back \<Longrightarrow> fits l \<Longrightarrow>
   send_line killed back (line_buf l) ch = Inr (ch\<lparr>buffered := line_buf l\<rparr>)"
  by (simp add: send_line_def pipe_write_fits length_line_buf LINE_MAX_def PIPE_CAP_def)

section \<open>The four moves of a round\<close>

lemma client_types_line:
  assumes "client_at s = Typing" "client_types s = ended l @ r" "fits l"
    and "buffered (to_server s) = []" "0 < writers (to_client s)"
  shows "client_step k killed s = Inr (s\<lparr>client_sees := client_sees s @ ''Enter the string : '',
    client_types := r, to_server := (to_server s)\<lparr>buffered := line_buf l\<rparr>, client_at := Listening\<rparr>)"
  using assms by (simp add: client_step_def client_typing_def line_simps send_fits)

lemma server_hears_line:
  assumes "server_at s = Listening" "buffered (to_server s) = line_buf l" "fits l" "LINE_MAX \<le> k"
  shows "server_step k killed s = Inr (s\<lparr>to_server := (to_server s)\<lparr>buffered := []\<rparr>,
    server_sees := server_sees s @ ''From client: '' @ ended l @ CHR 0x09 # '' To client : '', server_at := Typing\<rparr>)"
  using assms by (simp add: server_step_def server_listening_def recv_whole line_simps)

lemma server_types_line:
  assumes "server_at s = Typing" "server_types s = ended l @ r" "fits l"
    and "buffered (to_client s) = []" "0 < writers (to_server s)"
  shows "server_step k killed s =
    Inr (if leaving l
         then s\<lparr>server_types := r, to_client := hang_up ((to_client s)\<lparr>buffered := line_buf l\<rparr>),
                server_sees := server_sees s @ ''Server Exit...'' @ [NEWLINE], server_at := Gone\<rparr>
         else s\<lparr>server_types := r, to_client := (to_client s)\<lparr>buffered := line_buf l\<rparr>, server_at := Listening\<rparr>)"
proof -
  have "4 \<le> length (line_buf l)" using assms(3) by (simp add: length_line_buf LINE_MAX_def)
  then have cmp: "strncmp_eq 4 (''exit'' @ [NUL]) (line_buf l) = Inr (leaving l)"
    by (simp only: strncmp_exit leaving_line)
  show ?thesis
    using assms unfolding server_step_def server_typing_def
    by (simp add: getchars_fits send_fits cmp del: append.simps)
qed

lemma client_hears_line:
  assumes "client_at s = Listening" "buffered (to_client s) = line_buf l" "fits l" "LINE_MAX \<le> k"
  shows "client_step k killed s =
    Inr (if leaving l
         then s\<lparr>to_client := (to_client s)\<lparr>buffered := []\<rparr>, to_server := hang_up (to_server s),
                client_sees := client_sees s @ ''From Server : '' @ ended l @ ''Client Exit...'' @ [NEWLINE],
                client_at := Gone\<rparr>
         else s\<lparr>to_client := (to_client s)\<lparr>buffered := []\<rparr>,
                client_sees := client_sees s @ ''From Server : '' @ ended l, client_at := Typing\<rparr>)"
proof -
  have "4 \<le> length (line_buf l)" using assms(3) by (simp add: length_line_buf LINE_MAX_def)
  then have cmp: "strncmp_eq 4 (line_buf l) (''exit'' @ [NUL]) = Inr (leaving l)"
    by (simp only: strncmp_exit leaving_line)
  show ?thesis
    using assms unfolding client_step_def client_listening_def
    by (simp add: recv_whole length_line_buf format_fits cmp Let_def del: append.simps)
qed

section \<open>A chat whose reads are whole\<close>

text \<open>
  What is typed is a list of lines for each side; the first line of the server that leaves
  is its line number \<open>j\<close>, and the client has a line for every line up to it.
\<close>

definition script_ok :: "bytes list \<Rightarrow> bytes list \<Rightarrow> nat \<Rightarrow> bool" where
  "script_ok cl sl j \<longleftrightarrow> (\<forall>l \<in> set cl \<union> set sl. fits l) \<and> j < length cl \<and> j < length sl \<and>
     leaving (sl ! j) \<and> (\<forall>i < j. \<not> leaving (sl ! i))"

definition script :: "bytes list \<Rightarrow> bytes" where
  "script ls = concat (map ended ls)"

text \<open>What the terminals show when the lines \<open>ls\<close> of the other side have arrived.\<close>

definition client_shows :: "bytes list \<Rightarrow> bytes" where
  "client_shows ls = concat (map (\<lambda>l. ''Enter the string : '' @ ''From Server : '' @ ended l) ls)"

definition server_shows :: "bytes list \<Rightarrow> bytes" where
  "server_shows ls = concat (map (\<lambda>l. ''From client: '' @ ended l @ CHR 0x09 # '' To client : '') ls)"

definition line_of :: "bytes \<Rightarrow> kpipe" where
  "line_of b = \<lparr>buffered = b, writers = 1\<rparr>"

text \<open>The states of round \<open>i\<close>, one after each move, and the two in which the chat ends.\<close>

definition round_begins :: "bytes list \<Rightarrow> bytes list \<Rightarrow> nat \<Rightarrow> chat" where
  "round_begins cl sl i =
     \<lparr>to_server = line_of [], to_client = line_of [], client_at = Typing, server_at = Listening,
      client_types = script (drop i cl), server_types = script (drop i sl),
      client_sees = client_shows (take i sl), server_sees = server_shows (take i cl)\<rparr>"

definition client_has_sent :: "bytes list \<Rightarrow> bytes list \<Rightarrow> nat \<Rightarrow> chat" where
  "client_has_sent cl sl i = (round_begins cl sl i)
     \<lparr>to_server := line_of (line_buf (cl ! i)), client_at := Listening, client_types := script (drop (i + 1) cl),
      client_sees := client_shows (take i sl) @ ''Enter the string : ''\<rparr>"

definition server_has_read :: "bytes list \<Rightarrow> bytes list \<Rightarrow> nat \<Rightarrow> chat" where
  "server_has_read cl sl i = (client_has_sent cl sl i)
     \<lparr>to_server := line_of [], server_at := Typing, server_sees := server_shows (take (i + 1) cl)\<rparr>"

definition server_has_sent :: "bytes list \<Rightarrow> bytes list \<Rightarrow> nat \<Rightarrow> chat" where
  "server_has_sent cl sl i = (server_has_read cl sl i)
     \<lparr>to_client := line_of (line_buf (sl ! i)), server_at := Listening, server_types := script (drop (i + 1) sl)\<rparr>"

definition server_has_left :: "bytes list \<Rightarrow> bytes list \<Rightarrow> nat \<Rightarrow> chat" where
  "server_has_left cl sl j = (server_has_read cl sl j)
     \<lparr>to_client := hang_up (line_of (line_buf (sl ! j))), server_at := Gone,
      server_types := script (drop (j + 1) sl),
      server_sees := server_shows (take (j + 1) cl) @ ''Server Exit...'' @ [NEWLINE]\<rparr>"

definition both_left :: "bytes list \<Rightarrow> bytes list \<Rightarrow> nat \<Rightarrow> chat" where
  "both_left cl sl j = (server_has_left cl sl j)
     \<lparr>to_client := hang_up (line_of []), to_server := hang_up (line_of []), client_at := Gone,
      client_sees := client_shows (take (j + 1) sl) @ ''Client Exit...'' @ [NEWLINE]\<rparr>"

lemmas round_defs = round_begins_def client_has_sent_def server_has_read_def server_has_sent_def
  server_has_left_def both_left_def line_of_def hang_up_def

definition chat_after :: "bytes list \<Rightarrow> bytes list \<Rightarrow> nat \<Rightarrow> nat \<Rightarrow> chat" where
  "chat_after cl sl j n =
     (let i = n div 4; p = n mod 4
      in if p = 0 then (if i \<le> j then round_begins cl sl i else both_left cl sl j)
         else if p = 1 then client_has_sent cl sl i
         else if p = 2 then server_has_read cl sl i
         else if i < j then server_has_sent cl sl i else server_has_left cl sl j)"

text \<open>Exactly one state can follow.\<close>

definition forced :: "chat \<Rightarrow> chat \<Rightarrow> bool" where
  "forced s t \<longleftrightarrow> (\<forall>u. chat_step True s u \<longleftrightarrow> u = t)"

lemma forced_client:
  assumes "\<And>k killed. LINE_MAX \<le> k \<Longrightarrow> client_step k killed s = Inr t"
    and "\<And>k killed. server_step k killed s = Inl Blocked"
  shows "forced s t"
proof -
  have "chat_step True s t"
    using assms(1) [of LINE_MAX] by (intro chat_step.client) (auto simp: LINE_MAX_def)
  then show ?thesis using assms by (auto simp: forced_def elim!: chat_stepE)
qed

lemma forced_server:
  assumes "\<And>k killed. LINE_MAX \<le> k \<Longrightarrow> server_step k killed s = Inr t"
    and "\<And>k killed. client_step k killed s = Inl Blocked"
  shows "forced s t"
proof -
  have "chat_step True s t"
    using assms(1) [of LINE_MAX] by (intro chat_step.server) (auto simp: LINE_MAX_def)
  then show ?thesis using assms by (auto simp: forced_def elim!: chat_stepE)
qed

lemma client_waits:
  "client_at s = Listening \<Longrightarrow> buffered (to_client s) = [] \<Longrightarrow> 0 < writers (to_client s) \<Longrightarrow>
   client_step k killed s = Inl Blocked"
  by (simp add: client_step_def client_listening_def recv_waits)

lemma server_waits:
  "server_at s = Listening \<Longrightarrow> buffered (to_server s) = [] \<Longrightarrow> 0 < writers (to_server s) \<Longrightarrow>
   server_step k killed s = Inl Blocked"
  by (simp add: server_step_def server_listening_def recv_waits)

lemma gone_waits:
  "server_at s = Gone \<Longrightarrow> server_step k killed s = Inl Blocked"
  "client_at s = Gone \<Longrightarrow> client_step k killed s = Inl Blocked"
  by (simp_all add: server_step_def client_step_def)

lemma script_next: "i < length ls \<Longrightarrow> script (drop i ls) = ended (ls ! i) @ script (drop (Suc i) ls)"
  by (simp add: script_def Cons_nth_drop_Suc [symmetric])

lemma shows_next:
  "i < length ls \<Longrightarrow> client_shows (take (Suc i) ls) =
     client_shows (take i ls) @ ''Enter the string : '' @ ''From Server : '' @ ended (ls ! i)"
  "i < length ls \<Longrightarrow> server_shows (take (Suc i) ls) =
     server_shows (take i ls) @ ''From client: '' @ ended (ls ! i) @ CHR 0x09 # '' To client : ''"
  by (simp_all add: client_shows_def server_shows_def take_Suc_conv_app_nth)

lemma round_moves:
  assumes "script_ok cl sl j" "i \<le> j"
  shows "forced (round_begins cl sl i) (client_has_sent cl sl i)"
    and "forced (client_has_sent cl sl i) (server_has_read cl sl i)"
    and "i < j \<Longrightarrow> forced (server_has_read cl sl i) (server_has_sent cl sl i)"
    and "i < j \<Longrightarrow> forced (server_has_sent cl sl i) (round_begins cl sl (i + 1))"
    and "forced (server_has_read cl sl j) (server_has_left cl sl j)"
    and "forced (server_has_left cl sl j) (both_left cl sl j)"
    and "\<not> chat_step True (both_left cl sl j) u"
proof -
  have i: "i < length cl" "i < length sl" and j: "j < length cl" "j < length sl"
    using assms by (auto simp: script_ok_def)
  then have ok: "fits (cl ! i)" "fits (sl ! i)" "fits (sl ! j)" and l: "leaving (sl ! j)"
    using assms by (auto simp: script_ok_def)
  have n: "i < j \<Longrightarrow> \<not> leaving (sl ! i)" using assms by (auto simp: script_ok_def)
  show "forced (round_begins cl sl i) (client_has_sent cl sl i)"
    by (rule forced_client)
      (simp_all add: round_defs client_types_line [OF _ _ ok(1)] server_waits script_next [OF i(1)])
  show "forced (client_has_sent cl sl i) (server_has_read cl sl i)"
    by (rule forced_server)
      (simp_all add: round_defs server_hears_line [OF _ _ ok(1)] client_waits shows_next [OF i(1)])
  show "i < j \<Longrightarrow> forced (server_has_read cl sl i) (server_has_sent cl sl i)"
    by (rule forced_server)
      (simp_all add: round_defs server_types_line [OF _ _ ok(2)] client_waits script_next [OF i(2)] n)
  show "i < j \<Longrightarrow> forced (server_has_sent cl sl i) (round_begins cl sl (i + 1))"
    by (rule forced_client)
      (simp_all add: round_defs client_hears_line [OF _ _ ok(2)] server_waits shows_next [OF i(2)] n)
  show "forced (server_has_read cl sl j) (server_has_left cl sl j)"
    by (rule forced_server)
      (simp_all add: round_defs server_types_line [OF _ _ ok(3)] client_waits script_next [OF j(2)] l)
  show "forced (server_has_left cl sl j) (both_left cl sl j)"
    by (rule forced_client)
      (simp_all add: round_defs client_hears_line [OF _ _ ok(3)] gone_waits shows_next [OF j(2)] l)
  show "\<not> chat_step True (both_left cl sl j) u"
    by (auto simp: round_defs gone_waits elim!: chat_stepE)
qed

lemma chat_after_at:
  "q < 4 \<Longrightarrow> chat_after cl sl j (4 * i + q) =
     (if q = 0 then (if i \<le> j then round_begins cl sl i else both_left cl sl j)
      else if q = 1 then client_has_sent cl sl i
      else if q = 2 then server_has_read cl sl i
      else if i < j then server_has_sent cl sl i else server_has_left cl sl j)"
  by (simp add: chat_after_def Let_def)

lemma chat_forced:
  assumes "script_ok cl sl j" "n < 4 * (j + 1)"
  shows "forced (chat_after cl sl j n) (chat_after cl sl j (Suc n))"
proof -
  define i p where "i = n div 4" and "p = n mod 4"
  have n: "n = 4 * i + p" "p < 4" "i \<le> j" using assms(2) by (auto simp: i_def p_def)
  note m = round_moves [OF assms(1) n(3)]
  consider "p = 0" | "p = 1" | "p = 2" | "p = 3" using n(2) by linarith
  then show ?thesis
  proof cases
    case 1
    then show ?thesis
      using m(1) n chat_after_at [of 0 cl sl j i] chat_after_at [of 1 cl sl j i] by simp
  next
    case 2
    then show ?thesis
      using m(2) n chat_after_at [of 1 cl sl j i] chat_after_at [of 2 cl sl j i] by (simp add: eval_nat_numeral)
  next
    case 3
    then show ?thesis
      using m(3,5) n chat_after_at [of 2 cl sl j i] chat_after_at [of 3 cl sl j i]
      by (cases "i < j") (simp_all add: eval_nat_numeral)
  next
    case 4
    then show ?thesis
      using m(4,6) n chat_after_at [of 3 cl sl j i] chat_after_at [of 0 cl sl j "i + 1"]
      by (cases "i < j") (simp_all add: eval_nat_numeral)
  qed
qed

lemma chat_run:
  assumes "script_ok cl sl j" "(chat_step True ^^ n) (chat_after cl sl j 0) s"
  shows "n \<le> 4 * (j + 1) \<and> s = chat_after cl sl j n"
  using assms(2)
proof (induction n arbitrary: s)
  case (Suc n)
  then obtain u where u: "n \<le> 4 * (j + 1)" "chat_step True (chat_after cl sl j n) s" by auto
  have "chat_after cl sl j (4 * (j + 1)) = both_left cl sl j" by (simp add: chat_after_def)
  then have "n \<noteq> 4 * (j + 1)" using u(2) round_moves(7) [OF assms(1) order_refl] by metis
  then have n: "n < 4 * (j + 1)" using u(1) by simp
  from chat_forced [OF assms(1) n] u(2) have "s = chat_after cl sl j (Suc n)" by (simp add: forced_def)
  with n show ?case by simp
qed simp

lemma chat_start_round: "chat_after cl sl j 0 = chat_start (script cl) (script sl)"
  by (simp add: chat_after_def round_begins_def chat_start_def line_of_def client_shows_def server_shows_def)

section \<open>An exit that arrives in pieces\<close>

text \<open>The server has left, and no \<open>exit\<close> will be at the front of what the client still reads.\<close>

definition missed :: "chat \<Rightarrow> bool" where
  "missed s \<longleftrightarrow> server_at s = Gone \<and> client_at s \<noteq> Gone \<and> writers (to_client s) = 0 \<and>
     CHR ''e'' \<notin> set (buffered (to_client s))"

lemma recv_line_cases:
  assumes "recv_line k ch = Inr (buff, ch')"
  shows "\<exists>xs. pipe_read ch (min LINE_MAX k) = Some (xs, ch') \<and> buff = xs @ replicate (LINE_MAX - length xs) NUL
    \<and> length buff = LINE_MAX"
proof -
  obtain xs where xs: "pipe_read ch (min LINE_MAX k) = Some (xs, ch')"
    and b: "poke (replicate LINE_MAX NUL) 0 xs = Inr buff"
    using assms by (auto simp: recv_line_def bindS_eq_Inr_iff split: option.splits)
  have "length xs \<le> LINE_MAX" using pipe.read_length [OF xs] by simp
  then show ?thesis using xs b by (auto simp: poke_Inr)
qed

lemma not_leaving: "CHR ''e'' \<notin> set b \<Longrightarrow> \<not> leaving b"
proof
  assume b: "CHR ''e'' \<notin> set b" "leaving b"
  then have "CHR ''e'' \<in> set (take 4 b)" by (simp add: leaving_def)
  with b(1) show False by (meson in_set_takeD)
qed

lemma client_goes_on:
  assumes "client_listening k s = Inr t" "recv_line k (to_client s) = Inr (buff, ch)" "\<not> leaving buff"
  shows "client_at t = Typing \<and> server_at t = server_at s \<and> to_client t = ch"
proof -
  have "4 \<le> length buff" using recv_line_cases [OF assms(2)] by (auto simp: LINE_MAX_def)
  then have "strncmp_eq 4 buff (lit ''exit'') = Inr False" using assms(3) by (simp only: strncmp_exit)
  then show ?thesis
    using assms(1) unfolding client_listening_def assms(2) by (auto simp: bindS_eq_Inr_iff)
qed

lemma missed_client:
  assumes "missed s" "client_step k killed s = Inr t"
  shows "missed t"
proof (cases "client_at s")
  case Typing
  then show ?thesis
    using assms by (auto simp: missed_def client_step_def client_typing_def bindS_eq_Inr_iff)
next
  case Listening
  then have cl: "client_listening k s = Inr t" using assms(2) by (simp add: client_step_def)
  then obtain buff ch where r: "recv_line k (to_client s) = Inr (buff, ch)"
    by (auto simp: client_listening_def bindS_eq_Inr_iff)
  obtain xs where xs: "pipe_read (to_client s) (min LINE_MAX k) = Some (xs, ch)"
    and b: "buff = xs @ replicate (LINE_MAX - length xs) NUL"
    using recv_line_cases [OF r] by blast
  have cut: "buffered (to_client s) = xs @ buffered ch" "writers ch = writers (to_client s)"
    using pipe.read_content [OF xs] pipe_writers(2) [OF xs] by blast+
  have "\<not> leaving buff" using assms(1) cut(1) b by (intro not_leaving) (auto simp: missed_def)
  from client_goes_on [OF cl r this] show ?thesis using assms(1) cut by (auto simp: missed_def)
qed (use assms in \<open>simp_all add: client_step_def\<close>)

lemma missed_step:
  assumes "missed s" "chat_step whole s t"
  shows "missed t"
  using assms(2)
proof (cases rule: chat_step.cases)
  case (client k killed)
  then show ?thesis using missed_client [OF assms(1)] by blast
qed (use assms(1) in \<open>simp_all add: missed_def gone_waits\<close>)

interpretation missing: trans_inv missed "chat_step whole" missed for whole
  using missed_step by unfold_locales blast+

lemma hears_piece:
  assumes "client_at s = Listening" "buffered (to_client s) = line_buf ''exit''"
  shows "client_step 3 killed s = Inr (s\<lparr>to_client := (to_client s)\<lparr>buffered := drop 3 (line_buf ''exit'')\<rparr>,
    client_sees := client_sees s @ ''From Server : '' @ ''exi'', client_at := Typing\<rparr>)"
proof -
  have t: "take 3 (line_buf ''exit'') = ''exi''" "line_buf ''exit'' \<noteq> []"
    by (simp_all add: line_buf_def ended_def)
  then have "recv_line 3 (to_client s) = Inr (''exi'' @ NUL # replicate 76 NUL,
      (to_client s)\<lparr>buffered := drop 3 (line_buf ''exit'')\<rparr>)"
    using assms(2) by (simp add: recv_line_def pipe_read_def poke_def LINE_MAX_def flip: replicate_Suc)
  moreover have "format_s (''exi'' @ NUL # replicate 76 NUL) = Inr ''exi''"
    by (simp add: format_s_def strlen_terminated del: append.simps)
  moreover have "strncmp_eq 4 (''exi'' @ NUL # replicate 76 NUL) (lit ''exit'') = Inr False"
    by (simp add: eval_nat_numeral)
  ultimately show ?thesis
    using assms(1) by (simp add: client_step_def client_listening_def Let_def del: append.simps)
qed

section \<open>Properties\<close>

text \<open>
  C36. When every \<open>read\<close> is whole, a chat whose lines fit and whose server line \<open>j\<close> is the first
  to leave takes exactly \<open>4 * (j + 1)\<close> moves, no schedule gets stuck before, and then both
  have left and each terminal shows the lines of the other side up to that one.
\<close>

theorem chat_follows_script:
  assumes "script_ok cl sl j" "(chat_step True ^^ n) (chat_start (script cl) (script sl)) s"
  shows "n \<le> 4 * (j + 1) \<and> (n < 4 * (j + 1) \<longrightarrow> (\<exists>t. chat_step True s t)) \<and>
    (n = 4 * (j + 1) \<longrightarrow> client_at s = Gone \<and> server_at s = Gone \<and>
       client_sees s = client_shows (take (j + 1) sl) @ ''Client Exit...'' @ [NEWLINE] \<and>
       server_sees s = server_shows (take (j + 1) cl) @ ''Server Exit...'' @ [NEWLINE])"
proof -
  have run: "n \<le> 4 * (j + 1)" "s = chat_after cl sl j n"
    using chat_run [OF assms(1), of n s] assms(2) chat_start_round by simp_all
  have "\<exists>t. chat_step True s t" if "n < 4 * (j + 1)"
    using chat_forced [OF assms(1) that] run(2) by (auto simp: forced_def)
  moreover have "s = both_left cl sl j" if "n = 4 * (j + 1)"
    using that run(2) by (simp add: chat_after_def)
  ultimately show ?thesis using run(1) by (simp add: both_left_def server_has_left_def)
qed

theorem chat_follows_script_witness:
  "\<exists>t. chat_step True (chat_start (script [''hello'', ''bye'']) (script [''hi'', ''exit''])) t"
proof -
  have "script_ok [''hello'', ''bye''] [''hi'', ''exit''] 1"
    by (simp add: script_ok_def fits_def leaving_def LINE_MAX_def)
  from chat_follows_script [OF this, of 0 "chat_start (script [''hello'', ''bye'']) (script [''hi'', ''exit''])"]
  show ?thesis by simp
qed

text \<open>
  When a \<open>read\<close> may deliver less, the client can miss the end of the chat: there is a
  run in which the server leaves, the client is shown a piece of \<open>exit\<close> and goes on, and
  from then on it never leaves.
\<close>

theorem chat_exit_can_be_missed:
  assumes "fits l"
  shows "\<exists>t. (chat_step False)\<^sup>*\<^sup>* (chat_start (ended l @ r) (ended ''exit'' @ q)) t \<and>
    server_at t = Gone \<and> client_at t = Typing \<and>
    (\<forall>u. (chat_step False)\<^sup>*\<^sup>* t u \<longrightarrow> client_at u \<noteq> Gone)"
proof -
  let ?s0 = "chat_start (ended l @ r) (ended ''exit'' @ q)"
  have e: "fits ''exit''" "leaving ''exit''" by (simp_all add: fits_def leaving_def LINE_MAX_def)
  define s1 where "s1 = ?s0\<lparr>client_sees := client_sees ?s0 @ ''Enter the string : '',
    client_types := r, to_server := (to_server ?s0)\<lparr>buffered := line_buf l\<rparr>, client_at := Listening\<rparr>"
  define s2 where "s2 = s1\<lparr>to_server := (to_server s1)\<lparr>buffered := []\<rparr>,
    server_sees := server_sees s1 @ ''From client: '' @ ended l @ CHR 0x09 # '' To client : '', server_at := Typing\<rparr>"
  define s3 where "s3 = s2\<lparr>server_types := q, to_client := hang_up ((to_client s2)\<lparr>buffered := line_buf ''exit''\<rparr>),
    server_sees := server_sees s2 @ ''Server Exit...'' @ [NEWLINE], server_at := Gone\<rparr>"
  define s4 where "s4 = s3\<lparr>to_client := (to_client s3)\<lparr>buffered := drop 3 (line_buf ''exit'')\<rparr>,
    client_sees := client_sees s3 @ ''From Server : '' @ ''exi'', client_at := Typing\<rparr>"
  have "client_step 80 False ?s0 = Inr s1"
    unfolding s1_def by (rule client_types_line) (simp_all add: chat_start_def assms)
  then have 1: "chat_step False ?s0 s1" by (rule chat_step.client [rotated 2]) simp_all
  have "server_step 80 False s1 = Inr s2"
    unfolding s2_def by (rule server_hears_line) (simp_all add: s1_def chat_start_def assms LINE_MAX_def)
  then have 2: "chat_step False s1 s2" by (rule chat_step.server [rotated 2]) simp_all
  have "server_step 80 False s2 = Inr s3"
    using server_types_line [of s2 "''exit''" q 80 False] e
    by (simp add: s3_def s2_def s1_def chat_start_def)
  then have 3: "chat_step False s2 s3" by (rule chat_step.server [rotated 2]) simp_all
  have "client_step 3 False s3 = Inr s4"
    unfolding s4_def by (rule hears_piece) (simp_all add: s3_def s2_def s1_def chat_start_def hang_up_def)
  then have 4: "chat_step False s3 s4" by (rule chat_step.client [rotated 2]) simp_all
  have "(chat_step False)\<^sup>*\<^sup>* ?s0 s4"
    using 1 2 3 4 by (meson rtranclp.rtrancl_refl rtranclp.rtrancl_into_rtrancl)
  moreover have m: "missed s4"
    by (auto simp: missed_def s4_def s3_def s2_def s1_def hang_up_def line_buf_def ended_def)
  have "client_at u \<noteq> Gone" if "(chat_step False)\<^sup>*\<^sup>* s4 u" for u
    using missing.steps_inv [OF that m] by (simp add: missed_def)
  moreover have "server_at s4 = Gone" "client_at s4 = Typing" by (simp_all add: s4_def s3_def)
  ultimately show ?thesis by blast
qed

theorem chat_exit_can_be_missed_witness:
  "\<exists>t. (chat_step False)\<^sup>*\<^sup>* (chat_start (ended ''hello'') (ended ''exit'')) t \<and>
    server_at t = Gone \<and> client_at t = Typing"
proof -
  have "fits ''hello''" by (simp add: fits_def LINE_MAX_def)
  from chat_exit_can_be_missed [OF this, of "[]" "[]"] show ?thesis by auto
qed

text \<open>
  The loop around \<open>getchar\<close>: what is typed up to the first newline is stored when the
  newline is among the first eighty characters; else, and at the end of the input, the
  loop runs over the end of the buffer.
\<close>

theorem getchars_whole_line:
  "getchars (replicate LINE_MAX NUL) 0 typed =
     (let l = takeWhile (\<lambda>c. c \<noteq> NEWLINE) typed
      in if NEWLINE \<in> set (take LINE_MAX typed)
         then Inr (l @ NEWLINE # replicate (LINE_MAX - length l - 1) NUL, drop (length l + 1) typed)
         else Inl OutOfBounds)"
proof (cases "NEWLINE \<in> set (take LINE_MAX typed)")
  case True
  let ?l = "takeWhile (\<lambda>c. c \<noteq> NEWLINE) typed"
  obtain a r where t: "typed = a @ NEWLINE # r" "NEWLINE \<notin> set a"
    using True by (meson in_set_takeD split_list_first)
  then have l: "?l = a" unfolding t(1) by (subst takeWhile_append2) auto
  have "length a < LINE_MAX"
  proof (rule ccontr)
    assume "\<not> length a < LINE_MAX"
    then have "take LINE_MAX typed = take LINE_MAX a" using t(1) by simp
    with True t(2) show False by (metis in_set_takeD)
  qed
  then have "getchars (replicate LINE_MAX NUL) 0 (a @ NEWLINE # r) =
      Inr (a @ NEWLINE # replicate (LINE_MAX - length a - 1) NUL, r)"
    using getchars_line [OF t(2), of 0 "replicate LINE_MAX NUL" r] by (simp add: diff_diff_left)
  then show ?thesis using True l t(1) by (simp add: Let_def)
next
  case False
  then show ?thesis using getchars_runs_over [of "replicate LINE_MAX NUL" 0 typed] by (simp add: Let_def)
qed

end
