(* ===== verification/EchoServer.thy ===== *)
theory EchoServer
  imports Kernel Decimal
begin

text \<open>
  The echo server with a thread per client, \<open>task_8/examples/Myserver.c\<close>, and its client
  \<open>Mytcp_client.c\<close>: what a thread answers, which connection it serves, and what the client
  shows of an answer.
\<close>

section \<open>A thread of the server\<close>

definition MAX_SZ :: nat where
  "MAX_SZ = 4096"

text \<open>
  One round of \<open>f\<close>: \<open>r\<close> is what \<open>read\<close> delivers, \<open>None\<close> for -1.  The result is the buffer, the
  line on the terminal and the bytes that are sent back.  \<open>buf[num_read]\<close> is stored
  whatever \<open>num_read\<close> is.
\<close>

definition serve :: "int \<Rightarrow> bytes \<Rightarrow> bytes option \<Rightarrow> (bytes \<times> bytes \<times> bytes) result" where
  "serve confd buf r =
     bindS (poke buf 0 [NUL]) (\<lambda>b0.
     case r of
       None \<Rightarrow> Inl OutOfBounds
     | Some xs \<Rightarrow>
         bindS (poke b0 0 xs) (\<lambda>b1.
         bindS (poke b1 (length xs) [NUL]) (\<lambda>b2.
         bindS (format_s b2) (\<lambda>s.
           Inr (b2, ''From client '' @ show_int confd @ '': '' @ s @ [CHR 0x0A], s)))))"

text \<open>The endless loop on the reads \<open>rs\<close>: everything shown and everything sent.\<close>

fun serve_all :: "int \<Rightarrow> bytes \<Rightarrow> bytes option list \<Rightarrow> (bytes \<times> bytes) result" where
  "serve_all confd buf [] = Inr ([], [])"
| "serve_all confd buf (r # rs) =
     bindS (serve confd buf r) (\<lambda>(buf', shown, sent).
     bindS (serve_all confd buf' rs) (\<lambda>(more_shown, more_sent). Inr (shown @ more_shown, sent @ more_sent)))"

section \<open>Connections and threads\<close>

text \<open>
  \<open>args\<close> is one array on the stack of \<open>main\<close>, in the same place in each round; a thread
  gets its address and reads \<open>args[0]\<close> when it comes to run.  \<open>starting\<close> threads have been
  created and have not read it; \<open>serving\<close> holds what the others have read, in this order.
\<close>

record accepting =
  arrivals :: "int list"
  args :: "int \<times> int"
  number_of_clients :: int
  starting :: nat
  serving :: "int list"

inductive accept_step :: "accepting \<Rightarrow> accepting \<Rightarrow> bool" where
  accept: "arrivals s = connfd # cs \<Longrightarrow>
     accept_step s (s\<lparr>arrivals := cs, number_of_clients := number_of_clients s + 1,
       args := (connfd, number_of_clients s + 1), starting := starting s + 1\<rparr>)"
| begin_thread: "starting s = Suc n \<Longrightarrow>
     accept_step s (s\<lparr>starting := n, serving := serving s @ [fst (args s)]\<rparr>)"

definition accept_start :: "int list \<Rightarrow> accepting" where
  "accept_start cs = \<lparr>arrivals = cs, args = (0, 0), number_of_clients = 0, starting = 0, serving = []\<rparr>"

text \<open>
  \<open>main\<close>: the return code, or the loop on the connections \<open>cs\<close> that \<open>accept\<close> will return; to
  call \<open>listen\<close> again in each round changes nothing.
\<close>

definition echo_main :: "int \<Rightarrow> int \<Rightarrow> int \<Rightarrow> int list \<Rightarrow> int + accepting" where
  "echo_main sockfd bound listens cs =
     (if sockfd = -1 \<or> bound \<noteq> 0 \<or> listens \<noteq> 0 then Inl 1 else Inr (accept_start cs))"

text \<open>Everybody has been accepted and every thread has begun.\<close>

definition all_begun :: "accepting \<Rightarrow> bool" where
  "all_begun s \<longleftrightarrow> arrivals s = [] \<and> starting s = 0"

section \<open>The client\<close>

text \<open>
  One round of \<open>f\<close>, \<open>xs\<close> being what \<open>read\<close> stores: the buffer, the rest of the input, what is
  sent and what is shown.  Nothing is stored behind the answer.
\<close>

definition ask :: "bytes \<Rightarrow> bytes \<Rightarrow> bytes \<Rightarrow> (bytes \<times> bytes \<times> bytes \<times> bytes) result" where
  "ask buf inp xs =
     bindS (poke buf 0 [NUL]) (\<lambda>b0.
     bindS (scan_to b0 inp) (\<lambda>(b1, rest).
     bindS (format_s b1) (\<lambda>sent.
     bindS (poke b1 0 [NUL]) (\<lambda>b2.
     bindS (poke b2 0 xs) (\<lambda>b3.
     bindS (format_s b3) (\<lambda>s.
       Inr (b3, rest, sent, ''Enter the message...'' @ [CHR 0x0A] @ s @ [CHR 0x0A])))))))"

section \<open>What is sent back\<close>

text \<open>The line on the terminal.\<close>

definition said :: "int \<Rightarrow> bytes \<Rightarrow> bytes" where
  "said confd s = ''From client '' @ show_int confd @ '': '' @ s @ [CHR 0x0A]"

lemma cstr_terminated: "cstr (xs @ NUL # ys) = cstr xs"
  by (cases "NUL \<in> set xs") (simp_all add: cstr_append_in)

lemma serve_some:
  assumes "length buf = MAX_SZ" "length xs < MAX_SZ"
  shows "\<exists>buf'. length buf' = MAX_SZ \<and> serve confd buf (Some xs) = Inr (buf', said confd (cstr xs), cstr xs)"
proof -
  obtain c b where b: "buf = c # b" using assms by (cases buf) auto
  define b2 where "b2 = xs @ NUL # drop (Suc (length xs)) (NUL # b)"
  have p: "poke buf 0 [NUL] = Inr (NUL # b)" by (simp add: b poke_def)
  have l: "length (NUL # b) = MAX_SZ" using assms(1) b by simp
  then have q: "poke (NUL # b) 0 xs = Inr (xs @ drop (length xs) (NUL # b))"
    using assms(2) by (simp add: poke_def)
  have r: "poke (xs @ drop (length xs) (NUL # b)) (length xs) [NUL] = Inr b2"
    using assms(2) l unfolding b2_def by (simp add: poke_def)
  have "NUL \<in> set b2" "cstr b2 = cstr xs" by (simp_all add: b2_def cstr_terminated)
  then have f: "format_s b2 = Inr (cstr xs)" by (simp add: format_s_text)
  have "length b2 = MAX_SZ" using assms(2) l by (simp add: b2_def)
  then show ?thesis by (auto simp: serve_def p q r f said_def)
qed

lemma serve_fails:
  "length buf = MAX_SZ \<Longrightarrow> serve confd buf None = Inl OutOfBounds"
  "length buf = MAX_SZ \<Longrightarrow> length xs = MAX_SZ \<Longrightarrow> serve confd buf (Some xs) = Inl OutOfBounds"
  by (simp_all add: serve_def poke_def MAX_SZ_def)

definition bad_read :: "bytes option \<Rightarrow> bool" where
  "bad_read r \<longleftrightarrow> (case r of None \<Rightarrow> True | Some xs \<Rightarrow> MAX_SZ \<le> length xs)"

lemma serve_all_echo:
  assumes "length buf = MAX_SZ" "\<forall>xs. Some xs \<in> set rs \<longrightarrow> length xs \<le> MAX_SZ"
  shows "serve_all confd buf rs =
    (if \<exists>r \<in> set rs. bad_read r then Inl OutOfBounds
     else Inr (concat (map (\<lambda>r. said confd (cstr (the r))) rs), concat (map (\<lambda>r. cstr (the r)) rs)))"
  using assms
proof (induction rs arbitrary: buf)
  case (Cons r rs)
  show ?case
  proof (cases "bad_read r")
    case True
    then have "serve confd buf r = Inl OutOfBounds"
      using Cons.prems by (cases r) (auto simp: bad_read_def intro!: serve_fails)
    then show ?thesis using True by simp
  next
    case False
    then obtain xs where r: "r = Some xs" "length xs < MAX_SZ" by (cases r) (auto simp: bad_read_def)
    then obtain buf' where "length buf' = MAX_SZ" "serve confd buf r = Inr (buf', said confd (cstr xs), cstr xs)"
      using serve_some [OF Cons.prems(1), of xs confd] by blast
    then show ?thesis using Cons.IH [of buf'] Cons.prems(2) False r by auto
  qed
qed simp

section \<open>Who is served\<close>

text \<open>After \<open>a\<close> connections, with \<open>ds\<close> the descriptors that threads have read so far.\<close>

definition accepted :: "int list \<Rightarrow> nat \<Rightarrow> int list \<Rightarrow> accepting \<Rightarrow> bool" where
  "accepted cs a ds s \<longleftrightarrow> a \<le> length cs \<and> arrivals s = drop a cs \<and> starting s + length ds = a \<and>
     serving s = ds \<and> (0 < a \<longrightarrow> fst (args s) = cs ! (a - 1))"

text \<open>Thread \<open>k\<close> reads a connection that came as number \<open>k\<close> or later, never an earlier one than the last.\<close>

definition late_reads :: "nat \<Rightarrow> nat \<Rightarrow> nat list \<Rightarrow> bool" where
  "late_reads n a idx \<longleftrightarrow> length idx = n \<and> sorted idx \<and> (\<forall>k < n. k \<le> idx ! k \<and> idx ! k < a)"

definition accept_inv :: "int list \<Rightarrow> accepting \<Rightarrow> bool" where
  "accept_inv cs s \<longleftrightarrow> (\<exists>a idx. accepted cs a (map ((!) cs) idx) s \<and> late_reads (length idx) a idx)"

definition accept_rank :: "accepting \<Rightarrow> nat" where
  "accept_rank s = 2 * length (arrivals s) + starting s"

lemma late_reads_snoc:
  "late_reads n a idx \<Longrightarrow> n < a \<Longrightarrow> late_reads (Suc n) a (idx @ [a - 1])"
  by (fastforce simp: late_reads_def sorted_append nth_append in_set_conv_nth less_Suc_eq)

lemma late_reads_more: "late_reads n a idx \<Longrightarrow> late_reads n (Suc a) idx"
  by (fastforce simp: late_reads_def)

lemma accepted_accept:
  assumes "accepted cs a ds s" "arrivals s = c # r"
  shows "accepted cs (Suc a) ds (s\<lparr>arrivals := r, number_of_clients := m, args := (c, m), starting := starting s + 1\<rparr>)"
proof -
  have d: "drop a cs = c # r" using assms by (simp add: accepted_def)
  then have "a < length cs" by (metis drop_all leI list.distinct(1))
  moreover from this have "cs ! a = c" "drop (Suc a) cs = r"
    using d Cons_nth_drop_Suc [of a cs] by simp_all
  ultimately show ?thesis using assms(1) by (simp add: accepted_def)
qed

lemma accepted_begin:
  assumes "accepted cs a ds s" "starting s = Suc n"
  shows "accepted cs a (ds @ [cs ! (a - 1)]) (s\<lparr>starting := n, serving := serving s @ [fst (args s)]\<rparr>)"
  using assms by (auto simp: accepted_def)

lemma accept_inv_step: "accept_step s t \<Longrightarrow> accept_inv cs s \<Longrightarrow> accept_inv cs t"
proof (induction rule: accept_step.induct)
  case (accept s connfd r)
  then obtain a idx where i: "accepted cs a (map ((!) cs) idx) s" "late_reads (length idx) a idx"
    by (auto simp: accept_inv_def)
  with accept(1) show ?case
    unfolding accept_inv_def by (blast intro: accepted_accept late_reads_more)
next
  case (begin_thread s n)
  then obtain a idx where i: "accepted cs a (map ((!) cs) idx) s" "late_reads (length idx) a idx"
    by (auto simp: accept_inv_def)
  have "length idx < a" using i(1) begin_thread(1) by (simp add: accepted_def)
  then have "late_reads (length (idx @ [a - 1])) a (idx @ [a - 1])"
    using late_reads_snoc [OF i(2)] by simp
  moreover have "map ((!) cs) (idx @ [a - 1]) = map ((!) cs) idx @ [cs ! (a - 1)]" by simp
  ultimately show ?case
    unfolding accept_inv_def using accepted_begin [OF i(1) begin_thread(1)] by metis
qed

interpretation accepting_run: live_inv "\<lambda>s. s = accept_start cs" accept_step "accept_inv cs" all_begun
    accept_rank for cs
proof unfold_locales
  fix s t
  have "accepted cs 0 (map ((!) cs) []) (accept_start cs)" "late_reads (length []) 0 []"
    by (simp_all add: accepted_def accept_start_def late_reads_def)
  then show "s = accept_start cs \<Longrightarrow> accept_inv cs s" unfolding accept_inv_def by blast
  show "accept_inv cs s \<Longrightarrow> accept_step s t \<Longrightarrow> accept_inv cs t" using accept_inv_step by blast
  show "\<exists>t. accept_step s t" if "\<not> all_begun s"
  proof (cases "arrivals s")
    case Nil
    with that obtain n where "starting s = Suc n" by (auto simp: all_begun_def gr0_conv_Suc)
    then show ?thesis by (blast intro: accept_step.begin_thread)
  qed (blast intro: accept_step.accept)
  show "accept_step s t \<Longrightarrow> accept_rank t < accept_rank s"
    by (induction rule: accept_step.induct) (simp_all add: accept_rank_def)
qed

lemma accept_more:
  "accepted cs a ds s \<Longrightarrow> a + d \<le> length cs \<Longrightarrow> \<exists>t. accept_step\<^sup>*\<^sup>* s t \<and> accepted cs (a + d) ds t"
proof (induction d)
  case (Suc d)
  then obtain t where t: "accept_step\<^sup>*\<^sup>* s t" "accepted cs (a + d) ds t" by auto
  then have "arrivals t = cs ! (a + d) # drop (Suc (a + d)) cs"
    using Suc.prems(2) by (simp add: accepted_def Cons_nth_drop_Suc)
  from accept_step.accept [OF this] accepted_accept [OF t(2) this] t(1) show ?case
    by (metis add_Suc_right rtranclp.rtrancl_into_rtrancl)
qed auto

lemma reads_reached:
  assumes "late_reads (length cs) (length cs) idx"
  shows "k \<le> length cs \<Longrightarrow> \<exists>s a. accept_step\<^sup>*\<^sup>* (accept_start cs) s \<and>
    accepted cs a (map ((!) cs) (take k idx)) s \<and> a = (if k = 0 then 0 else Suc (idx ! (k - 1)))"
proof (induction k)
  case 0
  have "accepted cs 0 [] (accept_start cs)" by (simp add: accepted_def accept_start_def)
  then show ?case by auto
next
  case (Suc k)
  then obtain s a where s: "accept_step\<^sup>*\<^sup>* (accept_start cs) s" "accepted cs a (map ((!) cs) (take k idx)) s"
    and a: "a = (if k = 0 then 0 else Suc (idx ! (k - 1)))" by auto
  have idx: "length idx = length cs" "k \<le> idx ! k" "idx ! k < length cs" "sorted idx"
    using assms Suc.prems by (auto simp: late_reads_def)
  have "a \<le> Suc (idx ! k)"
    using a sorted_nth_mono [OF idx(4), of "k - 1" k] idx(1) Suc.prems by auto
  then obtain d where d: "Suc (idx ! k) = a + d" using le_Suc_ex by blast
  then obtain t where t: "accept_step\<^sup>*\<^sup>* s t" "accepted cs (Suc (idx ! k)) (map ((!) cs) (take k idx)) t"
    using accept_more [OF s(2), of d] idx(3) by auto
  then obtain n where n: "starting t = Suc n"
    using idx(1,2) Suc.prems by (cases "starting t") (auto simp: accepted_def)
  have "map ((!) cs) (take (Suc k) idx) = map ((!) cs) (take k idx) @ [cs ! (Suc (idx ! k) - 1)]"
    using idx(1) Suc.prems by (simp add: take_Suc_conv_app_nth)
  with accepted_begin [OF t(2) n] accept_step.begin_thread [OF n] t(1) s(1) show ?case
    by (metis (no_types, lifting) diff_Suc_1 nat.distinct(1) rtranclp.rtrancl_into_rtrancl rtranclp_trans)
qed

section \<open>Properties\<close>

text \<open>
  C37. Which connections the threads serve: exactly the sequences in which thread \<open>k\<close> serves
  a connection that came as number \<open>k\<close> or later and none serves an earlier one than the
  thread before it.  So a connection can have two threads and another one none.
\<close>

theorem threads_serve:
  "(\<exists>s. accept_step\<^sup>*\<^sup>* (accept_start cs) s \<and> all_begun s \<and> serving s = ds) \<longleftrightarrow>
   (\<exists>idx. late_reads (length cs) (length cs) idx \<and> ds = map ((!) cs) idx)"
proof
  assume "\<exists>s. accept_step\<^sup>*\<^sup>* (accept_start cs) s \<and> all_begun s \<and> serving s = ds"
  then obtain s where s: "accept_step\<^sup>*\<^sup>* (accept_start cs) s" "all_begun s" "serving s = ds" by blast
  then obtain a idx where i: "accepted cs a (map ((!) cs) idx) s" "late_reads (length idx) a idx"
    using accepting_run.reach_inv [OF refl s(1)] by (auto simp: accept_inv_def)
  then have "a = length cs" "length idx = length cs" "ds = map ((!) cs) idx"
    using s(2,3) by (auto simp: accepted_def all_begun_def)
  with i(2) show "\<exists>idx. late_reads (length cs) (length cs) idx \<and> ds = map ((!) cs) idx" by auto
next
  assume "\<exists>idx. late_reads (length cs) (length cs) idx \<and> ds = map ((!) cs) idx"
  then obtain idx where i: "late_reads (length cs) (length cs) idx" "ds = map ((!) cs) idx" by blast
  obtain s a where s: "accept_step\<^sup>*\<^sup>* (accept_start cs) s" "accepted cs a (map ((!) cs) (take (length cs) idx)) s"
    using reads_reached [OF i(1) order_refl] by blast
  have l: "take (length cs) idx = idx" "length idx = length cs" using i(1) by (simp_all add: late_reads_def)
  then have "a = length cs" using s(2) by (auto simp: accepted_def)
  then have "all_begun s" "serving s = ds" using s(2) l i(2) by (auto simp: accepted_def all_begun_def)
  with s(1) show "\<exists>s. accept_step\<^sup>*\<^sup>* (accept_start cs) s \<and> all_begun s \<and> serving s = ds" by blast
qed

text \<open>
  A thread echoes whatever way the stream of its client is cut into reads, each up to its
  first NUL byte; a read that fails or fills the buffer makes it write outside the buffer.
\<close>

theorem thread_echoes:
  assumes "length buf = MAX_SZ" "\<forall>xs. Some xs \<in> set rs \<longrightarrow> length xs \<le> MAX_SZ"
  shows "serve_all confd buf rs =
    (if \<exists>r \<in> set rs. bad_read r then Inl OutOfBounds
     else Inr (concat (map (\<lambda>r. said confd (cstr (the r))) rs), concat (map (\<lambda>r. cstr (the r)) rs)))"
  using assms by (rule serve_all_echo)

text \<open>
  The client shows the whole word it sent as soon as any part of the echo has arrived:
  the rest is what its own word left in the buffer.
\<close>

theorem client_shows_its_word:
  assumes "length buf = MAX_SZ" "w \<noteq> []" "length w < MAX_SZ" "NUL \<notin> set w" "\<forall>c \<in> set w. \<not> is_space c"
    and "rest = [] \<or> is_space (hd rest)" "0 < m"
  shows "ask buf (w @ rest) (take m w) = Inr (w @ NUL # drop (Suc (length w)) buf, rest, w,
    ''Enter the message...'' @ [CHR 0x0A] @ w @ [CHR 0x0A])"
proof -
  obtain c v where w: "w = c # v" using assms(2) by (cases w) auto
  obtain x b where b: "buf = x # b" using assms(1) by (cases buf) (auto simp: MAX_SZ_def)
  have sk: "skip_space (w @ rest) = w @ rest" using w assms(5) by (simp add: skip_space_def)
  have tk: "takeWhile (\<lambda>c. \<not> is_space c) (w @ rest) = w" "dropWhile (\<lambda>c. \<not> is_space c) (w @ rest) = rest"
    using assms(5,6) by (cases rest; simp)+
  let ?b1 = "w @ NUL # drop (Suc (length w)) buf"
  have "poke (NUL # b) 0 (lit w) = Inr ?b1"
    using assms(1,3) b by (simp add: poke_def)
  then have sc: "scan_to (NUL # b) (w @ rest) = Inr (?b1, rest)"
    unfolding scan_to_def sk tk using assms(2) by simp
  have f: "format_s ?b1 = Inr w" using assms(4) by (simp add: format_s_text)
  have p: "poke ?b1 0 [NUL] = Inr (NUL # v @ NUL # drop (Suc (length w)) buf)"
    by (simp add: w poke_def)
  have "length (take m w) \<le> length ?b1" by simp
  moreover have "take m w @ drop (length (take m w)) (NUL # v @ NUL # drop (Suc (length w)) buf) = ?b1"
    using assms(7) by (cases m) (auto simp: w min_def)
  ultimately have q: "poke (NUL # v @ NUL # drop (Suc (length w)) buf) 0 (take m w) = Inr ?b1"
    by (simp add: poke_def w)
  have "poke buf 0 [NUL] = Inr (NUL # b)" by (simp add: b poke_def)
  then show ?thesis unfolding ask_def by (simp add: sc f p q del: append.simps append_Cons)
qed

section \<open>The two mains together\<close>

text \<open>
  \<open>listening host port\<close> says where somebody accepts connections; the server binds its port on all
  addresses of its machine.
\<close>

definition SERVER_PORT :: nat where
  "SERVER_PORT = 8123"

definition CLIENT_PORT :: nat where
  "CLIENT_PORT = 8124"

definition CLIENT_HOST :: string where
  "CLIENT_HOST = ''192.168.166.193''"

definition echo_listens :: "(string \<Rightarrow> bool) \<Rightarrow> int + accepting \<Rightarrow> string \<Rightarrow> nat \<Rightarrow> bool" where
  "echo_listens own_host started host port =
     (case started of Inl _ \<Rightarrow> False | Inr _ \<Rightarrow> own_host host \<and> port = SERVER_PORT)"

definition connect :: "(string \<Rightarrow> nat \<Rightarrow> bool) \<Rightarrow> string \<Rightarrow> nat \<Rightarrow> int" where
  "connect listening host port = (if listening host port then 0 else - 1)"

text \<open>The rounds of \<open>f\<close> on the answers \<open>rs\<close>: everything sent and everything shown.\<close>

fun ask_all :: "bytes \<Rightarrow> bytes \<Rightarrow> bytes list \<Rightarrow> (bytes list \<times> bytes) result" where
  "ask_all buf inp [] = Inr ([], [])"
| "ask_all buf inp (r # rs) =
     bindS (ask buf inp r) (\<lambda>(buf', inp', sent, shown).
     bindS (ask_all buf' inp' rs) (\<lambda>(more_sent, more_shown). Inr (sent # more_sent, shown @ more_shown)))"

text \<open>\<open>main\<close> of the client: the status and what \<open>perror\<close> names, or what \<open>f\<close> does on these answers.\<close>

definition echo_client_main ::
  "int \<Rightarrow> (string \<Rightarrow> nat \<Rightarrow> bool) \<Rightarrow> bytes \<Rightarrow> bytes \<Rightarrow> bytes list \<Rightarrow> (int \<times> string) + (bytes list \<times> bytes) result" where
  "echo_client_main sockfd listening buf inp rs =
     (if sockfd = - 1 then Inl (1, ''Socket'')
      else if connect listening CLIENT_HOST CLIENT_PORT \<noteq> 0 then Inl (1, ''connect'')
      else Inr (bindS (ask_all buf inp rs) (\<lambda>(sent, shown).
        Inr (sent, ''Connection...'' @ [CHR 0x0A] @ shown))))"

text \<open>
  The client asks for a port that the server does not open: when nobody else listens there, every
  run of the client ends with status 1 before it has asked for a word, however the server was
  started.
\<close>

theorem client_never_meets_server:
  "\<exists>what. echo_client_main sockfd (echo_listens own_host (echo_main fd bound listens cs)) buf inp rs = Inl (1, what)"
  by (auto simp: echo_client_main_def connect_def echo_listens_def CLIENT_PORT_def SERVER_PORT_def split: sum.split)

text \<open>A blank in front of a word is skipped, so the line feed that one word leaves is no matter.\<close>

lemma ask_skips: "is_space c \<Longrightarrow> ask buf (c # inp) xs = ask buf inp xs"
  by (simp add: ask_def scan_to_def)

lemma line_feed_is_space: "is_space (CHR 0x0A)"
  by (simp add: is_space_def)

definition prompted :: "bytes \<Rightarrow> bytes" where
  "prompted w = ''Enter the message...'' @ [CHR 0x0A] @ w @ [CHR 0x0A]"

definition typed_word :: "bytes \<Rightarrow> bool" where
  "typed_word w \<longleftrightarrow> w \<noteq> [] \<and> length w < MAX_SZ \<and> NUL \<notin> set w \<and> (\<forall>c \<in> set w. \<not> is_space c)"

definition typed_lines :: "bytes list \<Rightarrow> bytes" where
  "typed_lines ws = concat (map (\<lambda>w. w @ [CHR 0x0A]) ws)"

text \<open>
  Connected to an echo, the client sends the words in the order in which they are typed, one to a
  line, and shows each of them as soon as any part of its echo has arrived.
\<close>

theorem client_session:
  assumes "length buf = MAX_SZ" "\<forall>w \<in> set ws. typed_word w" "length ms = length ws" "\<forall>m \<in> set ms. 0 < m"
    and "lead = [] \<or> lead = [CHR 0x0A]"
  shows "ask_all buf (lead @ typed_lines ws) (map2 take ms ws) = Inr (ws, concat (map prompted ws))"
  using assms
proof (induction ws arbitrary: ms buf lead)
  case (Cons w ws)
  then obtain m ms' where ms: "ms = m # ms'" by (cases ms) auto
  let ?rest = "CHR 0x0A # typed_lines ws" and ?b = "w @ NUL # drop (Suc (length w)) buf"
  have w: "w \<noteq> []" "length w < MAX_SZ" "NUL \<notin> set w" "\<forall>c \<in> set w. \<not> is_space c" "0 < m"
    using Cons.prems(2,4) by (simp_all add: typed_word_def ms)
  have "ask buf (lead @ w @ ?rest) (take m w) = ask buf (w @ ?rest) (take m w)"
    using Cons.prems(5) ask_skips [OF line_feed_is_space] by auto
  also have "\<dots> = Inr (?b, ?rest, w, prompted w)"
    unfolding prompted_def
    by (rule client_shows_its_word [OF Cons.prems(1) w(1-4) _ w(5)]) (simp add: line_feed_is_space)
  finally have a: "ask buf (lead @ w @ ?rest) (take m w) = Inr (?b, ?rest, w, prompted w)" .
  have "length ?b = MAX_SZ" using w(2) Cons.prems(1) by simp
  then have "ask_all ?b ([CHR 0x0A] @ typed_lines ws) (map2 take ms' ws) = Inr (ws, concat (map prompted ws))"
    using Cons.prems(2-4) by (intro Cons.IH) (simp_all add: ms)
  then show ?case using a by (simp add: ms typed_lines_def)
qed (simp add: typed_lines_def)

theorem client_session_witness:
  "ask_all (replicate MAX_SZ NUL) (typed_lines [''hi'', ''you'']) (map2 take [1, 3] [''hi'', ''you'']) =
    Inr ([''hi'', ''you''], concat (map prompted [''hi'', ''you'']))"
  using client_session [of "replicate MAX_SZ NUL" "[''hi'', ''you'']" "[1, 3]" "[]"]
  by (simp add: typed_word_def MAX_SZ_def is_space_def)

end
