(* ===== verification/TokenServer.thy ===== *)
theory TokenServer
  imports Kernel Decimal "HOL-Library.Multiset"
begin

text \<open>
  The token server of \<open>task_3/examples/mq_server.c\<close> and its clients, \<open>mq_client.c\<close>: a client
  sends the name of its own message queue for every character it is given, the server
  answers with the next number.  Any number of clients run beside the server.  The server
  opens the queue of its client for every answer and never closes it, so the number of
  its descriptors is part of the model.
\<close>

section \<open>Names, queues and messages\<close>

definition MAX_MESSAGES :: nat where
  "MAX_MESSAGES = 10"

definition MSG_BUFFER_SIZE :: nat where
  "MSG_BUFFER_SIZE = 256 + 10"

definition SERVER_QUEUE_NAME :: string where
  "SERVER_QUEUE_NAME = ''/sp-example-server''"

definition client_name :: "nat \<Rightarrow> string" where
  "client_name pid = ''/sp-example-client-'' @ show_nat pid"

text \<open>\<open>sprintf\<close> of the name into \<open>char client_queue_name [64]\<close>.\<close>

definition client_queue_name :: "nat \<Rightarrow> string result" where
  "client_queue_name pid =
     (if length (client_name pid) < 64 then Inr (client_name pid) else Inl OutOfBounds)"

text \<open>The message queues of the system, by name.\<close>

type_synonym mqueues = "string \<Rightarrow> bytes list option"

definition mq_create :: "string \<Rightarrow> mqueues \<Rightarrow> mqueues" where
  "mq_create n qs = qs(n := Some (case qs n of None \<Rightarrow> [] | Some ms \<Rightarrow> ms))"

section \<open>State\<close>

text \<open>A client before its \<open>mq_open\<close> calls, \<open>fgets\<close>, \<open>mq_send\<close>, \<open>mq_receive\<close>; after its end; after a failure.\<close>

datatype tclient_pc = TStart | TAsk | TRequest | TReply | TDone | TExit

datatype tserver_pc = VReceive | VOpen | VSend | VCrash

record tokens_state =
  queues :: mqueues
  client_pc :: "nat \<Rightarrow> tclient_pc"
  keys :: "nat \<Rightarrow> bytes"
  reply_buffer :: "nat \<Rightarrow> bytes"
  displayed :: "nat \<Rightarrow> bytes list"
  server_pc :: tserver_pc
  in_buffer :: bytes
  qd_client :: int
  opened :: string
  token_number :: nat
  server_fds :: nat

section \<open>The client\<close>

definition client_goes :: "nat \<Rightarrow> tclient_pc \<Rightarrow> tokens_state \<Rightarrow> tokens_state" where
  "client_goes p c s = s\<lparr>client_pc := (client_pc s)(p := c)\<rparr>"

definition client_begin :: "nat \<Rightarrow> tokens_state \<Rightarrow> tokens_state result" where
  "client_begin p s =
     bindS (client_queue_name p) (\<lambda>n.
       let s' = s\<lparr>queues := mq_create n (queues s)\<rparr>
       in Inr (client_goes p (if queues s' SERVER_QUEUE_NAME = None then TExit else TAsk) s'))"

text \<open>
  \<open>fgets (temp_buf, 2, stdin)\<close> takes one character; at the end of the input the client
  removes its queue.
\<close>

definition client_fgets :: "nat \<Rightarrow> tokens_state \<Rightarrow> tokens_state result" where
  "client_fgets p s =
     (case keys s p of
        [] \<Rightarrow> Inr (client_goes p TDone (s\<lparr>queues := (queues s)(client_name p := None)\<rparr>))
      | c # cs \<Rightarrow> Inr (client_goes p TRequest (s\<lparr>keys := (keys s)(p := cs)\<rparr>)))"

text \<open>\<open>mq_send\<close> waits while the queue is full; a send that fails lets the client go on.\<close>

definition client_send :: "nat \<Rightarrow> tokens_state \<Rightarrow> tokens_state result" where
  "client_send p s =
     (case queues s SERVER_QUEUE_NAME of
        None \<Rightarrow> Inr (client_goes p TAsk s)
      | Some ms \<Rightarrow>
          if MAX_MESSAGES \<le> length ms then Inl Blocked
          else Inr (client_goes p TReply
                 (s\<lparr>queues := (queues s)(SERVER_QUEUE_NAME := Some (ms @ [lit (client_name p)]))\<rparr>)))"

definition client_reply :: "nat \<Rightarrow> tokens_state \<Rightarrow> tokens_state result" where
  "client_reply p s =
     (case queues s (client_name p) of
        None \<Rightarrow> Inr (client_goes p TExit s)
      | Some [] \<Rightarrow> Inl Blocked
      | Some (m # ms) \<Rightarrow>
          bindS (poke (reply_buffer s p) 0 m) (\<lambda>b.
          bindS (format_s b) (\<lambda>shown.
            Inr (client_goes p TAsk
              (s\<lparr>queues := (queues s)(client_name p := Some ms), reply_buffer := (reply_buffer s)(p := b),
                 displayed := (displayed s)(p := displayed s p @ [shown])\<rparr>)))))"

definition tclient_step :: "nat \<Rightarrow> tokens_state \<Rightarrow> tokens_state result" where
  "tclient_step p s =
     (case client_pc s p of
        TStart \<Rightarrow> client_begin p s
      | TAsk \<Rightarrow> client_fgets p s
      | TRequest \<Rightarrow> client_send p s
      | TReply \<Rightarrow> client_reply p s
      | _ \<Rightarrow> Inl Blocked)"

section \<open>The server\<close>

definition server_receive :: "tokens_state \<Rightarrow> tokens_state result" where
  "server_receive s =
     (case queues s SERVER_QUEUE_NAME of
        Some (m # ms) \<Rightarrow>
          bindS (poke (in_buffer s) 0 m) (\<lambda>b.
            Inr (s\<lparr>queues := (queues s)(SERVER_QUEUE_NAME := Some ms), in_buffer := b, server_pc := VOpen\<rparr>))
      | _ \<Rightarrow> Inl Blocked)"

text \<open>
  \<open>mq_open\<close> returns the lowest free descriptor, -1 when the process has \<open>limit\<close> of them or
  there is no such queue; the code compares the result with 1.
\<close>

definition server_open :: "nat \<Rightarrow> tokens_state \<Rightarrow> tokens_state result" where
  "server_open limit s =
     bindS (format_s (in_buffer s)) (\<lambda>n.
       let failed = (limit \<le> server_fds s \<or> queues s n = None);
           d = (if failed then -1 else int (server_fds s));
           s' = s\<lparr>qd_client := d, opened := n,
                  server_fds := (if failed then server_fds s else server_fds s + 1)\<rparr>
       in Inr (s'\<lparr>server_pc := (if d = 1 then VReceive else VSend)\<rparr>))"

text \<open>A queue whose name has been removed still takes the answer of who has it open.\<close>

definition server_send :: "tokens_state \<Rightarrow> tokens_state result" where
  "server_send s =
     (if qd_client s = -1 then Inr (s\<lparr>server_pc := VReceive\<rparr>)
      else let out = lit (show_nat (token_number s));
               s' = s\<lparr>token_number := token_number s + 1, server_pc := VReceive\<rparr>
           in case queues s (opened s) of
                None \<Rightarrow> Inr s'
              | Some ms \<Rightarrow>
                  if MAX_MESSAGES \<le> length ms then Inl Blocked
                  else Inr (s'\<lparr>queues := (queues s)(opened s := Some (ms @ [out]))\<rparr>))"

definition tserver_step :: "nat \<Rightarrow> tokens_state \<Rightarrow> tokens_state result" where
  "tserver_step limit s =
     (case server_pc s of
        VReceive \<Rightarrow> server_receive s
      | VOpen \<Rightarrow> server_open limit s
      | VSend \<Rightarrow> server_send s
      | VCrash \<Rightarrow> Inl Blocked)"

section \<open>All together\<close>

inductive token_step :: "nat \<Rightarrow> nat list \<Rightarrow> tokens_state \<Rightarrow> tokens_state \<Rightarrow> bool" for limit pids where
  client: "p \<in> set pids \<Longrightarrow> tclient_step p s = Inr t \<Longrightarrow> token_step limit pids s t"
| client_fault: "p \<in> set pids \<Longrightarrow> tclient_step p s = Inl e \<Longrightarrow> e \<noteq> Blocked \<Longrightarrow>
     token_step limit pids s (client_goes p TExit s)"
| server: "tserver_step limit s = Inr t \<Longrightarrow> token_step limit pids s t"
| server_fault: "tserver_step limit s = Inl e \<Longrightarrow> e \<noteq> Blocked \<Longrightarrow>
     token_step limit pids s (s\<lparr>server_pc := VCrash\<rparr>)"

inductive_cases token_stepE: "token_step limit pids s t"

text \<open>
  The server has started and created its queue (descriptor 3), the clients have not; each
  has \<open>input p\<close> to type and a buffer with any content.
\<close>

definition token_start :: "(nat \<Rightarrow> bytes) \<Rightarrow> (nat \<Rightarrow> bytes) \<Rightarrow> bytes \<Rightarrow> tokens_state" where
  "token_start input cbufs sbuf =
     \<lparr>queues = mq_create SERVER_QUEUE_NAME (\<lambda>n. None), client_pc = (\<lambda>p. TStart), keys = input,
      reply_buffer = cbufs, displayed = (\<lambda>p. []), server_pc = VReceive, in_buffer = sbuf,
      qd_client = 0, opened = [], token_number = 1, server_fds = 4\<rparr>"

definition all_served :: "nat list \<Rightarrow> tokens_state \<Rightarrow> bool" where
  "all_served pids s \<longleftrightarrow> (\<forall>p \<in> set pids. client_pc s p = TDone)"

section \<open>The invariant\<close>

text \<open>What is fixed for a run.\<close>

record token_run =
  limit :: nat
  pids :: "nat list"
  input :: "nat \<Rightarrow> bytes"

definition total_keys :: "token_run \<Rightarrow> nat" where
  "total_keys e = sum_list (map (\<lambda>p. length (input e p)) (pids e))"

definition run_ok :: "token_run \<Rightarrow> bool" where
  "run_ok e \<longleftrightarrow> 4 \<le> limit e \<and> limit e < 2 ^ 31 \<and> distinct (pids e) \<and> (\<forall>p \<in> set (pids e). p < 2 ^ 31)"

text \<open>
  The abstract side of a state: the clients in the queue of the server, the one the server
  is working for, the numbers every client has shown, and those in its queue.
\<close>

record ghost =
  asking :: "nat list"
  busy :: "nat option"
  seen :: "nat \<Rightarrow> nat list"
  sent_to :: "nat \<Rightarrow> nat list"

definition waiting :: "ghost \<Rightarrow> nat \<Rightarrow> bool" where
  "waiting g p \<longleftrightarrow> p \<in> set (asking g) \<or> busy g = Some p"

definition client_queue_ok :: "token_run \<Rightarrow> ghost \<Rightarrow> tokens_state \<Rightarrow> nat \<Rightarrow> bool" where
  "client_queue_ok e g s p \<longleftrightarrow>
     (case client_pc s p of
        TStart \<Rightarrow> queues s (client_name p) = None \<and> length (seen g p) + length (keys s p) = length (input e p)
      | TAsk \<Rightarrow> queues s (client_name p) = Some [] \<and> length (seen g p) + length (keys s p) = length (input e p)
      | TRequest \<Rightarrow> queues s (client_name p) = Some [] \<and>
          Suc (length (seen g p) + length (keys s p)) = length (input e p)
      | TReply \<Rightarrow> queues s (client_name p) = Some (map (\<lambda>n. lit (show_nat n)) (sent_to g p)) \<and>
          Suc (length (seen g p) + length (keys s p)) = length (input e p) \<and>
          (if sent_to g p = [] then waiting g p \<or> limit e < 4 + total_keys e
           else \<not> waiting g p \<and> length (sent_to g p) = 1)
      | TDone \<Rightarrow> queues s (client_name p) = None \<and> keys s p = [] \<and> length (seen g p) = length (input e p)
      | TExit \<Rightarrow> False)"

definition client_ok :: "token_run \<Rightarrow> ghost \<Rightarrow> tokens_state \<Rightarrow> nat \<Rightarrow> bool" where
  "client_ok e g s p \<longleftrightarrow>
     displayed s p = map show_nat (seen g p) \<and> sorted_wrt (<) (seen g p @ sent_to g p) \<and>
     length (reply_buffer s p) = MSG_BUFFER_SIZE \<and>
     (client_pc s p \<noteq> TReply \<longrightarrow> sent_to g p = [] \<and> \<not> waiting g p) \<and> client_queue_ok e g s p"

definition server_ok :: "token_run \<Rightarrow> ghost \<Rightarrow> tokens_state \<Rightarrow> bool" where
  "server_ok e g s \<longleftrightarrow>
     (case server_pc s of
        VReceive \<Rightarrow> busy g = None \<and> server_fds s = token_number s + 3
      | VOpen \<Rightarrow> server_fds s = token_number s + 3 \<and>
          (\<exists>p. busy g = Some p \<and> format_s (in_buffer s) = Inr (client_name p))
      | VSend \<Rightarrow> (\<exists>p. busy g = Some p \<and> opened s = client_name p) \<and>
          (if qd_client s = -1 then server_fds s = token_number s + 3 \<and> limit e < 4 + total_keys e
           else server_fds s = token_number s + 4)
      | VCrash \<Rightarrow> False) \<and>
     server_fds s \<le> limit e \<and> length (in_buffer s) = MSG_BUFFER_SIZE"

definition issued_ok :: "token_run \<Rightarrow> ghost \<Rightarrow> tokens_state \<Rightarrow> bool" where
  "issued_ok e g s \<longleftrightarrow> 1 \<le> token_number s \<and>
     mset (concat (map (\<lambda>p. seen g p @ sent_to g p) (pids e))) = mset [1..<token_number s]"

definition queue_ok :: "token_run \<Rightarrow> ghost \<Rightarrow> tokens_state \<Rightarrow> bool" where
  "queue_ok e g s \<longleftrightarrow>
     queues s SERVER_QUEUE_NAME = Some (map (\<lambda>p. lit (client_name p)) (asking g)) \<and> distinct (asking g) \<and>
     set (asking g) \<subseteq> set (pids e) \<and> (\<forall>p. busy g = Some p \<longrightarrow> p \<in> set (pids e) \<and> p \<notin> set (asking g))"

definition ghost_inv :: "token_run \<Rightarrow> ghost \<Rightarrow> tokens_state \<Rightarrow> bool" where
  "ghost_inv e g s \<longleftrightarrow> run_ok e \<and> queue_ok e g s \<and> server_ok e g s \<and> issued_ok e g s \<and>
     (\<forall>p \<in> set (pids e). client_ok e g s p)"

definition token_inv :: "token_run \<Rightarrow> tokens_state \<Rightarrow> bool" where
  "token_inv e s \<longleftrightarrow> (\<exists>g. ghost_inv e g s)"

section \<open>Names and sums\<close>

lemma client_name_inj: "client_name p = client_name q \<longleftrightarrow> p = q"
  by (metis client_name_def nat_of_show same_append_eq)

lemma client_name_server: "client_name p \<noteq> SERVER_QUEUE_NAME"
  by (simp add: client_name_def SERVER_QUEUE_NAME_def)

lemma client_name_no_NUL: "NUL \<notin> set (client_name p)"
  using show_nat_no_NUL by (simp add: client_name_def)

lemma length_show_int32: "n < 2 ^ 31 \<Longrightarrow> length (show_nat n) \<le> 10"
  by (rule length_show_nat) simp_all

lemma client_queue_name_ok: "p < 2 ^ 31 \<Longrightarrow> client_queue_name p = Inr (client_name p)"
  using length_show_int32 [of p] by (simp add: client_queue_name_def client_name_def)

lemmas name_simps = client_name_inj client_name_server client_name_server [symmetric]

lemma receive_text:
  assumes "length buf = MSG_BUFFER_SIZE" "NUL \<notin> set s" "length s < MSG_BUFFER_SIZE"
  shows "\<exists>b. poke buf 0 (lit s) = Inr b \<and> format_s b = Inr s \<and> length b = MSG_BUFFER_SIZE"
proof -
  have "poke buf 0 (lit s) = Inr (s @ NUL # drop (Suc (length s)) buf)"
    using assms by (simp add: poke_def)
  moreover have "format_s (s @ NUL # drop (Suc (length s)) buf) = Inr s"
    using assms(2) by (simp add: format_s_text)
  ultimately show ?thesis using assms(1,3) by simp
qed

lemma sum_list_less:
  fixes f h :: "'a \<Rightarrow> nat"
  assumes "\<forall>p \<in> set ps. f p \<le> h p" "q \<in> set ps" "f q < h q"
  shows "sum_list (map f ps) < sum_list (map h ps)"
  using assms
proof (induction ps)
  case (Cons p ps)
  have le: "sum_list (map f ps) \<le> sum_list (map h ps)"
    using Cons.prems(1) by (intro sum_list_mono) simp
  show ?case
  proof (cases "q = p")
    case True
    with Cons.prems(3) le show ?thesis by simp
  next
    case False
    with Cons have "sum_list (map f ps) < sum_list (map h ps)" by simp
    with Cons.prems(1) show ?thesis by (simp add: add_le_less_mono)
  qed
qed simp

lemma mset_update:
  assumes "distinct ps" "p \<in> set ps" "mset (h p) = add_mset x (mset (f p))" "\<forall>q. q \<noteq> p \<longrightarrow> h q = f q"
  shows "mset (concat (map h ps)) = add_mset x (mset (concat (map f ps)))"
  using assms
proof (induction ps)
  case (Cons q ps)
  show ?case
  proof (cases "q = p")
    case True
    with Cons.prems have "map h ps = map f ps" by auto
    then have "concat (map h ps) = concat (map f ps)" by (rule arg_cong)
    with True Cons.prems(3) show ?thesis by simp
  next
    case False
    with Cons show ?thesis by auto
  qed
qed simp

section \<open>Every operation keeps the invariant\<close>

lemma client_ok_other:
  assumes "client_ok e g s q"
    and "displayed t q = displayed s q" "reply_buffer t q = reply_buffer s q" "client_pc t q = client_pc s q"
      "keys t q = keys s q" "queues t (client_name q) = queues s (client_name q)"
    and "seen g' q = seen g q" "sent_to g' q = sent_to g q" "waiting g' q = waiting g q"
  shows "client_ok e g' t q"
  using assms(1) unfolding client_ok_def client_queue_ok_def assms(2-9) .

lemma token_server_ok_cong:
  assumes "server_ok e g s" "busy g' = busy g" "server_pc t = server_pc s" "server_fds t = server_fds s"
    "token_number t = token_number s" "in_buffer t = in_buffer s" "opened t = opened s" "qd_client t = qd_client s"
  shows "server_ok e g' t"
  using assms(1) unfolding server_ok_def assms(2-8) .

lemma goes_simps [simp]:
  "queues (client_goes p c s) = queues s" "keys (client_goes p c s) = keys s"
  "reply_buffer (client_goes p c s) = reply_buffer s" "displayed (client_goes p c s) = displayed s"
  "server_pc (client_goes p c s) = server_pc s" "in_buffer (client_goes p c s) = in_buffer s"
  "qd_client (client_goes p c s) = qd_client s" "opened (client_goes p c s) = opened s"
  "token_number (client_goes p c s) = token_number s" "server_fds (client_goes p c s) = server_fds s"
  "client_pc (client_goes p c s) q = (if q = p then c else client_pc s q)"
  by (simp_all add: client_goes_def)

lemma tokens_total:
  assumes "ghost_inv e g s"
  shows "sum_list (map (\<lambda>p. length (seen g p @ sent_to g p)) (pids e)) = token_number s - 1"
    and "p \<in> set (pids e) \<Longrightarrow> length (seen g p @ sent_to g p) \<le> length (input e p)"
    and "p \<in> set (pids e) \<Longrightarrow> waiting g p \<Longrightarrow> length (seen g p @ sent_to g p) < length (input e p)"
proof -
  have "size (mset (concat (map (\<lambda>p. seen g p @ sent_to g p) (pids e)))) = size (mset [1..<token_number s])"
    using assms by (simp only: ghost_inv_def issued_ok_def)
  then show "sum_list (map (\<lambda>p. length (seen g p @ sent_to g p)) (pids e)) = token_number s - 1"
    by (simp add: length_concat o_def)
  assume "p \<in> set (pids e)"
  then have "client_ok e g s p" using assms by (simp add: ghost_inv_def)
  then show "length (seen g p @ sent_to g p) \<le> length (input e p)"
    and "waiting g p \<Longrightarrow> length (seen g p @ sent_to g p) < length (input e p)"
    by (auto simp: client_ok_def client_queue_ok_def split: tclient_pc.splits if_splits)
qed

lemma keep_begin:
  assumes "ghost_inv e g s" "p \<in> set (pids e)" "client_pc s p = TStart"
  shows "\<exists>t. client_begin p s = Inr t \<and> ghost_inv e g t \<and> client_pc t = (client_pc s)(p := TAsk) \<and>
    keys t = keys s \<and> server_pc t = server_pc s \<and> queues t SERVER_QUEUE_NAME = queues s SERVER_QUEUE_NAME"
proof -
  have ok: "client_ok e g s p" "p < 2 ^ 31" using assms by (auto simp: ghost_inv_def run_ok_def)
  let ?t = "client_goes p TAsk (s\<lparr>queues := (queues s)(client_name p := Some [])\<rparr>)"
  have q: "queues s (client_name p) = None" using ok(1) assms(3) by (simp add: client_ok_def client_queue_ok_def)
  moreover obtain ms where "queues s SERVER_QUEUE_NAME = Some ms"
    using assms(1) by (auto simp: ghost_inv_def queue_ok_def)
  ultimately have "client_begin p s = Inr ?t"
    using ok(2) by (simp add: client_begin_def client_queue_name_ok mq_create_def Let_def name_simps)
  moreover have "client_ok e g ?t r" if "r \<in> set (pids e)" for r
  proof (cases "r = p")
    case True
    then show ?thesis using ok(1) assms(3) by (auto simp: client_ok_def client_queue_ok_def)
  next
    case False
    have "client_ok e g s r" using assms(1) that by (simp add: ghost_inv_def)
    then show ?thesis by (rule client_ok_other) (simp_all add: False name_simps)
  qed
  moreover have "queue_ok e g ?t" "server_ok e g ?t" "issued_ok e g ?t"
    using assms(1) by (auto simp: ghost_inv_def queue_ok_def issued_ok_def name_simps intro: token_server_ok_cong)
  ultimately show ?thesis using assms(1) by (auto simp: ghost_inv_def name_simps client_goes_def)
qed

lemma keep_fgets:
  assumes "ghost_inv e g s" "p \<in> set (pids e)" "client_pc s p = TAsk"
  shows "\<exists>t. client_fgets p s = Inr t \<and> ghost_inv e g t \<and>
    (if keys s p = [] then client_pc t = (client_pc s)(p := TDone) \<and> keys t = keys s
     else client_pc t = (client_pc s)(p := TRequest) \<and> keys t = (keys s)(p := tl (keys s p))) \<and>
    server_pc t = server_pc s \<and> queues t SERVER_QUEUE_NAME = queues s SERVER_QUEUE_NAME"
proof -
  have ok: "client_ok e g s p" using assms by (auto simp: ghost_inv_def run_ok_def)
  obtain t where t: "client_fgets p s = Inr t" by (cases "keys s p") (simp_all add: client_fgets_def)
  then have tdef: "t = (case keys s p of
        [] \<Rightarrow> client_goes p TDone (s\<lparr>queues := (queues s)(client_name p := None)\<rparr>)
      | c # cs \<Rightarrow> client_goes p TRequest (s\<lparr>keys := (keys s)(p := cs)\<rparr>))"
    by (cases "keys s p") (simp_all add: client_fgets_def)
  have "client_ok e g t r" if "r \<in> set (pids e)" for r
  proof (cases "r = p")
    case True
    then show ?thesis using ok assms(3)
      by (cases "keys s p") (auto simp: tdef client_ok_def client_queue_ok_def waiting_def)
  next
    case False
    have "client_ok e g s r" using assms(1) that by (simp add: ghost_inv_def)
    then show ?thesis
      by (rule client_ok_other) (simp_all add: False name_simps tdef split: list.splits)
  qed
  moreover have "queue_ok e g t" "issued_ok e g t"
    using assms(1) by (auto simp: ghost_inv_def queue_ok_def issued_ok_def name_simps tdef split: list.splits)
  moreover have "server_ok e g s" using assms(1) by (simp add: ghost_inv_def)
  then have "server_ok e g t" by (rule token_server_ok_cong) (simp_all add: tdef split: list.splits)
  ultimately show ?thesis
    using assms(1) t by (cases "keys s p") (auto simp: ghost_inv_def name_simps tdef client_goes_def)
qed

lemma keep_request:
  assumes "ghost_inv e g s" "p \<in> set (pids e)" "client_pc s p = TRequest"
    and "length (asking g) < MAX_MESSAGES"
  shows "\<exists>t. client_send p s = Inr t \<and> ghost_inv e (g\<lparr>asking := asking g @ [p]\<rparr>) t \<and>
    client_pc t = (client_pc s)(p := TReply) \<and> keys t = keys s \<and> server_pc t = server_pc s"
proof -
  have ok: "client_ok e g s p" using assms by (simp add: ghost_inv_def)
  then have w: "\<not> waiting g p" "sent_to g p = []" using assms(3) by (simp_all add: client_ok_def)
  have sq: "queues s SERVER_QUEUE_NAME = Some (map (\<lambda>p. lit (client_name p)) (asking g))"
    using assms(1) by (simp add: ghost_inv_def queue_ok_def)
  let ?g = "g\<lparr>asking := asking g @ [p]\<rparr>"
  let ?t = "client_goes p TReply (s\<lparr>queues := (queues s)(SERVER_QUEUE_NAME :=
     Some (map (\<lambda>p. lit (client_name p)) (asking g) @ [lit (client_name p)]))\<rparr>)"
  have "client_send p s = Inr ?t" using assms(4) by (simp add: client_send_def sq)
  moreover have "client_ok e ?g ?t r" if "r \<in> set (pids e)" for r
  proof (cases "r = p")
    case True
    then show ?thesis using ok w assms(3)
      by (auto simp: client_ok_def client_queue_ok_def waiting_def name_simps)
  next
    case False
    have "client_ok e g s r" using assms(1) that by (simp add: ghost_inv_def)
    then show ?thesis by (rule client_ok_other) (simp_all add: False name_simps waiting_def)
  qed
  moreover have "queue_ok e ?g ?t"
    using assms(1,2) w by (auto simp: ghost_inv_def queue_ok_def waiting_def)
  moreover have "server_ok e ?g ?t" "issued_ok e ?g ?t"
    using assms(1) by (auto simp: ghost_inv_def issued_ok_def intro: token_server_ok_cong)
  ultimately show ?thesis using assms(1) by (auto simp: ghost_inv_def client_goes_def)
qed

lemma token_below:
  assumes "ghost_inv e g s" "p \<in> set (pids e)" "n \<in> set (seen g p @ sent_to g p)"
  shows "n < token_number s"
proof -
  have "n \<in># mset (concat (map (\<lambda>p. seen g p @ sent_to g p) (pids e)))" using assms(2,3) by auto
  then have "n \<in># mset [1..<token_number s]" using assms(1) by (simp only: ghost_inv_def issued_ok_def)
  then show ?thesis by simp
qed

lemma token_bound:
  assumes "ghost_inv e g s"
  shows "token_number s < 2 ^ 31"
  using assms by (auto simp: ghost_inv_def server_ok_def run_ok_def split: tserver_pc.splits if_splits)

lemma keep_reply:
  assumes "ghost_inv e g s" "p \<in> set (pids e)" "client_pc s p = TReply" "sent_to g p \<noteq> []"
  shows "\<exists>t. client_reply p s = Inr t \<and>
    ghost_inv e (g\<lparr>seen := (seen g)(p := seen g p @ sent_to g p), sent_to := (sent_to g)(p := [])\<rparr>) t \<and>
    client_pc t = (client_pc s)(p := TAsk) \<and> keys t = keys s \<and> server_pc t = server_pc s \<and>
    queues t SERVER_QUEUE_NAME = queues s SERVER_QUEUE_NAME"
proof -
  have ok: "client_ok e g s p" using assms by (simp add: ghost_inv_def)
  then obtain n where n: "sent_to g p = [n]" and w: "\<not> waiting g p"
    and q: "queues s (client_name p) = Some [lit (show_nat n)]" and l: "length (reply_buffer s p) = MSG_BUFFER_SIZE"
    using assms(3,4) by (auto simp: client_ok_def client_queue_ok_def length_Suc_conv)
  have "n < 2 ^ 31" using token_below [OF assms(1,2), of n] token_bound [OF assms(1)] n by simp
  then have "length (show_nat n) < MSG_BUFFER_SIZE"
    using length_show_int32 [of n] by (simp add: MSG_BUFFER_SIZE_def)
  then obtain b where b: "poke (reply_buffer s p) 0 (lit (show_nat n)) = Inr b" "format_s b = Inr (show_nat n)"
    "length b = MSG_BUFFER_SIZE" using receive_text [OF l show_nat_no_NUL] by blast
  let ?g = "g\<lparr>seen := (seen g)(p := seen g p @ sent_to g p), sent_to := (sent_to g)(p := [])\<rparr>"
  let ?t = "client_goes p TAsk (s\<lparr>queues := (queues s)(client_name p := Some []),
     reply_buffer := (reply_buffer s)(p := b), displayed := (displayed s)(p := displayed s p @ [show_nat n])\<rparr>)"
  have "client_reply p s = Inr ?t" by (simp add: client_reply_def q b)
  moreover have "client_ok e ?g ?t r" if "r \<in> set (pids e)" for r
  proof (cases "r = p")
    case True
    then show ?thesis using ok w n b(3) assms(3)
      by (simp add: client_ok_def client_queue_ok_def waiting_def)
  next
    case False
    have "client_ok e g s r" using assms(1) that by (simp add: ghost_inv_def)
    then show ?thesis by (rule client_ok_other) (simp_all add: False name_simps waiting_def)
  qed
  moreover have "queue_ok e ?g ?t" using assms(1) by (simp add: ghost_inv_def queue_ok_def name_simps)
  moreover have "server_ok e ?g ?t" using assms(1) by (auto simp: ghost_inv_def intro: token_server_ok_cong)
  moreover have "(\<lambda>r. seen ?g r @ sent_to ?g r) = (\<lambda>r. seen g r @ sent_to g r)" by auto
  then have "issued_ok e ?g ?t" using assms(1) by (simp only: ghost_inv_def issued_ok_def) simp
  ultimately show ?thesis using assms(1) by (auto simp: ghost_inv_def name_simps client_goes_def)
qed

lemma keep_receive:
  assumes "ghost_inv e g s" "server_pc s = VReceive" "asking g = p # ps"
  shows "\<exists>t. server_receive s = Inr t \<and> ghost_inv e (g\<lparr>asking := ps, busy := Some p\<rparr>) t \<and>
    client_pc t = client_pc s \<and> keys t = keys s \<and> server_pc t = VOpen"
proof -
  let ?g = "g\<lparr>asking := ps, busy := Some p\<rparr>"
  have sq: "queues s SERVER_QUEUE_NAME = Some (lit (client_name p) # map (\<lambda>p. lit (client_name p)) ps)"
    and p: "p \<in> set (pids e)" and sok: "server_ok e g s"
    using assms by (auto simp: ghost_inv_def queue_ok_def)
  have "p < 2 ^ 31" using assms(1) p by (simp add: ghost_inv_def run_ok_def)
  then have "length (client_name p) < MSG_BUFFER_SIZE"
    using length_show_int32 [of p] by (simp add: client_name_def MSG_BUFFER_SIZE_def)
  then obtain b where b: "poke (in_buffer s) 0 (lit (client_name p)) = Inr b" "format_s b = Inr (client_name p)"
    "length b = MSG_BUFFER_SIZE"
    using receive_text [OF _ client_name_no_NUL] sok by (auto simp: server_ok_def)
  let ?t = "s\<lparr>queues := (queues s)(SERVER_QUEUE_NAME := Some (map (\<lambda>p. lit (client_name p)) ps)),
    in_buffer := b, server_pc := VOpen\<rparr>"
  have "server_receive s = Inr ?t" by (simp add: server_receive_def sq b(1))
  moreover have w: "waiting ?g r = waiting g r" for r
    using assms sok by (auto simp: waiting_def server_ok_def)
  have "client_ok e ?g ?t r" if "r \<in> set (pids e)" for r
  proof -
    have "client_ok e g s r" using assms(1) that by (simp add: ghost_inv_def)
    then show ?thesis by (rule client_ok_other) (simp_all add: w name_simps)
  qed
  moreover have "queue_ok e ?g ?t" "server_ok e ?g ?t" "issued_ok e ?g ?t"
    using assms p b by (auto simp: ghost_inv_def queue_ok_def server_ok_def issued_ok_def)
  ultimately show ?thesis using assms(1) by (auto simp: ghost_inv_def)
qed

lemma keep_open:
  assumes "ghost_inv e g s" "server_pc s = VOpen"
  shows "\<exists>t. server_open (limit e) s = Inr t \<and> ghost_inv e g t \<and>
    client_pc t = client_pc s \<and> keys t = keys s \<and> server_pc t = VSend \<and>
    queues t SERVER_QUEUE_NAME = queues s SERVER_QUEUE_NAME"
proof -
  obtain p where p: "busy g = Some p" "format_s (in_buffer s) = Inr (client_name p)" "p \<in> set (pids e)"
    and fds: "server_fds s = token_number s + 3" and sok: "server_ok e g s"
    using assms by (auto simp: ghost_inv_def server_ok_def queue_ok_def)
  have w: "waiting g p" using p(1) by (simp add: waiting_def)
  have "client_ok e g s p" using assms(1) p(3) by (simp add: ghost_inv_def)
  then obtain ms where q: "queues s (client_name p) = Some ms"
    using w by (auto simp: client_ok_def client_queue_ok_def split: tclient_pc.splits)
  have pos: "1 \<le> token_number s" using assms(1) by (simp add: ghost_inv_def issued_ok_def)
  define d where "d = (if limit e \<le> server_fds s then -1 else int (server_fds s))"
  define t where "t = s\<lparr>qd_client := d, opened := client_name p,
    server_fds := (if limit e \<le> server_fds s then server_fds s else server_fds s + 1), server_pc := VSend\<rparr>"
  have "server_fds s \<noteq> 1" using pos fds by simp
  then have "server_open (limit e) s = Inr t"
    using q by (simp add: server_open_def p(2) t_def d_def Let_def)
  moreover have "limit e < 4 + total_keys e" if "limit e \<le> server_fds s"
  proof -
    have "token_number s - 1 < total_keys e"
      using sum_list_less [where f = "\<lambda>p. length (seen g p @ sent_to g p)" and h = "\<lambda>p. length (input e p)",
          OF _ p(3) tokens_total(3) [OF assms(1) p(3) w]] tokens_total(1,2) [OF assms(1)]
      by (simp add: total_keys_def)
    with that fds pos show ?thesis by simp
  qed
  then have "server_ok e g t" using sok p(1) fds assms(2) by (auto simp: server_ok_def t_def d_def)
  moreover have "client_ok e g t r" if "r \<in> set (pids e)" for r
  proof -
    have "client_ok e g s r" using assms(1) that by (simp add: ghost_inv_def)
    then show ?thesis by (rule client_ok_other) (simp_all add: t_def)
  qed
  moreover have "queue_ok e g t" "issued_ok e g t"
    using assms(1) by (simp_all add: ghost_inv_def queue_ok_def issued_ok_def t_def)
  ultimately show ?thesis using assms(1) by (auto simp: ghost_inv_def t_def)
qed

lemma keep_send:
  assumes "ghost_inv e g s" "server_pc s = VSend"
  shows "\<exists>t g'. server_send s = Inr t \<and> ghost_inv e g' t \<and>
    client_pc t = client_pc s \<and> keys t = keys s \<and> server_pc t = VReceive \<and>
    queues t SERVER_QUEUE_NAME = queues s SERVER_QUEUE_NAME"
proof -
  obtain p where p: "busy g = Some p" "opened s = client_name p" "p \<in> set (pids e)" "p \<notin> set (asking g)"
    and fds: "if qd_client s = -1 then server_fds s = token_number s + 3 \<and> limit e < 4 + total_keys e
      else server_fds s = token_number s + 4"
    and sok: "server_fds s \<le> limit e" "length (in_buffer s) = MSG_BUFFER_SIZE"
    using assms by (auto simp: ghost_inv_def server_ok_def queue_ok_def)
  have w: "waiting g p" using p(1) by (simp add: waiting_def)
  have cok: "client_ok e g s p" using assms(1) p(3) by (simp add: ghost_inv_def)
  then have pc: "client_pc s p = TReply" and rep: "sent_to g p = []" and q: "queues s (client_name p) = Some []"
    using w by (auto simp: client_ok_def client_queue_ok_def split: tclient_pc.splits if_splits)
  show ?thesis
  proof (cases "qd_client s = -1")
    case True
    let ?g = "g\<lparr>busy := None\<rparr>" and ?t = "s\<lparr>server_pc := VReceive\<rparr>"
    have "client_ok e ?g ?t r" if "r \<in> set (pids e)" for r
    proof (cases "r = p")
      case True
      then show ?thesis using cok pc rep fds \<open>qd_client s = -1\<close> by (auto simp: client_ok_def client_queue_ok_def)
    next
      case False
      have "client_ok e g s r" using assms(1) that by (simp add: ghost_inv_def)
      then show ?thesis by (rule client_ok_other) (use p False in \<open>simp_all add: waiting_def\<close>)
    qed
    moreover have "queue_ok e ?g ?t" "issued_ok e ?g ?t" "server_ok e ?g ?t"
      using assms(1) True fds sok by (simp_all add: ghost_inv_def queue_ok_def issued_ok_def server_ok_def)
    ultimately have "ghost_inv e ?g ?t" using assms(1) by (simp add: ghost_inv_def)
    moreover have "server_send s = Inr ?t" using True by (simp add: server_send_def)
    ultimately show ?thesis by (intro exI [of _ ?t] exI [of _ ?g]) simp
  next
    case False
    let ?n = "token_number s"
    let ?g = "g\<lparr>busy := None, sent_to := (sent_to g)(p := [?n])\<rparr>"
    let ?t = "s\<lparr>token_number := ?n + 1, server_pc := VReceive,
      queues := (queues s)(client_name p := Some [lit (show_nat ?n)])\<rparr>"
    have "server_send s = Inr ?t" using False q p(2) by (simp add: server_send_def MAX_MESSAGES_def Let_def)
    moreover have "client_ok e ?g ?t r" if "r \<in> set (pids e)" for r
    proof (cases "r = p")
      case True
      have "\<forall>n \<in> set (seen g p). n < ?n" using token_below [OF assms(1) p(3)] by auto
      then have "sorted_wrt (<) (seen g p @ [?n])" using cok rep by (simp add: client_ok_def sorted_wrt_append)
      then show ?thesis using True cok pc rep p(4) by (simp add: client_ok_def client_queue_ok_def waiting_def)
    next
      case False
      have "client_ok e g s r" using assms(1) that by (simp add: ghost_inv_def)
      then show ?thesis by (rule client_ok_other) (use p False in \<open>simp_all add: waiting_def name_simps\<close>)
    qed
    moreover have "queue_ok e ?g ?t" using assms(1) by (simp add: ghost_inv_def queue_ok_def name_simps)
    moreover have "server_ok e ?g ?t" using False fds sok by (simp add: server_ok_def)
    moreover have "mset (concat (map (\<lambda>r. seen ?g r @ sent_to ?g r) (pids e))) =
        add_mset ?n (mset (concat (map (\<lambda>r. seen g r @ sent_to g r) (pids e))))"
      using assms(1) p(3) rep by (intro mset_update [where p = p]) (auto simp: ghost_inv_def run_ok_def)
    then have "issued_ok e ?g ?t" using assms(1) by (simp add: ghost_inv_def issued_ok_def)
    ultimately have "ghost_inv e ?g ?t" "server_send s = Inr ?t" using assms(1) by (simp_all add: ghost_inv_def)
    then show ?thesis by (intro exI [of _ ?t] exI [of _ ?g]) (simp add: name_simps)
  qed
qed

section \<open>Progress\<close>

fun client_rank :: "tclient_pc \<Rightarrow> nat" where
  "client_rank TStart = 2"
| "client_rank TAsk = 1"
| "client_rank TRequest = 8"
| "client_rank TReply = 2"
| "client_rank TDone = 0"
| "client_rank TExit = 0"

fun server_rank :: "tserver_pc \<Rightarrow> nat" where
  "server_rank VOpen = 2"
| "server_rank VSend = 1"
| "server_rank _ = 0"

definition token_rank :: "token_run \<Rightarrow> tokens_state \<Rightarrow> nat" where
  "token_rank e s = sum_list (map (\<lambda>p. 8 * length (keys s p) + client_rank (client_pc s p)) (pids e)) +
     3 * length (the (queues s SERVER_QUEUE_NAME)) + server_rank (server_pc s)"

text \<open>What a step of one client does to the sum over all.\<close>

lemma token_rank_client:
  assumes "distinct ps" "p \<in> set ps" "\<forall>q. q \<noteq> p \<longrightarrow> h q = f q"
  shows "sum_list (map h ps) + f p = sum_list (map f ps) + (h p :: nat)"
  using assms
proof (induction ps)
  case (Cons q ps)
  show ?case
  proof (cases "q = p")
    case True
    with Cons.prems have "map h ps = map f ps" by auto
    then have "sum_list (map h ps) = sum_list (map f ps)" by (rule arg_cong)
    with True show ?thesis by simp
  next
    case False
    with Cons show ?thesis by simp
  qed
qed simp

lemma rank_step_client:
  assumes "distinct (pids e)" "p \<in> set (pids e)" "\<forall>q. q \<noteq> p \<longrightarrow> client_pc t q = client_pc s q \<and> keys t q = keys s q"
    and "8 * length (keys t p) + client_rank (client_pc t p) + 3 * length (the (queues t SERVER_QUEUE_NAME)) +
      server_rank (server_pc t) <
      8 * length (keys s p) + client_rank (client_pc s p) + 3 * length (the (queues s SERVER_QUEUE_NAME)) +
      server_rank (server_pc s)"
  shows "token_rank e t < token_rank e s"
  using token_rank_client [OF assms(1,2), of "\<lambda>q. 8 * length (keys t q) + client_rank (client_pc t q)"
      "\<lambda>q. 8 * length (keys s q) + client_rank (client_pc s q)"] assms(3,4)
  by (simp add: token_rank_def)

definition advances :: "token_run \<Rightarrow> tokens_state \<Rightarrow> tokens_state result \<Rightarrow> bool" where
  "advances e s r \<longleftrightarrow> (\<exists>t. r = Inr t \<and> token_inv e t \<and> token_rank e t < token_rank e s)"

lemma server_queue: "ghost_inv e g s \<Longrightarrow>
    queues s SERVER_QUEUE_NAME = Some (map (\<lambda>p. lit (client_name p)) (asking g))"
  by (simp add: ghost_inv_def queue_ok_def)

lemma client_advances:
  assumes "ghost_inv e g s" "p \<in> set (pids e)"
  shows "tclient_step p s = Inl Blocked \<or> advances e s (tclient_step p s)"
proof -
  have d: "distinct (pids e)" using assms(1) by (simp add: ghost_inv_def run_ok_def)
  have cok: "client_ok e g s p" using assms by (simp add: ghost_inv_def)
  note rank = rank_step_client [OF d assms(2)]
  show ?thesis
  proof (cases "client_pc s p")
    case TStart
    then obtain t where "client_begin p s = Inr t" "ghost_inv e g t" "client_pc t = (client_pc s)(p := TAsk)"
      "keys t = keys s" "server_pc t = server_pc s" "queues t SERVER_QUEUE_NAME = queues s SERVER_QUEUE_NAME"
      using keep_begin [OF assms] by blast
    then show ?thesis using TStart rank [of t s] by (auto simp: tclient_step_def advances_def token_inv_def)
  next
    case TAsk
    then obtain t where t: "client_fgets p s = Inr t" "ghost_inv e g t" "server_pc t = server_pc s"
      "queues t SERVER_QUEUE_NAME = queues s SERVER_QUEUE_NAME"
      and k: "if keys s p = [] then client_pc t = (client_pc s)(p := TDone) \<and> keys t = keys s
        else client_pc t = (client_pc s)(p := TRequest) \<and> keys t = (keys s)(p := tl (keys s p))"
      using keep_fgets [OF assms] by blast
    have "token_rank e t < token_rank e s"
      using k t(3,4) TAsk by (intro rank) (cases "keys s p"; simp)+
    then show ?thesis using TAsk t by (auto simp: tclient_step_def advances_def token_inv_def)
  next
    case TRequest
    show ?thesis
    proof (cases "length (asking g) < MAX_MESSAGES")
      case True
      then obtain t where t: "client_send p s = Inr t" "ghost_inv e (g\<lparr>asking := asking g @ [p]\<rparr>) t"
        "client_pc t = (client_pc s)(p := TReply)" "keys t = keys s" "server_pc t = server_pc s"
        using keep_request [OF assms TRequest] by blast
      have "token_rank e t < token_rank e s"
        using t(3-5) TRequest server_queue [OF t(2)] server_queue [OF assms(1)] by (intro rank) simp_all
      then show ?thesis using TRequest t by (auto simp: tclient_step_def advances_def token_inv_def)
    next
      case False
      then show ?thesis using TRequest server_queue [OF assms(1)]
        by (simp add: tclient_step_def client_send_def)
    qed
  next
    case TReply
    show ?thesis
    proof (cases "sent_to g p = []")
      case True
      then have "queues s (client_name p) = Some []"
        using cok TReply by (simp add: client_ok_def client_queue_ok_def)
      then show ?thesis using TReply by (simp add: tclient_step_def client_reply_def)
    next
      case False
      obtain t where t: "client_reply p s = Inr t"
        "ghost_inv e (g\<lparr>seen := (seen g)(p := seen g p @ sent_to g p), sent_to := (sent_to g)(p := [])\<rparr>) t"
        "client_pc t = (client_pc s)(p := TAsk)" "keys t = keys s" "server_pc t = server_pc s"
        "queues t SERVER_QUEUE_NAME = queues s SERVER_QUEUE_NAME"
        using keep_reply [OF assms TReply False] by blast
      have "token_rank e t < token_rank e s" using t(3-6) TReply by (intro rank) simp_all
      then show ?thesis using TReply t by (auto simp: tclient_step_def advances_def token_inv_def)
    qed
  qed (simp_all add: tclient_step_def)
qed

lemma server_advances:
  assumes "ghost_inv e g s"
  shows "if server_pc s = VReceive \<and> asking g = [] then tserver_step (limit e) s = Inl Blocked
    else advances e s (tserver_step (limit e) s)"
proof (cases "server_pc s")
  case VReceive
  show ?thesis
  proof (cases "asking g")
    case Nil
    then show ?thesis using VReceive server_queue [OF assms]
      by (simp add: tserver_step_def server_receive_def)
  next
    case (Cons p ps)
    then obtain t where t: "server_receive s = Inr t" "ghost_inv e (g\<lparr>asking := ps, busy := Some p\<rparr>) t"
      "client_pc t = client_pc s" "keys t = keys s" "server_pc t = VOpen"
      using keep_receive [OF assms VReceive] by blast
    have "token_rank e t < token_rank e s"
      using t(3-5) server_queue [OF t(2)] server_queue [OF assms] Cons VReceive by (simp add: token_rank_def)
    then show ?thesis using VReceive Cons t by (auto simp: tserver_step_def advances_def token_inv_def)
  qed
next
  case VOpen
  then obtain t where t: "server_open (limit e) s = Inr t" "ghost_inv e g t"
    "client_pc t = client_pc s" "keys t = keys s" "server_pc t = VSend"
    "queues t SERVER_QUEUE_NAME = queues s SERVER_QUEUE_NAME"
    using keep_open [OF assms] by blast
  then have "token_rank e t < token_rank e s" using VOpen by (simp add: token_rank_def)
  then show ?thesis using VOpen t by (auto simp: tserver_step_def advances_def token_inv_def)
next
  case VSend
  then obtain t g' where t: "server_send s = Inr t" "ghost_inv e g' t"
    "client_pc t = client_pc s" "keys t = keys s" "server_pc t = VReceive"
    "queues t SERVER_QUEUE_NAME = queues s SERVER_QUEUE_NAME"
    using keep_send [OF assms] by blast
  then have "token_rank e t < token_rank e s" using VSend by (simp add: token_rank_def)
  then show ?thesis using VSend t by (auto simp: tserver_step_def advances_def token_inv_def)
next
  case VCrash
  then show ?thesis using assms by (simp add: ghost_inv_def server_ok_def)
qed

lemma token_start_inv:
  assumes "run_ok e" "\<forall>p. length (cbufs p) = MSG_BUFFER_SIZE" "length sbuf = MSG_BUFFER_SIZE"
  shows "token_inv e (token_start (input e) cbufs sbuf)"
proof -
  let ?g = "\<lparr>asking = [], busy = None, seen = (\<lambda>p. []), sent_to = (\<lambda>p. [])\<rparr>"
  have "mset (concat (map (\<lambda>p. []) xs)) = ({#} :: nat multiset)" for xs :: "nat list" by (induction xs) auto
  then have "ghost_inv e ?g (token_start (input e) cbufs sbuf)"
    using assms by (simp add: ghost_inv_def queue_ok_def server_ok_def issued_ok_def client_ok_def
        client_queue_ok_def token_start_def mq_create_def waiting_def name_simps run_ok_def)
  then show ?thesis by (auto simp: token_inv_def)
qed

lemma token_inv_step:
  assumes "token_inv e s" "token_step (limit e) (pids e) s t"
  shows "token_inv e t \<and> token_rank e t < token_rank e s"
proof -
  obtain g where g: "ghost_inv e g s" using assms(1) by (auto simp: token_inv_def)
  show ?thesis
    using assms(2)
  proof (cases rule: token_step.cases)
    case (client p)
    with client_advances [OF g client(1)] show ?thesis by (auto simp: advances_def)
  next
    case (client_fault p e)
    with client_advances [OF g client_fault(2)] show ?thesis by (auto simp: advances_def)
  next
    case server
    with server_advances [OF g] show ?thesis by (auto simp: advances_def split: if_splits)
  next
    case (server_fault e)
    with server_advances [OF g] show ?thesis by (auto simp: advances_def split: if_splits)
  qed
qed

text \<open>Enough descriptors: then some process can always move, until all clients are done.\<close>

lemma token_progress:
  assumes "token_inv e s" "4 + total_keys e \<le> limit e" "\<not> all_served (pids e) s"
  shows "\<exists>t. token_step (limit e) (pids e) s t"
proof -
  obtain g where g: "ghost_inv e g s" using assms(1) by (auto simp: token_inv_def)
  show ?thesis
  proof (cases "server_pc s = VReceive \<and> asking g = []")
    case False
    then have "advances e s (tserver_step (limit e) s)" using server_advances [OF g] by (simp split: if_splits)
    then show ?thesis by (auto simp: advances_def intro: token_step.server)
  next
    case True
    obtain p where p: "p \<in> set (pids e)" "client_pc s p \<noteq> TDone" using assms(3) by (auto simp: all_served_def)
    then have cok: "client_ok e g s p" using g by (simp add: ghost_inv_def)
    have "busy g = None" using g True by (simp add: ghost_inv_def server_ok_def)
    then have w: "\<not> waiting g p" using True by (simp add: waiting_def)
    have "tclient_step p s \<noteq> Inl Blocked"
    proof (cases "client_pc s p")
      case TStart
      then show ?thesis using keep_begin [OF g p(1)] by (auto simp: tclient_step_def)
    next
      case TAsk
      then show ?thesis using keep_fgets [OF g p(1)] by (auto simp: tclient_step_def)
    next
      case TRequest
      then show ?thesis using keep_request [OF g p(1)] True by (auto simp: tclient_step_def MAX_MESSAGES_def)
    next
      case TReply
      then have "sent_to g p \<noteq> []" using cok w assms(2) by (auto simp: client_ok_def client_queue_ok_def)
      then show ?thesis using keep_reply [OF g p(1) TReply] TReply by (auto simp: tclient_step_def)
    qed (use p(2) cok in \<open>simp_all add: client_ok_def client_queue_ok_def\<close>)
    then have "advances e s (tclient_step p s)" using client_advances [OF g p(1)] by blast
    then show ?thesis using p(1) by (auto simp: advances_def intro: token_step.client)
  qed
qed

text \<open>The buffers have their size, whatever they hold.\<close>

definition buffers_ok :: "(nat \<Rightarrow> bytes) \<Rightarrow> bytes \<Rightarrow> bool" where
  "buffers_ok cbufs sbuf \<longleftrightarrow> (\<forall>p. length (cbufs p) = MSG_BUFFER_SIZE) \<and> length sbuf = MSG_BUFFER_SIZE"

interpretation tokens: trans_inv "\<lambda>s. run_ok e \<and> (\<exists>c b. buffers_ok c b \<and> s = token_start (input e) c b)"
    "token_step (limit e) (pids e)" "token_inv e" for e
  using token_start_inv token_inv_step by unfold_locales (auto simp: buffers_ok_def)

interpretation serving: live_inv "\<lambda>s. run_ok e \<and> 4 + total_keys e \<le> limit e \<and>
      (\<exists>c b. buffers_ok c b \<and> s = token_start (input e) c b)" "token_step (limit e) (pids e)"
    "\<lambda>s. token_inv e s \<and> 4 + total_keys e \<le> limit e" "all_served (pids e)" "token_rank e" for e
  using token_start_inv token_inv_step token_progress by unfold_locales (auto simp: buffers_ok_def)

lemma token_run_length:
  assumes "(token_step (limit e) (pids e) ^^ n) s t" "token_inv e s"
  shows "n + token_rank e t \<le> token_rank e s"
  using assms
proof (induction n arbitrary: t)
  case (Suc n)
  then obtain u where u: "(token_step (limit e) (pids e) ^^ n) s u" "token_step (limit e) (pids e) u t" by auto
  then have "token_inv e u" using Suc.prems(2) tokens.steps_inv by (meson relpowp_imp_rtranclp)
  with Suc u show ?case using token_inv_step by fastforce
qed simp

lemma rank_of_start: "sum_list (map (\<lambda>p. 8 * f p + 2) ps) = 8 * sum_list (map f ps) + 2 * length ps"
  for f :: "'a \<Rightarrow> nat"
  by (induction ps) simp_all

lemma served_tokens:
  assumes "token_inv e s" "all_served (pids e) s"
  shows "4 + total_keys e \<le> limit e \<and>
    (\<exists>got. (\<forall>p \<in> set (pids e). displayed s p = map show_nat (got p) \<and> length (got p) = length (input e p) \<and>
        sorted_wrt (<) (got p)) \<and>
      mset (concat (map got (pids e))) = mset [1..<total_keys e + 1])"
proof -
  obtain g where g: "ghost_inv e g s" using assms(1) by (auto simp: token_inv_def)
  have c: "displayed s p = map show_nat (seen g p) \<and> length (seen g p) = length (input e p) \<and>
      sorted_wrt (<) (seen g p) \<and> sent_to g p = []" if "p \<in> set (pids e)" for p
  proof -
    have "client_ok e g s p" "client_pc s p = TDone"
      using that g assms(2) by (auto simp: ghost_inv_def all_served_def)
    then show ?thesis by (auto simp: client_ok_def client_queue_ok_def)
  qed
  have "map (\<lambda>p. length (seen g p @ sent_to g p)) (pids e) = map (\<lambda>p. length (input e p)) (pids e)"
    using c by (intro map_cong) simp_all
  then have "token_number s - 1 = total_keys e"
    unfolding total_keys_def tokens_total(1) [OF g, symmetric] by (rule arg_cong)
  moreover have "1 \<le> token_number s" using g by (simp add: ghost_inv_def issued_ok_def)
  ultimately have n: "token_number s = total_keys e + 1" by simp
  have "map (\<lambda>p. seen g p @ sent_to g p) (pids e) = map (seen g) (pids e)"
    using c by (intro map_cong) simp_all
  then have "mset (concat (map (seen g) (pids e))) = mset [1..<total_keys e + 1]"
    using g n by (simp only: ghost_inv_def issued_ok_def)
  moreover have "4 + total_keys e \<le> limit e"
    using g n by (auto simp: ghost_inv_def server_ok_def split: tserver_pc.splits if_splits)
  ultimately show ?thesis using c by (intro conjI exI [of _ "seen g"] ballI) simp_all
qed

section \<open>Properties\<close>

text \<open>
  C38. Any number of clients on one server: every run is finite, every client that ends has
  shown one number for each of its characters, in increasing order, and together they
  have shown every number from 1 on exactly once; and all can end exactly when the server
  has a descriptor left for every request, because it closes none.
\<close>

theorem tokens_served:
  assumes "run_ok e" "buffers_ok cbufs sbuf"
    and "(token_step (limit e) (pids e) ^^ n) (token_start (input e) cbufs sbuf) s"
  shows "n \<le> 8 * total_keys e + 2 * length (pids e) \<and>
    (4 + total_keys e \<le> limit e \<longrightarrow> (\<exists>t. (token_step (limit e) (pids e))\<^sup>*\<^sup>* s t \<and> all_served (pids e) t)) \<and>
    (all_served (pids e) s \<longrightarrow> 4 + total_keys e \<le> limit e \<and>
       (\<exists>got. (\<forall>p \<in> set (pids e). displayed s p = map show_nat (got p) \<and>
            length (got p) = length (input e p) \<and> sorted_wrt (<) (got p)) \<and>
          mset (concat (map got (pids e))) = mset [1..<total_keys e + 1]))"
proof -
  let ?s0 = "token_start (input e) cbufs sbuf"
  have i0: "token_inv e ?s0" using assms(1,2) by (intro token_start_inv) (simp_all add: buffers_ok_def)
  have inv: "token_inv e s" using tokens.steps_inv i0 assms(3) by (meson relpowp_imp_rtranclp)
  have "token_rank e ?s0 = 8 * total_keys e + 2 * length (pids e)"
    using rank_of_start [of "\<lambda>p. length (input e p)" "pids e"]
    by (simp add: token_rank_def token_start_def mq_create_def total_keys_def)
  then have "n \<le> 8 * total_keys e + 2 * length (pids e)"
    using token_run_length [OF assms(3) i0] by simp
  then show ?thesis using serving.finishes_from inv served_tokens [OF inv] by blast
qed

theorem tokens_served_witness:
  "\<exists>t. (token_step 1024 [100, 101])\<^sup>*\<^sup>* (token_start (\<lambda>p. ''abc'') (\<lambda>p. replicate MSG_BUFFER_SIZE NUL)
      (replicate MSG_BUFFER_SIZE NUL)) t \<and> all_served [100, 101] t"
proof -
  let ?e = "\<lparr>limit = 1024, pids = [100, 101], input = (\<lambda>p. ''abc'')\<rparr>"
  have "run_ok ?e" by (simp add: run_ok_def)
  moreover have "buffers_ok (\<lambda>p. replicate MSG_BUFFER_SIZE NUL) (replicate MSG_BUFFER_SIZE NUL)"
    by (simp add: buffers_ok_def)
  ultimately show ?thesis
    using tokens_served [of ?e "\<lambda>p. replicate MSG_BUFFER_SIZE NUL" "replicate MSG_BUFFER_SIZE NUL" 0]
    by (simp add: total_keys_def)
qed

end
