(* ===== verification/ExecPipes.thy ===== *)
theory ExecPipes
  imports ShellRun
begin

text \<open>
  The executor of \<open>task_1/examples/10_exec_pipes.c\<close>, from which the shell's was made.  It
  works on arrays written down in \<open>main\<close>, so commands are lists here, and it prints the
  descriptors it uses.  The theorems say that it runs the same pipeline as the shell's and
  that its comment is right: two pipes at most, on the descriptors 3 to 5.
\<close>

section \<open>The loop\<close>

definition ex_child ::
  "world \<Rightarrow> shell \<Rightarrow> nat \<Rightarrow> string list \<Rightarrow> bool \<Rightarrow> nat \<Rightarrow> nat \<Rightarrow> nat \<Rightarrow> shell result" where
  "ex_child w s i argv has_next fd_in p0 p1 =
     (let t = child_fds (tab s) i fd_in p0 p1 has_next
      in case run_program w argv of
           None \<Rightarrow> Inr s
         | Some p \<Rightarrow> child_program s t p)"

text \<open>The list holds, for every command, \<open>p[0]\<close>, \<open>p[1]\<close> and \<open>fd_in\<close> as they are printed.\<close>

fun ex_loop ::
  "world \<Rightarrow> shell \<Rightarrow> nat \<Rightarrow> nat \<Rightarrow> (nat \<times> nat) option \<Rightarrow> string list list \<Rightarrow>
   ((nat \<times> nat \<times> nat) list \<times> shell) result" where
  "ex_loop w s i fd_in p [] = Inr ([], s)"
| "ex_loop w s i fd_in p (c # cs) =
     (case make_pipe w p s of
        (None, s1) \<Rightarrow> Inl ReadUndef
      | (Some (p0, p1), s1) \<Rightarrow>
          if \<not> fork_ok w i then Inl Aborted
          else bindS (ex_child w s1 i c (cs \<noteq> []) fd_in p0 p1) (\<lambda>s2.
               bindS (ex_loop w (parent_close s2 i fd_in p1) (Suc i) p0 (Some (p0, p1)) cs) (\<lambda>(shown, s').
                 Inr ((p0, p1, fd_in) # shown, s'))))"

definition ex_seq_pipe :: "world \<Rightarrow> string list list \<Rightarrow> shell \<Rightarrow> ((nat \<times> nat \<times> nat) list \<times> shell) result" where
  "ex_seq_pipe w cmd s = ex_loop w s 0 0 None cmd"

text \<open>The commands of \<open>main\<close>.\<close>

definition ex_cmd :: "string list list" where
  "ex_cmd = [[''/bin/ls'', ''-ltr'', ''.''], [''grep'', ''rw''], [''grep'', ''1''], [''grep'', ''89'']]"

section \<open>The same pipeline as the shell's\<close>

lemma ex_child_run:
  assumes "length c < MAX_NUM_OF_TOKENS" "next \<noteq> Undef"
  shows "run_child w s i (fill (\<lambda>_. Null) 0 c) next fd_in p0 p1 = ex_child w s i c (next \<noteq> Null) fd_in p0 p1"
  using assms(2) by (simp add: run_child_def ex_child_def argv_fill_Null [OF assms(1)] Let_def)

lemma ex_loop_shell:
  assumes "\<forall>j < length cs. cmd (i + j) = Ptr (fill (\<lambda>_. Null) 0 (cs ! j))" "cmd (i + length cs) = Null"
    and "i + length cs < MAX_NUM_OF_CMD" "\<forall>c \<in> set cs. length c < MAX_NUM_OF_TOKENS" "\<forall>j. fork_ok w j"
  shows "seq_pipe_loop w cmd s i fd_in p = bindS (ex_loop w s i fd_in p cs) (\<lambda>(shown, s'). Inr s')"
  using assms
proof (induction cs arbitrary: s i fd_in p)
  case Nil
  then show ?case by (simp add: seq_pipe_loop.simps)
next
  case (Cons c cs)
  have c: "cmd i = Ptr (fill (\<lambda>_. Null) 0 c)" using Cons.prems(1) by (metis add_0_right length_greater_0_conv list.distinct(1) nth_Cons_0)
  have n: "cmd (Suc i) \<noteq> Undef \<and> (cmd (Suc i) \<noteq> Null \<longleftrightarrow> cs \<noteq> [])"
  proof (cases cs)
    case Nil
    then show ?thesis using Cons.prems(2) by simp
  next
    case (Cons d ds)
    then show ?thesis using Cons.prems(1) [rule_format, of 1] by simp
  qed
  have rest: "seq_pipe_loop w cmd s (Suc i) fd_in p = bindS (ex_loop w s (Suc i) fd_in p cs) (\<lambda>(shown, s'). Inr s')"
    for s fd_in p
  proof (rule Cons.IH)
    show "\<forall>j < length cs. cmd (Suc i + j) = Ptr (fill (\<lambda>_. Null) 0 (cs ! j))"
      using Cons.prems(1) by (metis Suc_less_eq add_Suc_shift length_Cons nth_Cons_Suc)
  qed (use Cons.prems in auto)
  obtain q s1 where mp: "make_pipe w p s = (q, s1)" by force
  show ?case
  proof (cases q)
    case None
    then show ?thesis using c mp Cons.prems by (simp add: seq_pipe_loop.simps [of w cmd s])
  next
    case (Some pp)
    obtain p0 p1 where pp: "pp = (p0, p1)" by force
    have "seq_pipe_loop w cmd s i fd_in p =
        bindS (ex_child w s1 i c (cs \<noteq> []) fd_in p0 p1) (\<lambda>s2.
          seq_pipe_loop w cmd (parent_close s2 i fd_in p1) (Suc i) p0 (Some (p0, p1)))"
      using c n mp Some pp Cons.prems ex_child_run [of c "cmd (Suc i)" w s1 i fd_in p0 p1]
      by (simp add: seq_pipe_loop.simps [of w cmd s])
    then show ?thesis using mp Some pp Cons.prems(5)
      by (auto simp: rest bindS_def split: sum.splits)
  qed
qed

lemma ex_seq_pipe_shell:
  assumes "length cs < MAX_NUM_OF_CMD" "\<forall>c \<in> set cs. length c < MAX_NUM_OF_TOKENS" "\<forall>j. fork_ok w j"
  shows "seq_pipe w (fill (\<lambda>_. Null) 0 (map (fill (\<lambda>_. Null) 0) cs)) s =
    bindS (ex_seq_pipe w cs s) (\<lambda>(shown, s'). Inr s')"
  unfolding seq_pipe_def ex_seq_pipe_def
  using assms by (intro ex_loop_shell) (simp_all add: fill_nth)

section \<open>The descriptors\<close>

text \<open>Read end, write end and \<open>fd_in\<close> of round \<open>i\<close> when only 0, 1 and 2 are open at first.\<close>

definition read_end :: "nat \<Rightarrow> nat" where
  "read_end i = (if even i then 3 else 4)"

definition fds_of_round :: "nat \<Rightarrow> nat \<times> nat \<times> nat" where
  "fds_of_round i = (if i = 0 then (3, 4, 0) else (read_end i, 5, read_end (i - 1)))"

lemma lowest_free_eq:
  assumes "fd_used t = U" "m \<notin> U" "\<forall>k < m. k \<in> U"
  shows "lowest_free t = m"
  using assms lowest_free_spec [of t] by (metis linorder_neqE_nat)

lemma round_fds:
  assumes "fd_used (tab s) = (if i = 0 then {0, 1, 2} else {0, 1, 2, read_end (i - 1)})"
    and "length (tab s) + 2 \<le> nofile w" "fds_of_round i = (p0, p1, f)"
  shows "make_pipe w q s = (Some (p0, p1), s\<lparr>tab := (p1, PipeW (npipes s)) # (p0, PipeR (npipes s)) # tab s,
    npipes := Suc (npipes s), pipes := (pipes s)(npipes s := \<lparr>buffered = [], writers = 1\<rparr>)\<rparr>)"
    and "p0 \<notin> fd_used (tab s)" "p1 \<notin> fd_used (tab s)" "p0 \<noteq> p1"
proof -
  have p: "p0 = read_end i" "p1 = (if i = 0 then 4 else 5)"
    using assms(3) by (auto simp: fds_of_round_def read_end_def split: if_splits)
  have flip: "read_end (i - 1) = (if even i then 4 else 3)" if "0 < i"
    using that by (cases i) (simp_all add: read_end_def)
  have l0: "lowest_free (tab s) = p0"
  proof (rule lowest_free_eq [OF assms(1)])
    show "\<forall>k < p0. k \<in> (if i = 0 then {0, 1, 2} else {0, 1, 2, read_end (i - 1)})"
      using flip by (auto simp: p read_end_def less_Suc_eq numeral_eq_Suc)
  qed (use flip in \<open>auto simp: p read_end_def\<close>)
  have l1: "lowest_free ((p0, PipeR (npipes s)) # tab s) = p1"
  proof (rule lowest_free_eq [OF refl])
    show "\<forall>k < p1. k \<in> fd_used ((p0, PipeR (npipes s)) # tab s)"
      using flip by (cases "i = 0") (auto simp: lib_simps assms(1) p read_end_def less_Suc_eq numeral_eq_Suc)
    show "p1 \<notin> fd_used ((p0, PipeR (npipes s)) # tab s)"
      using flip by (cases "i = 0") (auto simp: lib_simps assms(1) p read_end_def)
  qed
  show "make_pipe w q s = (Some (p0, p1), s\<lparr>tab := (p1, PipeW (npipes s)) # (p0, PipeR (npipes s)) # tab s,
    npipes := Suc (npipes s), pipes := (pipes s)(npipes s := \<lparr>buffered = [], writers = 1\<rparr>)\<rparr>)"
    using assms(2) by (simp add: make_pipe_def fd_open_def l0 l1 Let_def)
  show "p0 \<notin> fd_used (tab s)" "p1 \<notin> fd_used (tab s)" "p0 \<noteq> p1"
    using flip by (cases "i = 0"; auto simp: assms(1) p read_end_def)+
qed

text \<open>One command.\<close>

lemma ex_child_ok:
  assumes "between s i fd_in U inp" "s1 = s\<lparr>tab := (p1, PipeW (npipes s)) # (p0, PipeR (npipes s)) # tab s,
      npipes := Suc (npipes s), pipes := (pipes s)(npipes s := \<lparr>buffered = [], writers = 1\<rparr>)\<rparr>"
    and "p0 \<notin> fd_used (tab s)" "p1 \<notin> fd_used (tab s)" "p0 \<noteq> p1"
    and "length c < MAX_NUM_OF_TOKENS" "length (stage w c inp) \<le> PIPE_CAP \<or> \<not> has_next"
  shows "\<exists>s2. ex_child w s1 i c has_next fd_in p0 p1 = Inr s2 \<and>
    screen s2 = screen s @ (if has_next then [] else stage w c inp) \<and>
    between (parent_close s2 i fd_in p1) (Suc i) p0 U (if has_next then stage w c inp else [])"
proof -
  let ?k = "npipes s" and ?tt = "tty_after w i c (tty s)"
  have tab: "tab s1 = (p1, PipeW ?k) # (p0, PipeR ?k) # tab s" and np: "npipes s1 = Suc ?k"
    and pp: "pipes s1 = (pipes s)(?k := \<lparr>buffered = [], writers = 1\<rparr>)" and sc: "screen s1 = screen s"
    and tt: "tty s1 = tty s"
    using assms(2) by simp_all
  define nxt :: "string block slot" where "nxt = (if has_next then Ptr (\<lambda>_. Null) else Null)"
  have u: "nxt \<noteq> Undef" "(nxt \<noteq> Null) = has_next" by (simp_all add: nxt_def)
  have run: "ex_child w s1 i c has_next fd_in p0 p1 =
     (if has_next then Inr (s1\<lparr>tty := ?tt, pipes := (pipes s1)(?k := \<lparr>buffered = stage w c inp, writers = 1\<rparr>)\<rparr>)
      else Inr (s1\<lparr>tty := ?tt, screen := screen s1 @ stage w c inp\<rparr>))"
    using run_child_ok [OF assms(1) tab refl pp tt assms(3-5) argv_fill_Null [OF assms(6)] u(1)]
      ex_child_run [OF assms(6) u(1), of w s1 i fd_in p0 p1] assms(7) u(2) by (auto simp: Let_def)
  have close: "between (parent_close s2 i fd_in p1) (Suc i) p0 U (buffered (pipes s2 ?k))"
    if "tab s2 = tab s1" "npipes s2 = npipes s1" for s2
    using parent_close_ok(1) [of s2 p1 ?k p0 s i fd_in U inp] that tab np assms(1,3-5) by simp
  show ?thesis
  proof (cases has_next)
    case True
    with run close [of "s1\<lparr>tty := ?tt, pipes := (pipes s1)(?k := \<lparr>buffered = stage w c inp, writers = 1\<rparr>)\<rparr>"]
    show ?thesis by (simp add: sc)
  next
    case False
    with run close [of "s1\<lparr>tty := ?tt, screen := screen s1 @ stage w c inp\<rparr>"] show ?thesis by (simp add: sc pp)
  qed
qed

lemma ex_loop_fds:
  assumes "between s i fd_in {0, 1, 2} inp" "fd_in = (if i = 0 then 0 else read_end (i - 1))"
    and "cs \<noteq> []" "fits w cs inp" "\<forall>c \<in> set cs. length c < MAX_NUM_OF_TOKENS" "\<forall>j. fork_ok w j" "6 \<le> nofile w"
  shows "\<exists>s'. ex_loop w s i fd_in p cs = Inr (map fds_of_round [i..<i + length cs], s') \<and>
    screen s' = screen s @ pipeline w cs inp \<and>
    between s' (i + length cs) (read_end (i + length cs - 1)) {0, 1, 2} []"
  using assms
proof (induction cs arbitrary: s i fd_in p inp)
  case (Cons c cs)
  have used: "fd_used (tab s) = (if i = 0 then {0, 1, 2} else {0, 1, 2, read_end (i - 1)})"
    using Cons.prems(1,2) by (auto simp: between_def)
  have len: "length (tab s) + 2 \<le> nofile w"
    using length_tab [OF Cons.prems(1)] Cons.prems(7) by (simp split: if_splits)
  obtain p0 p1 f where fr: "fds_of_round i = (p0, p1, f)" by (metis prod_cases3)
  then have p0: "p0 = read_end i" and f: "f = fd_in"
    using Cons.prems(2) by (auto simp: fds_of_round_def read_end_def split: if_splits)
  define s1 where "s1 = s\<lparr>tab := (p1, PipeW (npipes s)) # (p0, PipeR (npipes s)) # tab s,
    npipes := Suc (npipes s), pipes := (pipes s)(npipes s := \<lparr>buffered = [], writers = 1\<rparr>)\<rparr>"
  note mp = round_fds [OF used len fr, folded s1_def]
  have st: "length (stage w c inp) \<le> PIPE_CAP \<or> \<not> cs \<noteq> []" and fc: "cs \<noteq> [] \<Longrightarrow> fits w cs (stage w c inp)"
    using Cons.prems(4) by (cases cs; simp)+
  obtain s2 where s2: "ex_child w s1 i c (cs \<noteq> []) fd_in p0 p1 = Inr s2"
    "screen s2 = screen s @ (if cs \<noteq> [] then [] else stage w c inp)"
    "between (parent_close s2 i fd_in p1) (Suc i) p0 {0, 1, 2} (if cs \<noteq> [] then stage w c inp else [])"
    using ex_child_ok [OF Cons.prems(1) s1_def mp(2-4) _ st] Cons.prems(5) by auto
  have loop: "ex_loop w s i fd_in p (c # cs) =
      bindS (ex_loop w (parent_close s2 i fd_in p1) (Suc i) p0 (Some (p0, p1)) cs) (\<lambda>(shown, s').
        Inr (fds_of_round i # shown, s'))"
    using mp(1) [of p] s2(1) Cons.prems(6) by (simp add: fr f)
  have sc: "screen (parent_close s2 i fd_in p1) = screen s2" by (simp add: parent_close_def Let_def)
  show ?case
  proof (cases "cs = []")
    case True
    then show ?thesis using loop s2(2,3) sc p0 by simp
  next
    case False
    then obtain s' where s': "ex_loop w (parent_close s2 i fd_in p1) (Suc i) p0 (Some (p0, p1)) cs =
        Inr (map fds_of_round [Suc i..<Suc i + length cs], s')"
      "screen s' = screen (parent_close s2 i fd_in p1) @ pipeline w cs (stage w c inp)"
      "between s' (Suc i + length cs) (read_end (Suc i + length cs - 1)) {0, 1, 2} []"
      using Cons.IH [of "parent_close s2 i fd_in p1" "Suc i" p0 "stage w c inp" "Some (p0, p1)"]
        s2(3) fc p0 Cons.prems(5-7) by auto
    then show ?thesis
      using loop s2(2) sc False by (simp add: upt_conv_Cons del: upt_Suc)
  qed
qed simp

section \<open>Properties\<close>

text \<open>
  Started with the descriptors 0, 1 and 2, a pipeline of any number of commands runs on
  the pipes \<open>3 4\<close>, then \<open>4 5\<close> and \<open>3 5\<close> in turn, as the comment of the file shows for four,
  gives the screen the result of the abstract pipeline and leaves one read end open; and
  it does the same as the executor of the shell.
\<close>

theorem example_pipeline:
  assumes "shell_ok s" "fd_used (tab s) = {0, 1, 2}" "6 \<le> nofile w" "\<forall>j. fork_ok w j"
    and "cs \<noteq> []" "length cs < MAX_NUM_OF_CMD" "\<forall>c \<in> set cs. length c < MAX_NUM_OF_TOKENS" "fits w cs (fst (read_all (tty s)))"
  shows "\<exists>s'. ex_seq_pipe w cs s = Inr (map fds_of_round [0..<length cs], s') \<and>
    screen s' = screen s @ pipeline w cs (fst (read_all (tty s))) \<and>
    fd_used (tab s') = {0, 1, 2, read_end (length cs - 1)} \<and>
    seq_pipe w (fill (\<lambda>_. Null) 0 (map (fill (\<lambda>_. Null) 0) cs)) s = Inr s'"
proof -
  have "between s 0 0 {0, 1, 2} (fst (read_all (tty s)))" using assms(1,2) by (simp add: between_def)
  then obtain s' where s': "ex_seq_pipe w cs s = Inr (map fds_of_round [0..<length cs], s')"
    "screen s' = screen s @ pipeline w cs (fst (read_all (tty s)))" "between s' (length cs) (read_end (length cs - 1)) {0, 1, 2} []"
    using ex_loop_fds [of s 0 0 "fst (read_all (tty s))" cs w None] assms(3-8) by (auto simp: ex_seq_pipe_def)
  moreover have "fd_used (tab s') = {0, 1, 2, read_end (length cs - 1)}"
    using s'(3) assms(5) by (auto simp: between_def)
  ultimately show ?thesis using ex_seq_pipe_shell [OF assms(6,7,4), of s] by simp
qed

theorem example_pipeline_witness:
  "\<exists>s'. ex_seq_pipe demo_world (replicate 4 [''rev'']) demo_shell =
    Inr ([(3, 4, 0), (4, 5, 3), (3, 5, 4), (4, 5, 3)], s')"
proof -
  have u: "fd_used (tab demo_shell) = {0, 1, 2}" by (auto simp: fd_used_def demo_shell_def)
  have "stage demo_world [''rev''] [] = []" by (simp add: demo_stage)
  then have f: "fits demo_world (replicate 4 [''rev'']) (fst (read_all (tty demo_shell)))"
    by (simp add: demo_simps numeral_eq_Suc)
  have m: "map fds_of_round [0..<4] = [(3, 4, 0), (4, 5, 3), (3, 5, 4), (4, 5, 3)]"
    by (simp add: fds_of_round_def read_end_def upt_rec)
  have "length (replicate 4 [''rev'']) < MAX_NUM_OF_CMD"
    "\<forall>c \<in> set (replicate 4 [''rev'']). length c < MAX_NUM_OF_TOKENS" by (simp_all add: max_defs)
  from example_pipeline [OF demo_ok u _ _ _ this f] m show ?thesis by (auto simp: demo_simps)
qed

end
