(* ===== verification/TextPipe.thy ===== *)
theory TextPipe
  imports Kernel
begin

text \<open>
  Text from the terminal to another process, \<open>task_1/examples/8_pipe.c\<close> (parent to child over
  a pipe) and \<open>9_fifo_writer.c\<close>, \<open>9_fifo_reader.c\<close> (over a FIFO): the same two loops, which
  differ in how the two ends come to be open.  How much a \<open>read\<close> from the terminal delivers
  is the user's choice, how much one from the pipe delivers depends on the schedule.
  The transfer refines the bounded channel of \<open>Channel\<close>.
\<close>

section \<open>State and steps\<close>

text \<open>\<open>sizeof(buf) - 1\<close>: the last byte of \<open>buf\<close> is left for a NUL.\<close>

definition TEXT_MAX :: nat where
  "TEXT_MAX = 4095"

text \<open>Before the ends are closed or opened; before \<open>read\<close>; before \<open>write\<close> of a number of bytes; after the loop.\<close>

datatype sender_pc = WOpen | WRead | WSend nat | WEnd
datatype receiver_pc = ROpen | RRead | REnd

record text_pipe =
  channel :: kpipe
  sender :: sender_pc
  receiver :: receiver_pc
  typed_text :: bytes
  sender_buf :: bytes
  receiver_buf :: bytes
  sent_lines :: "bytes list"
  received_lines :: "bytes list"

text \<open>\<open>buf[size] = 0\<close> after \<open>size = read(...)\<close> delivered \<open>xs\<close>.\<close>

definition fill_text :: "bytes \<Rightarrow> bytes \<Rightarrow> bytes result" where
  "fill_text buf xs = bindS (poke buf 0 xs) (\<lambda>b. poke b (length xs) [NUL])"

definition sender_read :: "nat \<Rightarrow> text_pipe \<Rightarrow> text_pipe result" where
  "sender_read k s =
     (if typed_text s = []
      then Inr (s\<lparr>sender := WEnd, channel := (channel s)\<lparr>writers := writers (channel s) - 1\<rparr>\<rparr>)
      else let xs = take (min TEXT_MAX k) (typed_text s)
           in bindS (fill_text (sender_buf s) xs) (\<lambda>b.
              Inr (s\<lparr>sender_buf := b, typed_text := drop (length xs) (typed_text s), sender := WSend (length xs)\<rparr>)))"

definition sender_write :: "nat \<Rightarrow> text_pipe \<Rightarrow> text_pipe result" where
  "sender_write n s =
     bindS (peek (sender_buf s) n) (\<lambda>xs.
     bindS (format_s (sender_buf s)) (\<lambda>shown.
       case pipe_write (channel s) xs of
         None \<Rightarrow> Inl Blocked
       | Some ch \<Rightarrow> Inr (s\<lparr>channel := ch, sent_lines := sent_lines s @ [shown], sender := WRead\<rparr>)))"

definition receiver_read :: "text_pipe \<Rightarrow> text_pipe result" where
  "receiver_read s =
     (case pipe_read (channel s) TEXT_MAX of
        None \<Rightarrow> Inl Blocked
      | Some (xs, ch) \<Rightarrow>
          if xs = [] then Inr (s\<lparr>receiver := REnd\<rparr>)
          else bindS (fill_text (receiver_buf s) xs) (\<lambda>b.
               bindS (format_s b) (\<lambda>shown.
                 Inr (s\<lparr>channel := ch, receiver_buf := b, received_lines := received_lines s @ [shown]\<rparr>))))"

text \<open>
  With a pipe the child closes its copy of the write end, with a FIFO each \<open>open\<close> waits for
  the other one.  A fault kills the process; none occurs.
\<close>

inductive text_step :: "bool \<Rightarrow> text_pipe \<Rightarrow> text_pipe \<Rightarrow> bool" for fifo where
  both_open: "fifo \<Longrightarrow> sender s = WOpen \<Longrightarrow> receiver s = ROpen \<Longrightarrow>
     text_step fifo s (s\<lparr>sender := WRead, receiver := RRead, channel := (channel s)\<lparr>writers := 1\<rparr>\<rparr>)"
| sender_close: "\<not> fifo \<Longrightarrow> sender s = WOpen \<Longrightarrow> text_step fifo s (s\<lparr>sender := WRead\<rparr>)"
| receiver_close: "\<not> fifo \<Longrightarrow> receiver s = ROpen \<Longrightarrow>
     text_step fifo s (s\<lparr>receiver := RRead, channel := (channel s)\<lparr>writers := writers (channel s) - 1\<rparr>\<rparr>)"
| s_read: "sender s = WRead \<Longrightarrow> 0 < k \<Longrightarrow> sender_read k s = Inr t \<Longrightarrow> text_step fifo s t"
| s_write: "sender s = WSend n \<Longrightarrow> sender_write n s = Inr t \<Longrightarrow> text_step fifo s t"
| r_read: "receiver s = RRead \<Longrightarrow> receiver_read s = Inr t \<Longrightarrow> text_step fifo s t"
| s_fault: "sender s = WRead \<and> 0 < k \<and> sender_read k s = Inl e \<or> sender s = WSend n \<and> sender_write n s = Inl e \<Longrightarrow>
     e \<noteq> Blocked \<Longrightarrow> text_step fifo s (s\<lparr>sender := WEnd\<rparr>)"
| r_fault: "receiver s = RRead \<Longrightarrow> receiver_read s = Inl e \<Longrightarrow> e \<noteq> Blocked \<Longrightarrow>
     text_step fifo s (s\<lparr>receiver := REnd\<rparr>)"

text \<open>After \<open>fork\<close> two processes hold the write end; before the opens nobody has the FIFO open.\<close>

definition text_start :: "bool \<Rightarrow> bytes \<Rightarrow> bytes \<Rightarrow> bytes \<Rightarrow> text_pipe" where
  "text_start fifo b1 b2 inp =
     \<lparr>channel = \<lparr>buffered = [], writers = (if fifo then 0 else 2)\<rparr>, sender = WOpen, receiver = ROpen,
      typed_text = inp, sender_buf = b1, receiver_buf = b2, sent_lines = [], received_lines = []\<rparr>"

definition text_final :: "text_pipe \<Rightarrow> bool" where
  "text_final s \<longleftrightarrow> sender s = WEnd \<and> receiver s = REnd"

section \<open>The invariant\<close>

fun held_of :: "sender_pc \<Rightarrow> bytes \<Rightarrow> bytes" where
  "held_of (WSend n) buf = take n buf"
| "held_of _ buf = []"

definition held_text :: "text_pipe \<Rightarrow> bytes" where
  "held_text s = held_of (sender s) (sender_buf s)"

text \<open>A text that is cut into reads: each shown up to its first NUL byte.\<close>

definition cut_as :: "bytes list \<Rightarrow> bytes list \<Rightarrow> bool" where
  "cut_as raw shown \<longleftrightarrow> shown = map cstr raw \<and> (\<forall>x \<in> set raw. x \<noteq> [] \<and> length x \<le> TEXT_MAX)"

definition ends_ok :: "bool \<Rightarrow> text_pipe \<Rightarrow> bool" where
  "ends_ok fifo s \<longleftrightarrow>
     writers (channel s) =
       (if fifo then (if sender s = WOpen \<or> sender s = WEnd then 0 else 1)
        else (if sender s = WEnd then 0 else 1) + (if receiver s = ROpen then 1 else 0)) \<and>
     (fifo \<longrightarrow> (sender s = WOpen \<longleftrightarrow> receiver s = ROpen)) \<and>
     (sender s = WEnd \<longrightarrow> typed_text s = []) \<and>
     (receiver s = REnd \<longrightarrow> sender s = WEnd \<and> buffered (channel s) = [])"

fun holding_ok :: "sender_pc \<Rightarrow> bytes \<Rightarrow> bool" where
  "holding_ok (WSend n) buf \<longleftrightarrow> 0 < n \<and> n \<le> TEXT_MAX \<and> format_s buf = Inr (cstr (take n buf))"
| "holding_ok _ buf \<longleftrightarrow> True"

definition sender_ok :: "text_pipe \<Rightarrow> bool" where
  "sender_ok s \<longleftrightarrow> length (sender_buf s) = TEXT_MAX + 1 \<and> length (receiver_buf s) = TEXT_MAX + 1 \<and>
     holding_ok (sender s) (sender_buf s)"

text \<open>Of \<open>inp\<close>, some is in the pipe and \<open>rest\<close> has not been sent.\<close>

definition logs_ok :: "bytes \<Rightarrow> bytes list \<Rightarrow> bytes list \<Rightarrow> bytes \<Rightarrow> bytes \<Rightarrow> bool" where
  "logs_ok inp received sent piped rest \<longleftrightarrow>
     (\<exists>raw. cut_as raw received \<and> inp = concat raw @ piped @ rest) \<and>
     (\<exists>raw. cut_as raw sent \<and> inp = concat raw @ rest)"

definition text_inv :: "bool \<Rightarrow> bytes \<Rightarrow> text_pipe \<Rightarrow> bool" where
  "text_inv fifo inp s \<longleftrightarrow> ends_ok fifo s \<and> sender_ok s \<and>
     logs_ok inp (received_lines s) (sent_lines s) (buffered (channel s)) (held_text s @ typed_text s)"

definition text_rank :: "text_pipe \<Rightarrow> nat" where
  "text_rank s = 4 * length (typed_text s) + 3 * length (held_text s) + 2 * length (buffered (channel s)) +
     (case sender s of WOpen \<Rightarrow> 2 | WEnd \<Rightarrow> 0 | _ \<Rightarrow> 1) + (case receiver s of ROpen \<Rightarrow> 2 | RRead \<Rightarrow> 1 | REnd \<Rightarrow> 0)"

lemma fill_text_ok:
  assumes "length xs \<le> TEXT_MAX" "length buf = TEXT_MAX + 1"
  shows "\<exists>b. fill_text buf xs = Inr b \<and> length b = TEXT_MAX + 1 \<and> take (length xs) b = xs \<and> format_s b = Inr (cstr xs)"
proof -
  let ?b = "xs @ NUL # drop (Suc (length xs)) buf"
  have "fill_text buf xs = Inr ?b" using assms by (simp add: fill_text_def poke_def)
  moreover have "cstr ?b = cstr xs" by (cases "NUL \<in> set xs") (simp_all add: cstr_append_in)
  ultimately show ?thesis using assms by (simp add: format_s_text)
qed

lemma logs_send:
  assumes "logs_ok inp received sent piped (x @ rest)" "x \<noteq> []" "length x \<le> TEXT_MAX"
  shows "logs_ok inp received (sent @ [cstr x]) (piped @ x) rest"
proof -
  obtain raw where "cut_as raw sent" "inp = concat raw @ x @ rest" using assms(1) by (auto simp: logs_ok_def)
  then have "cut_as (raw @ [x]) (sent @ [cstr x])" "inp = concat (raw @ [x]) @ rest"
    using assms(2,3) by (auto simp: cut_as_def)
  then show ?thesis using assms(1) unfolding logs_ok_def by (metis append_assoc)
qed

lemma logs_receive:
  assumes "logs_ok inp received sent (x @ piped) rest" "x \<noteq> []" "length x \<le> TEXT_MAX"
  shows "logs_ok inp (received @ [cstr x]) sent piped rest"
proof -
  obtain raw where "cut_as raw received" "inp = concat raw @ x @ piped @ rest" using assms(1) by (auto simp: logs_ok_def)
  then have "cut_as (raw @ [x]) (received @ [cstr x])" "inp = concat (raw @ [x]) @ piped @ rest"
    using assms(2,3) by (auto simp: cut_as_def)
  then show ?thesis using assms(1) unfolding logs_ok_def by blast
qed

lemma take_rest: "take m l @ drop (length (take m l)) l = l"
  by (cases "m \<le> length l") simp_all

section \<open>The steps\<close>

definition flows :: "bool \<Rightarrow> bytes \<Rightarrow> text_pipe \<Rightarrow> text_pipe result \<Rightarrow> bool" where
  "flows fifo inp s r \<longleftrightarrow> (\<exists>t. r = Inr t \<and> text_inv fifo inp t \<and> text_rank t < text_rank s)"

lemma flows_sender_read:
  assumes "text_inv fifo inp s" "sender s = WRead" "0 < k"
  shows "flows fifo inp s (sender_read k s)"
proof (cases "typed_text s = []")
  case True
  then have "sender_read k s = Inr (s\<lparr>sender := WEnd, channel := (channel s)\<lparr>writers := writers (channel s) - 1\<rparr>\<rparr>)"
    by (simp add: sender_read_def)
  then show ?thesis using assms True
    by (auto simp: flows_def text_inv_def ends_ok_def sender_ok_def text_rank_def held_text_def)
next
  case False
  let ?xs = "take (min TEXT_MAX k) (typed_text s)"
  have xs: "?xs \<noteq> []" "length ?xs \<le> TEXT_MAX" using False assms(3) by (simp_all add: TEXT_MAX_def)
  obtain b where b: "fill_text (sender_buf s) ?xs = Inr b" "length b = TEXT_MAX + 1" "take (length ?xs) b = ?xs"
    "format_s b = Inr (cstr ?xs)"
    using fill_text_ok [OF xs(2), of "sender_buf s"] assms(1) by (auto simp: text_inv_def sender_ok_def)
  let ?t = "s\<lparr>sender_buf := b, typed_text := drop (length ?xs) (typed_text s), sender := WSend (length ?xs)\<rparr>"
  have r: "sender_read k s = Inr ?t" using False b(1) by (simp add: sender_read_def Let_def)
  have pos: "0 < length ?xs" using xs(1) by blast
  have split: "held_text ?t @ typed_text ?t = held_text s @ typed_text s"
    using b(3) assms(2) take_rest [of "min TEXT_MAX k" "typed_text s"] by (simp add: held_text_def)
  have h: "held_text ?t = ?xs" "held_text s = []" using b(3) assms(2) by (simp_all add: held_text_def)
  have n: "length (typed_text ?t) + length ?xs = length (typed_text s)" by simp
  have "text_rank ?t = 4 * length (typed_text ?t) + 3 * length ?xs + 2 * length (buffered (channel s)) + 1 +
      (case receiver s of ROpen \<Rightarrow> 2 | RRead \<Rightarrow> 1 | REnd \<Rightarrow> 0)"
    unfolding text_rank_def h by simp
  moreover have "text_rank s = 4 * length (typed_text s) + 2 * length (buffered (channel s)) + 1 +
      (case receiver s of ROpen \<Rightarrow> 2 | RRead \<Rightarrow> 1 | REnd \<Rightarrow> 0)"
    unfolding text_rank_def h using assms(2) by simp
  ultimately have "text_rank ?t < text_rank s" using pos n by linarith
  moreover have "ends_ok fifo ?t" using assms(1,2) by (auto simp: text_inv_def ends_ok_def)
  moreover have "sender_ok ?t"
    using assms(1) b pos xs(2) by (simp add: text_inv_def sender_ok_def)
  moreover have "logs_ok inp (received_lines ?t) (sent_lines ?t) (buffered (channel ?t)) (held_text ?t @ typed_text ?t)"
    unfolding split using assms(1) by (simp add: text_inv_def)
  ultimately show ?thesis unfolding flows_def r text_inv_def by blast
qed

lemma flows_sender_write:
  assumes "text_inv fifo inp s" "sender s = WSend n" "length (buffered (channel s)) + n \<le> PIPE_CAP"
  shows "flows fifo inp s (sender_write n s)"
proof -
  let ?x = "take n (sender_buf s)"
  have n: "0 < n" "n \<le> TEXT_MAX" "format_s (sender_buf s) = Inr (cstr ?x)" "length (sender_buf s) = TEXT_MAX + 1"
    using assms(1,2) by (auto simp: text_inv_def sender_ok_def)
  then have x: "length ?x = n" "?x \<noteq> []" by auto
  let ?t = "s\<lparr>channel := (channel s)\<lparr>buffered := buffered (channel s) @ ?x\<rparr>,
    sent_lines := sent_lines s @ [cstr ?x], sender := WRead\<rparr>"
  have r: "sender_write n s = Inr ?t"
    using n x assms(3) by (simp add: sender_write_def peek_def pipe_write_fits)
  have h: "held_text s = ?x" "held_text ?t = []" using assms(2) by (simp_all add: held_text_def)
  have "logs_ok inp (received_lines s) (sent_lines s) (buffered (channel s)) (?x @ typed_text s)"
    using assms(1) h by (simp add: text_inv_def)
  then have "logs_ok inp (received_lines ?t) (sent_lines ?t) (buffered (channel ?t)) (held_text ?t @ typed_text ?t)"
    using logs_send x n(2) h(2) by simp
  moreover have "ends_ok fifo ?t" "sender_ok ?t"
    using assms(1,2) by (auto simp: text_inv_def ends_ok_def sender_ok_def)
  moreover have "text_rank ?t < text_rank s"
    unfolding text_rank_def h using x(1) n(1) assms(2) by simp
  ultimately show ?thesis by (simp add: flows_def r text_inv_def)
qed

lemma flows_receiver_read:
  assumes "text_inv fifo inp s" "receiver s = RRead" "buffered (channel s) \<noteq> [] \<or> writers (channel s) = 0"
  shows "flows fifo inp s (receiver_read s)"
proof (cases "buffered (channel s) = []")
  case True
  then have "receiver_read s = Inr (s\<lparr>receiver := REnd\<rparr>)"
    using assms(3) by (simp add: receiver_read_def pipe_read_def)
  moreover have w: "sender s = WEnd" using True assms by (auto simp: text_inv_def ends_ok_def split: if_splits)
  then have "text_inv fifo inp (s\<lparr>receiver := REnd\<rparr>)"
    using assms(1,2) True by (auto simp: text_inv_def ends_ok_def sender_ok_def held_text_def)
  ultimately show ?thesis using assms(2) w by (simp add: flows_def text_rank_def held_text_def)
next
  case False
  let ?x = "take TEXT_MAX (buffered (channel s))" and ?rest = "drop TEXT_MAX (buffered (channel s))"
  have x: "?x \<noteq> []" "length ?x \<le> TEXT_MAX" using False by (simp_all add: TEXT_MAX_def)
  obtain b where b: "fill_text (receiver_buf s) ?x = Inr b" "length b = TEXT_MAX + 1" "format_s b = Inr (cstr ?x)"
    using fill_text_ok [OF x(2), of "receiver_buf s"] assms(1) by (auto simp: text_inv_def sender_ok_def)
  let ?t = "s\<lparr>channel := (channel s)\<lparr>buffered := ?rest\<rparr>, receiver_buf := b,
    received_lines := received_lines s @ [cstr ?x]\<rparr>"
  have r: "receiver_read s = Inr ?t"
    using False x b by (simp add: receiver_read_def pipe_read_def)
  have "logs_ok inp (received_lines s) (sent_lines s) (?x @ ?rest) (held_text s @ typed_text s)"
    using assms(1) by (simp add: text_inv_def)
  then have "logs_ok inp (received_lines ?t) (sent_lines ?t) (buffered (channel ?t)) (held_text ?t @ typed_text ?t)"
    using logs_receive x by (simp add: held_text_def)
  moreover have "ends_ok fifo ?t" "sender_ok ?t"
    using assms(1,2) b(2) by (auto simp: text_inv_def ends_ok_def sender_ok_def)
  moreover have "length ?rest < length (buffered (channel s))" using False by (simp add: TEXT_MAX_def)
  then have "text_rank ?t < text_rank s" by (simp add: text_rank_def held_text_def)
  ultimately show ?thesis by (simp add: flows_def r text_inv_def)
qed

lemma receiver_waits:
  "buffered (channel s) = [] \<Longrightarrow> 0 < writers (channel s) \<Longrightarrow> receiver_read s = Inl Blocked"
  by (simp add: receiver_read_def pipe_read_def)

lemma sender_waits:
  assumes "text_inv fifo inp s" "sender s = WSend n" "\<not> length (buffered (channel s)) + n \<le> PIPE_CAP"
  shows "sender_write n s = Inl Blocked"
  using assms by (auto simp: text_inv_def sender_ok_def sender_write_def peek_def pipe_write_def)

lemma text_start_inv:
  "length b1 = TEXT_MAX + 1 \<Longrightarrow> length b2 = TEXT_MAX + 1 \<Longrightarrow> text_inv fifo inp (text_start fifo b1 b2 inp)"
  by (auto simp: text_inv_def text_start_def ends_ok_def sender_ok_def logs_ok_def held_text_def cut_as_def)

lemma text_opens:
  assumes "text_inv fifo inp s" "receiver s = ROpen"
  shows "fifo \<Longrightarrow> sender s = WOpen \<Longrightarrow> flows fifo inp s (Inr (s\<lparr>sender := WRead, receiver := RRead,
      channel := (channel s)\<lparr>writers := 1\<rparr>\<rparr>))"
    and "\<not> fifo \<Longrightarrow> flows fifo inp s (Inr (s\<lparr>receiver := RRead, channel := (channel s)\<lparr>writers := writers (channel s) - 1\<rparr>\<rparr>))"
  using assms
  by (auto simp: flows_def text_inv_def ends_ok_def sender_ok_def text_rank_def held_text_def split: sender_pc.splits)

lemma text_sender_opens:
  assumes "text_inv fifo inp s" "sender s = WOpen" "\<not> fifo"
  shows "flows fifo inp s (Inr (s\<lparr>sender := WRead\<rparr>))"
  using assms by (auto simp: flows_def text_inv_def ends_ok_def sender_ok_def text_rank_def held_text_def)

lemma text_inv_step:
  assumes "text_inv fifo inp s" "text_step fifo s t"
  shows "text_inv fifo inp t \<and> text_rank t < text_rank s"
  using assms(2)
proof (cases rule: text_step.cases)
  case both_open
  then show ?thesis using text_opens(1) [OF assms(1)] by (simp add: flows_def)
next
  case sender_close
  then show ?thesis using text_sender_opens [OF assms(1)] by (simp add: flows_def)
next
  case receiver_close
  then show ?thesis using text_opens(2) [OF assms(1)] by (simp add: flows_def)
next
  case (s_read k)
  then show ?thesis using flows_sender_read [OF assms(1), of k] by (simp add: flows_def)
next
  case (s_write n)
  then show ?thesis
    using flows_sender_write [OF assms(1), of n] sender_waits [OF assms(1), of n] by (auto simp: flows_def)
next
  case r_read
  then show ?thesis
    using flows_receiver_read [OF assms(1)] receiver_waits [of s] by (auto simp: flows_def)
next
  case (s_fault k e n)
  then show ?thesis
    using flows_sender_read [OF assms(1), of k] flows_sender_write [OF assms(1), of n] sender_waits [OF assms(1), of n]
    by (cases "length (buffered (channel s)) + n \<le> PIPE_CAP") (auto simp: flows_def)
next
  case (r_fault e)
  then show ?thesis
    using flows_receiver_read [OF assms(1)] receiver_waits [of s] by (auto simp: flows_def)
qed

lemma text_progress:
  assumes "text_inv fifo inp s" "\<not> text_final s"
  shows "\<exists>t. text_step fifo s t"
proof -
  have ends: "ends_ok fifo s" using assms(1) by (simp add: text_inv_def)
  have rd: "\<exists>t. text_step fifo s t" if "receiver s = RRead" "buffered (channel s) \<noteq> [] \<or> writers (channel s) = 0"
    using flows_receiver_read [OF assms(1) that] that(1) by (auto simp: flows_def intro: text_step.r_read)
  show ?thesis
  proof (cases "sender s")
    case WOpen
    then show ?thesis using ends by (cases fifo) (auto simp: ends_ok_def intro: text_step.both_open text_step.sender_close)
  next
    case WRead
    then show ?thesis using flows_sender_read [OF assms(1) WRead, of 1] by (auto simp: flows_def intro: text_step.s_read)
  next
    case (WSend n)
    show ?thesis
    proof (cases "length (buffered (channel s)) + n \<le> PIPE_CAP")
      case True
      then show ?thesis using flows_sender_write [OF assms(1) WSend] WSend by (auto simp: flows_def intro: text_step.s_write)
    next
      case False
      have "n \<le> TEXT_MAX" using assms(1) WSend by (simp add: text_inv_def sender_ok_def)
      then have "buffered (channel s) \<noteq> []" using False by (auto simp: TEXT_MAX_def PIPE_CAP_def)
      then show ?thesis using rd ends WSend
        by (cases "receiver s"; cases fifo) (auto simp: ends_ok_def intro: text_step.receiver_close)
    qed
  next
    case WEnd
    then show ?thesis using rd ends assms(2)
      by (cases "receiver s"; cases fifo) (auto simp: ends_ok_def text_final_def intro: text_step.receiver_close)
  qed
qed

interpretation texts: live_inv
    "\<lambda>s. \<exists>b1 b2. length b1 = TEXT_MAX + 1 \<and> length b2 = TEXT_MAX + 1 \<and> s = text_start fifo b1 b2 inp"
    "text_step fifo" "text_inv fifo inp" text_final text_rank for fifo inp
  using text_start_inv text_inv_step text_progress by unfold_locales auto

section \<open>The text as it travels\<close>

text \<open>The pieces that were shown on one side make up \<open>xs\<close>.\<close>

definition shows_text :: "bytes list \<Rightarrow> bytes \<Rightarrow> bool" where
  "shows_text shown xs \<longleftrightarrow> (\<exists>raw. cut_as raw shown \<and> concat raw = xs)"

definition text_view :: "text_pipe \<Rightarrow> byte channel \<Rightarrow> bool" where
  "text_view s c \<longleftrightarrow> unsent c = held_text s @ typed_text s \<and> travelling c = buffered (channel s) \<and>
     shows_text (received_lines s) (arrived c) \<and> shows_text (sent_lines s) (arrived c @ buffered (channel s))"

lemma shows_text_snoc:
  assumes "shows_text shown ys" "xs \<noteq> []" "length xs \<le> TEXT_MAX"
  shows "shows_text (shown @ [cstr xs]) (ys @ xs)"
proof -
  obtain raw where "cut_as raw shown" "concat raw = ys" using assms(1) by (auto simp: shows_text_def)
  then have "cut_as (raw @ [xs]) (shown @ [cstr xs])" "concat (raw @ [xs]) = ys @ xs"
    using assms(2,3) by (auto simp: cut_as_def)
  then show ?thesis unfolding shows_text_def by blast
qed

lemma text_view_same:
  assumes "text_view s c" "held_text t @ typed_text t = held_text s @ typed_text s"
    "buffered (channel t) = buffered (channel s)" "received_lines t = received_lines s" "sent_lines t = sent_lines s"
  shows "text_view t c"
  using assms by (simp add: text_view_def)

lemma sender_read_view:
  assumes inv: "text_inv fifo inp s" and pc: "sender s = WRead" and step: "sender_read k s = Inr t"
    and view: "text_view s c"
  shows "text_view t c"
proof (cases "typed_text s = []")
  case True
  with step pc have "t = s\<lparr>sender := WEnd, channel := (channel s)\<lparr>writers := writers (channel s) - 1\<rparr>\<rparr>"
    by (simp add: sender_read_def)
  then show ?thesis using pc by (intro text_view_same [OF view]) (simp_all add: held_text_def)
next
  case False
  let ?xs = "take (min TEXT_MAX k) (typed_text s)"
  have "length ?xs \<le> TEXT_MAX" by simp
  from fill_text_ok [OF this, of "sender_buf s"] inv
  obtain b where b: "fill_text (sender_buf s) ?xs = Inr b" "take (length ?xs) b = ?xs"
    by (auto simp: text_inv_def sender_ok_def)
  have t: "t = s\<lparr>sender_buf := b, typed_text := drop (length ?xs) (typed_text s), sender := WSend (length ?xs)\<rparr>"
    using step False b(1) by (simp add: sender_read_def Let_def)
  have "held_text t @ typed_text t = held_text s @ typed_text s"
    using t b(2) pc take_rest [of "min TEXT_MAX k" "typed_text s"] by (simp add: held_text_def)
  then show ?thesis by (intro text_view_same [OF view]) (simp_all add: t)
qed

lemma sender_write_view:
  assumes inv: "text_inv fifo inp s" and pc: "sender s = WSend n" and step: "sender_write n s = Inr t"
    and view: "text_view s c"
  shows "\<exists>d. chan_step PIPE_CAP c d \<and> text_view t d"
proof -
  let ?x = "take n (sender_buf s)"
  have n: "0 < n" "n \<le> TEXT_MAX" "format_s (sender_buf s) = Inr (cstr ?x)" "length (sender_buf s) = TEXT_MAX + 1"
    using inv pc by (auto simp: text_inv_def sender_ok_def)
  then have x: "?x \<noteq> []" "length ?x \<le> TEXT_MAX" by auto
  obtain p where p: "pipe_write (channel s) ?x = Some p"
    "t = s\<lparr>channel := p, sent_lines := sent_lines s @ [cstr ?x], sender := WRead\<rparr>"
    using step n by (auto simp: sender_write_def peek_def split: option.splits)
  let ?d = "c\<lparr>unsent := typed_text s, travelling := buffered p\<rparr>"
  have "chan_step PIPE_CAP c ?d"
    using view pc by (intro pipe_write_channel [OF p(1) x(1)]) (simp_all add: text_view_def held_text_def)
  moreover have "shows_text (sent_lines t) (arrived c @ buffered p)"
    using shows_text_snoc [OF _ x, of "sent_lines s" "arrived c @ buffered (channel s)"] view p
      pipe.write_content [OF p(1)] by (simp add: text_view_def)
  then have "text_view t ?d"
    using view p(2) by (simp add: text_view_def held_text_def)
  ultimately show ?thesis by blast
qed

lemma receiver_read_view:
  assumes inv: "text_inv fifo inp s" and step: "receiver_read s = Inr t" and view: "text_view s c"
  shows "text_view t c \<or> (\<exists>d. chan_step PIPE_CAP c d \<and> text_view t d)"
proof -
  obtain x p where r: "pipe_read (channel s) TEXT_MAX = Some (x, p)"
    using step by (auto simp: receiver_read_def split: option.splits)
  show ?thesis
  proof (cases "x = []")
    case True
    then have "t = s\<lparr>receiver := REnd\<rparr>" using step r by (simp add: receiver_read_def)
    then show ?thesis by (intro disjI1 text_view_same [OF view]) (simp_all add: held_text_def)
  next
    case False
    have l: "length x \<le> TEXT_MAX" by (rule pipe.read_length [OF r])
    from fill_text_ok [OF l, of "receiver_buf s"] inv
    obtain b where b: "fill_text (receiver_buf s) x = Inr b" "format_s b = Inr (cstr x)"
      by (auto simp: text_inv_def sender_ok_def)
    then have t: "t = s\<lparr>channel := p, receiver_buf := b, received_lines := received_lines s @ [cstr x]\<rparr>"
      using step r False by (simp add: receiver_read_def)
    let ?d = "c\<lparr>travelling := buffered p, arrived := arrived c @ x\<rparr>"
    have "chan_step PIPE_CAP c ?d"
      using view by (intro pipe_read_channel [OF r False]) (simp add: text_view_def)
    moreover have "text_view t ?d"
      using view shows_text_snoc [OF _ False l] pipe.read_content [OF r]
      by (simp add: text_view_def t held_text_def)
    ultimately show ?thesis by blast
  qed
qed

lemma text_view_step:
  assumes inv: "text_inv fifo inp s" and step: "text_step fifo s t" and view: "text_view s c"
  shows "text_view t c \<or> (\<exists>d. chan_step PIPE_CAP c d \<and> text_view t d)"
  using step
proof (cases rule: text_step.cases)
  case both_open
  then show ?thesis by (intro disjI1 text_view_same [OF view]) (simp_all add: held_text_def)
next
  case sender_close
  then show ?thesis by (intro disjI1 text_view_same [OF view]) (simp_all add: held_text_def)
next
  case receiver_close
  then show ?thesis by (intro disjI1 text_view_same [OF view]) (simp_all add: held_text_def)
next
  case (s_read k)
  then show ?thesis using sender_read_view [OF inv _ _ view] by blast
next
  case (s_write n)
  then show ?thesis using sender_write_view [OF inv _ _ view] by blast
next
  case r_read
  then show ?thesis using receiver_read_view [OF inv _ view] by blast
next
  case (s_fault k e n)
  then show ?thesis
    using flows_sender_read [OF inv, of k] flows_sender_write [OF inv, of n] sender_waits [OF inv, of n]
    by (cases "length (buffered (channel s)) + n \<le> PIPE_CAP") (auto simp: flows_def)
next
  case (r_fault e)
  then show ?thesis
    using flows_receiver_read [OF inv] receiver_waits [of s] by (auto simp: flows_def)
qed

interpretation text_channel: medium
    "\<lambda>s. \<exists>b1 b2. length b1 = TEXT_MAX + 1 \<and> length b2 = TEXT_MAX + 1 \<and> s = text_start fifo b1 b2 inp"
    "text_step fifo" "text_inv fifo inp" PIPE_CAP inp text_view for fifo inp
proof unfold_locales
  show "text_view s (chan_start inp)"
    if "\<exists>b1 b2. length b1 = TEXT_MAX + 1 \<and> length b2 = TEXT_MAX + 1 \<and> s = text_start fifo b1 b2 inp" for s
    using that by (auto simp: text_view_def text_start_def held_text_def shows_text_def cut_as_def)
qed (rule text_view_step)

section \<open>Properties\<close>

text \<open>
  Over the pipe and over the FIFO, in every schedule and however the input is typed: every
  run is finite and can go on to the end of both processes; then what the receiver has
  shown is the input cut into pieces of at most 4095 bytes, each up to its first NUL
  byte, and so is what the sender has shown, cut in its own way.
\<close>

theorem text_arrives:
  assumes "length b1 = TEXT_MAX + 1" "length b2 = TEXT_MAX + 1"
    and "(text_step fifo ^^ n) (text_start fifo b1 b2 inp) s"
  shows "n \<le> 4 * length inp + 4 \<and> (\<exists>t. (text_step fifo)\<^sup>*\<^sup>* s t \<and> text_final t) \<and>
    (text_final s \<longrightarrow> (\<exists>raw. cut_as raw (received_lines s) \<and> concat raw = inp) \<and>
      (\<exists>raw. cut_as raw (sent_lines s) \<and> concat raw = inp))"
proof -
  have i0: "text_inv fifo inp (text_start fifo b1 b2 inp)" using assms(1,2) by (rule text_start_inv)
  have inv: "text_inv fifo inp s" using texts.steps_inv i0 assms(3) by (meson relpowp_imp_rtranclp)
  have "text_rank (text_start fifo b1 b2 inp) = 4 * length inp + 4"
    by (simp add: text_rank_def text_start_def held_text_def)
  then have "n \<le> 4 * length inp + 4" using texts.run_length [OF assms(3) i0] by simp
  moreover have "buffered (channel s) = []" "held_text s @ typed_text s = []" if "text_final s"
    using that inv by (auto simp: text_final_def text_inv_def ends_ok_def held_text_def)
  ultimately show ?thesis
    using texts.finishes_from [OF inv] inv by (auto simp: text_inv_def logs_ok_def)
qed

theorem text_arrives_witness:
  "\<exists>t. (text_step True)\<^sup>*\<^sup>* (text_start True (replicate (TEXT_MAX + 1) NUL) (replicate (TEXT_MAX + 1) NUL) ''hello'') t \<and>
    text_final t"
  using text_arrives [of "replicate (TEXT_MAX + 1) NUL" "replicate (TEXT_MAX + 1) NUL" 0 True "''hello''"] by auto

text \<open>
  Both programs refine the bounded channel of bytes: what the receiver has shown is what has
  arrived, cut into pieces, what the sender has shown is that and what still travels, cut in
  its own way, and never more than 65536 bytes travel.
\<close>

theorem text_refines_channel:
  assumes "length b1 = TEXT_MAX + 1" "length b2 = TEXT_MAX + 1"
    and "(text_step fifo)\<^sup>*\<^sup>* (text_start fifo b1 b2 inp) s"
  shows "\<exists>c. (chan_step PIPE_CAP)\<^sup>*\<^sup>* (chan_start inp) c \<and> travelling c = buffered (channel s) \<and>
    length (buffered (channel s)) \<le> PIPE_CAP \<and>
    arrived c @ buffered (channel s) @ held_text s @ typed_text s = inp \<and>
    shows_text (received_lines s) (arrived c) \<and> shows_text (sent_lines s) (arrived c @ buffered (channel s))"
proof -
  obtain c where "(chan_step PIPE_CAP)\<^sup>*\<^sup>* (chan_start inp) c" "text_view s c"
    "arrived c @ travelling c @ unsent c = inp" "length (travelling c) \<le> PIPE_CAP"
    using text_channel.carries assms by blast
  then show ?thesis unfolding text_view_def by (intro exI [of _ c]) auto
qed

theorem text_refines_channel_witness:
  "\<exists>c. (chan_step PIPE_CAP)\<^sup>*\<^sup>* (chan_start ''hi'') c \<and> travelling c = [] \<and> arrived c = []"
proof -
  let ?b = "replicate (TEXT_MAX + 1) NUL"
  from text_refines_channel [of ?b ?b False "''hi''" "text_start False ?b ?b ''hi''"]
  obtain c where "(chan_step PIPE_CAP)\<^sup>*\<^sup>* (chan_start ''hi'') c" "travelling c = []"
    "arrived c @ ''hi'' = ''hi''"
    by (auto simp: text_start_def held_text_def)
  then show ?thesis by auto
qed

end
