(* ===== verification/ListDir.thy ===== *)
theory ListDir
  imports CLib
begin

text \<open>
  The recursive listing of \<open>task_6/examples/5_listdir_recursively.c\<close>: a path buffer of fixed
  size in every activation of \<open>SearchDirectory\<close>, and one more open directory for each,
  since nothing is closed.  Directory trees are finite here: links that lead back are not
  modelled.
\<close>

section \<open>Directories and the program\<close>

definition PATH_SIZE :: nat where
  "PATH_SIZE = 4096"

text \<open>
  What \<open>readdir\<close> and \<open>stat\<close> say of an entry: a directory (whether it can be opened, and its
  entries in the order of \<open>readdir\<close>), a regular file, something else, or a failed \<open>stat\<close>.
\<close>

datatype node =
    Folder (node_name: string) bool "node list"
  | Regular (node_name: string)
  | Special (node_name: string)
  | Broken (node_name: string)

definition own_dots :: "string \<Rightarrow> bool" where
  "own_dots n \<longleftrightarrow> n = ''..'' \<or> n = ''.''"

text \<open>
  \<open>limit\<close> is the number of descriptors the process may have; the state is the number it
  has and the lines printed so far.
\<close>

type_synonym listing = "nat \<times> string list"

fun search_directory :: "nat \<Rightarrow> string \<Rightarrow> bool \<Rightarrow> node list \<Rightarrow> listing \<Rightarrow> listing result"
and search_entries :: "nat \<Rightarrow> string \<Rightarrow> node list \<Rightarrow> listing \<Rightarrow> listing result" where
  "search_directory limit name can_open es (fds, out) =
     (if \<not> can_open \<or> limit \<le> fds then Inr (fds, out)
      else if PATH_SIZE \<le> length name then Inl OutOfBounds
      else search_entries limit name es (fds + 1, out))"
| "search_entries limit base [] st = Inr st"
| "search_entries limit base (e # es) (fds, out) =
     (let path = base @ node_name e
      in if PATH_SIZE \<le> length path then Inl OutOfBounds
         else bindS
           (case e of
              Folder n can_open sub \<Rightarrow>
                if own_dots n then Inr (fds, out)
                else if PATH_SIZE \<le> length path + 1 then Inl OutOfBounds
                else search_directory limit (path @ ''/'') can_open sub (fds, out @ [''directory: '' @ path @ ''/''])
            | Regular n \<Rightarrow> Inr (fds, out @ [''reg_file: '' @ path])
            | Special n \<Rightarrow> Inr (fds, out)
            | Broken n \<Rightarrow> Inr (fds, out @ [''stat error on '' @ path]))
           (search_entries limit base es))"

text \<open>\<open>main\<close>: \<open>strcat(cwd, "/")\<close> in a buffer of the same size; descriptors 0 to 2 are open.\<close>

definition list_main :: "nat \<Rightarrow> string option \<Rightarrow> bool \<Rightarrow> node list \<Rightarrow> listing result" where
  "list_main limit cwd can_open es =
     (case cwd of
        None \<Rightarrow> Inr (3, [])
      | Some d \<Rightarrow> if PATH_SIZE \<le> length d + 1 then Inl OutOfBounds
                 else search_directory limit (d @ ''/'') can_open es (3, []))"

section \<open>The listing\<close>

text \<open>
  The lines of the entries below \<open>base\<close>, the directories that are opened, and the condition
  that every path on the way fits into the buffer.
\<close>

fun lines_in :: "string \<Rightarrow> node list \<Rightarrow> string list" where
  "lines_in base [] = []"
| "lines_in base (Folder n can_open sub # es) =
     (if own_dots n then []
      else (''directory: '' @ base @ n @ ''/'') # (if can_open then lines_in (base @ n @ ''/'') sub else [])) @
     lines_in base es"
| "lines_in base (Regular n # es) = (''reg_file: '' @ base @ n) # lines_in base es"
| "lines_in base (Special n # es) = lines_in base es"
| "lines_in base (Broken n # es) = (''stat error on '' @ base @ n) # lines_in base es"

fun folders_in :: "node list \<Rightarrow> nat" where
  "folders_in [] = 0"
| "folders_in (Folder n can_open sub # es) =
     (if own_dots n \<or> \<not> can_open then 0 else Suc (folders_in sub)) + folders_in es"
| "folders_in (e # es) = folders_in es"

fun fits_in :: "string \<Rightarrow> node list \<Rightarrow> bool" where
  "fits_in base [] \<longleftrightarrow> True"
| "fits_in base (Folder n can_open sub # es) \<longleftrightarrow>
     length (base @ n) + 1 < PATH_SIZE \<and> (own_dots n \<or> fits_in (base @ n @ ''/'') sub) \<and> fits_in base es"
| "fits_in base (e # es) \<longleftrightarrow> length (base @ node_name e) < PATH_SIZE \<and> fits_in base es"

lemma search_lists:
  "length name < PATH_SIZE \<Longrightarrow> fits_in name es \<Longrightarrow> can_open \<Longrightarrow> Suc (fst st + folders_in es) \<le> limit \<Longrightarrow>
     search_directory limit name can_open es st =
       Inr (Suc (fst st + folders_in es), snd st @ lines_in name es)"
  "fits_in base es \<Longrightarrow> fst st + folders_in es \<le> limit \<Longrightarrow>
     search_entries limit base es st = Inr (fst st + folders_in es, snd st @ lines_in base es)"
proof (induction limit name can_open es st and limit base es st rule: search_directory_search_entries.induct)
  case (3 limit base e es fds out)
  show ?case
  proof (cases e)
    case (Folder n can_open sub)
    show ?thesis
    proof (cases "own_dots n \<or> \<not> can_open")
      case True
      then show ?thesis using 3 Folder by (auto simp: Let_def)
    next
      case False
      then have "search_directory limit (base @ n @ ''/'') can_open sub (fds, out @ [''directory: '' @ base @ n @ ''/'']) =
          Inr (Suc (fds + folders_in sub), out @ [''directory: '' @ base @ n @ ''/''] @ lines_in (base @ n @ ''/'') sub)"
        using 3 Folder by (auto simp: Let_def)
      then show ?thesis using 3 Folder False by (auto simp: Let_def)
    qed
  qed (use 3 in \<open>auto simp: Let_def\<close>)
qed auto

text \<open>Never more directories are open than there are descriptors.\<close>

lemma search_limit:
  "search_directory limit name can_open es st = Inr st' \<Longrightarrow> fst st \<le> limit \<Longrightarrow> fst st \<le> fst st' \<and> fst st' \<le> limit"
  "search_entries limit base es st = Inr st' \<Longrightarrow> fst st \<le> limit \<Longrightarrow> fst st \<le> fst st' \<and> fst st' \<le> limit"
proof (induction limit name can_open es st and limit base es st arbitrary: st' and st'
    rule: search_directory_search_entries.induct)
  case (3 limit base e es fds out)
  let ?path = "base @ node_name e"
  have p: "\<not> PATH_SIZE \<le> length ?path" using "3.prems"(1) by (auto simp: Let_def split: if_splits)
  define r where "r = (case e of
      Folder n can_open sub \<Rightarrow>
        if own_dots n then Inr (fds, out)
        else if PATH_SIZE \<le> length ?path + 1 then Inl OutOfBounds
        else search_directory limit (?path @ ''/'') can_open sub (fds, out @ [''directory: '' @ ?path @ ''/''])
    | Regular n \<Rightarrow> Inr (fds, out @ [''reg_file: '' @ ?path])
    | Special n \<Rightarrow> Inr (fds, out)
    | Broken n \<Rightarrow> Inr (fds, out @ [''stat error on '' @ ?path]))"
  have "bindS r (search_entries limit base es) = Inr st'"
    using "3.prems"(1) p unfolding r_def by (simp add: Let_def)
  then obtain st1 where st1: "r = Inr st1" "search_entries limit base es st1 = Inr st'"
    by (auto simp: bindS_eq_Inr_iff)
  have "fds \<le> fst st1 \<and> fst st1 \<le> limit"
  proof (cases e)
    case (Folder n can_open sub)
    then show ?thesis
      using st1(1) "3.IH"(1) [OF refl p Folder, of st1] "3.prems"(2) by (auto simp: r_def split: if_splits)
  qed (use st1(1) "3.prems"(2) in \<open>auto simp: r_def\<close>)
  then show ?case using "3.IH"(2) [OF refl p st1(2)] by auto
qed (auto split: if_splits)

section \<open>What is in a tree\<close>

text \<open>The names that lead from a directory to a node below it.\<close>

inductive reaches :: "node list \<Rightarrow> string list \<Rightarrow> node \<Rightarrow> bool" where
  here: "e \<in> set es \<Longrightarrow> reaches es [node_name e] e"
| below: "Folder n True sub \<in> set es \<Longrightarrow> \<not> own_dots n \<Longrightarrow> reaches sub ns e \<Longrightarrow> reaches es (n # ns) e"

inductive_cases reachesE: "reaches es ns e"

fun path_text :: "string \<Rightarrow> string list \<Rightarrow> string" where
  "path_text base [] = base"
| "path_text base [n] = base @ n"
| "path_text base (n # ns) = path_text (base @ n @ ''/'') ns"

fun line_for :: "string \<Rightarrow> node \<Rightarrow> string option" where
  "line_for path (Folder n can_open sub) = (if own_dots n then None else Some (''directory: '' @ path @ ''/''))"
| "line_for path (Regular n) = Some (''reg_file: '' @ path)"
| "line_for path (Special n) = None"
| "line_for path (Broken n) = Some (''stat error on '' @ path)"

lemma reaches_mono: "reaches es ns e \<Longrightarrow> set es \<subseteq> set es' \<Longrightarrow> reaches es' ns e"
  by (erule reachesE) (auto intro: here, blast intro: below)

lemma reaches_path: "reaches es ns e \<Longrightarrow> ns \<noteq> []"
  by (auto elim: reachesE)

lemma path_text_Cons: "ns \<noteq> [] \<Longrightarrow> path_text base (n # ns) = path_text (base @ n @ ''/'') ns"
  by (cases ns) simp_all

lemma lines_found: "l \<in> set (lines_in base es) \<Longrightarrow> \<exists>ns e. reaches es ns e \<and> line_for (path_text base ns) e = Some l"
proof (induction base es rule: lines_in.induct)
  case (2 base n can_open sub es)
  let ?f = "Folder n can_open sub"
  consider "l \<in> set (lines_in base es)" | "\<not> own_dots n" "l = ''directory: '' @ base @ n @ ''/''"
    | "\<not> own_dots n" can_open "l \<in> set (lines_in (base @ n @ ''/'') sub)"
    using "2.prems" by (auto split: if_splits)
  then show ?case
  proof cases
    case 1
    then obtain ns e where e: "reaches es ns e" "line_for (path_text base ns) e = Some l" using "2.IH"(2) by blast
    then have "reaches (?f # es) ns e" using reaches_mono by (metis set_subset_Cons)
    with e(2) show ?thesis by blast
  next
    case 2
    then have "line_for (path_text base [n]) ?f = Some l" by simp
    moreover have "reaches (?f # es) [n] ?f" using reaches.here [of ?f "?f # es"] by simp
    ultimately show ?thesis by blast
  next
    case 3
    then obtain ns e where e: "reaches sub ns e" "line_for (path_text (base @ n @ ''/'') ns) e = Some l"
      using "2.IH"(1) by blast
    moreover have "reaches (?f # es) (n # ns) e" using 3 e(1) by (intro reaches.below) simp_all
    moreover have "path_text base (n # ns) = path_text (base @ n @ ''/'') ns"
      by (rule path_text_Cons [OF reaches_path [OF e(1)]])
    ultimately show ?thesis by metis
  qed
next
  case (3 base n es)
  show ?case
  proof (cases "l \<in> set (lines_in base es)")
    case True
    then show ?thesis using "3.IH" reaches_mono by (metis set_subset_Cons)
  next
    case False
    then have "line_for (path_text base [n]) (Regular n) = Some l" using "3.prems" by simp
    moreover have "reaches (Regular n # es) [n] (Regular n)" using reaches.here [of "Regular n" "Regular n # es"] by simp
    ultimately show ?thesis by blast
  qed
next
  case (4 base n es)
  then show ?case using reaches_mono by (metis lines_in.simps(4) set_subset_Cons)
next
  case (5 base n es)
  show ?case
  proof (cases "l \<in> set (lines_in base es)")
    case True
    then show ?thesis using "5.IH" reaches_mono by (metis set_subset_Cons)
  next
    case False
    then have "line_for (path_text base [n]) (Broken n) = Some l" using "5.prems" by simp
    moreover have "reaches (Broken n # es) [n] (Broken n)" using reaches.here [of "Broken n" "Broken n # es"] by simp
    ultimately show ?thesis by blast
  qed
qed simp

lemma lines_append: "lines_in base (es @ es') = lines_in base es @ lines_in base es'"
  by (induction base es rule: lines_in.induct) simp_all

text \<open>A line stands behind the line of the directory it is in.\<close>

definition after_parent :: "string \<Rightarrow> string list \<Rightarrow> string list \<Rightarrow> bool" where
  "after_parent base ns xs \<longleftrightarrow>
     (butlast ns \<noteq> [] \<longrightarrow> ''directory: '' @ path_text base (butlast ns) @ ''/'' \<in> set xs)"

lemma lines_split: "e \<in> set es \<Longrightarrow> \<exists>us vs. lines_in base es = us @ lines_in base [e] @ vs"
proof -
  assume "e \<in> set es"
  then obtain xs ys where "es = xs @ [e] @ ys" by (metis append_Cons append_Nil split_list)
  then show ?thesis by (auto simp only: lines_append)
qed

lemma lines_complete:
  "reaches es ns e \<Longrightarrow> line_for (path_text base ns) e = Some l \<Longrightarrow>
   \<exists>xs ys. lines_in base es = xs @ l # ys \<and> after_parent base ns xs"
proof (induction arbitrary: base rule: reaches.induct)
  case (here e es)
  have "\<exists>ys. lines_in base [e] = l # ys" using here(2) by (cases e) (auto split: if_splits)
  with lines_split [OF here(1), of base] show ?case by (auto simp: after_parent_def) blast
next
  case (below n sub es ns e)
  let ?b = "base @ n @ ''/''"
  have ns: "ns \<noteq> []" by (rule reaches_path [OF below(3)])
  then obtain xs ys where sub: "lines_in ?b sub = xs @ l # ys" "after_parent ?b ns xs"
    using below.IH [of ?b] below.prems by (auto simp: path_text_Cons)
  obtain us vs where "lines_in base es = us @ lines_in base [Folder n True sub] @ vs"
    using lines_split [OF below(1)] by blast
  then have "lines_in base es = (us @ (''directory: '' @ ?b) # xs) @ l # ys @ vs"
    using below(2) sub(1) by simp
  moreover have "after_parent base (n # ns) (us @ (''directory: '' @ ?b) # xs)"
    using ns sub(2) by (cases "butlast ns = []") (simp_all add: after_parent_def path_text_Cons)
  ultimately show ?case by blast
qed

section \<open>Properties\<close>

text \<open>
  C20. With a descriptor for every directory and paths that fit, the program prints a line for
  every directory, regular file and broken entry that can be reached, and no other, each
  behind the line of the directory it is in; and it keeps every directory open.
\<close>

theorem listing_complete:
  assumes "length d + 1 < PATH_SIZE" "fits_in (d @ ''/'') es" "4 + folders_in es \<le> limit"
  shows "\<exists>out. list_main limit (Some d) True es = Inr (4 + folders_in es, out) \<and>
    (\<forall>l \<in> set out. \<exists>ns e. reaches es ns e \<and> line_for (path_text (d @ ''/'') ns) e = Some l) \<and>
    (\<forall>ns e l. reaches es ns e \<and> line_for (path_text (d @ ''/'') ns) e = Some l \<longrightarrow>
      (\<exists>xs ys. out = xs @ l # ys \<and> after_parent (d @ ''/'') ns xs))"
proof -
  have "list_main limit (Some d) True es = Inr (4 + folders_in es, lines_in (d @ ''/'') es)"
    using search_lists(1) [of "d @ ''/''" es True "(3, [])" limit] assms by (simp add: list_main_def)
  moreover have "\<forall>l \<in> set (lines_in (d @ ''/'') es).
      \<exists>ns e. reaches es ns e \<and> line_for (path_text (d @ ''/'') ns) e = Some l"
    using lines_found by blast
  moreover have "\<forall>ns e l. reaches es ns e \<and> line_for (path_text (d @ ''/'') ns) e = Some l \<longrightarrow>
      (\<exists>xs ys. lines_in (d @ ''/'') es = xs @ l # ys \<and> after_parent (d @ ''/'') ns xs)"
    using lines_complete by blast
  ultimately show ?thesis by blast
qed

definition example_tree :: "node list" where
  "example_tree = [Folder ''.'' True [], Folder ''a'' True [Regular ''b''], Regular ''c'']"

theorem listing_complete_witness:
  "\<exists>xs ys. list_main 5 (Some ''/x'') True example_tree = Inr (5, xs @ ''reg_file: /x/a/b'' # ys) \<and>
     ''directory: /x/a/'' \<in> set xs"
proof -
  have r: "reaches [Regular ''b''] [''b''] (Regular ''b'')" using reaches.here [of "Regular ''b''"] by auto
  have e: "reaches example_tree [''a'', ''b''] (Regular ''b'')"
    by (rule reaches.below [OF _ _ r]) (simp_all add: example_tree_def own_dots_def)
  have f: "4 + folders_in example_tree = 5" by (simp add: example_tree_def own_dots_def)
  obtain out where out: "list_main 5 (Some ''/x'') True example_tree = Inr (4 + folders_in example_tree, out)"
    "\<forall>ns e l. reaches example_tree ns e \<and> line_for (path_text (''/x'' @ ''/'') ns) e = Some l \<longrightarrow>
      (\<exists>xs ys. out = xs @ l # ys \<and> after_parent (''/x'' @ ''/'') ns xs)"
    using listing_complete [of "''/x''" example_tree 5]
    by (auto simp: example_tree_def own_dots_def PATH_SIZE_def)
  have "line_for (path_text (''/x'' @ ''/'') [''a'', ''b'']) (Regular ''b'') = Some ''reg_file: /x/a/b''" by simp
  with e out(2) obtain xs ys where "out = xs @ ''reg_file: /x/a/b'' # ys"
    "after_parent (''/x'' @ ''/'') [''a'', ''b''] xs" by blast
  with out(1) show ?thesis unfolding f by (auto simp: after_parent_def)
qed

end
