(* ===== verification/Udp.thy ===== *)
theory Udp
  imports Kernel
begin

text \<open>
  One question and one answer over UDP, \<open>task_8/examples/udp_client.c\<close> and \<open>udp_serv.c\<close>: the
  client sends a greeting and waits five seconds at most, the server answers with the
  address it has seen.  The network may lose datagrams; when the client gives up is the
  scheduler's choice.
\<close>

section \<open>Receiving\<close>

definition MAXLINE :: nat where
  "MAXLINE = 1024"

text \<open>\<open>recvfrom\<close> stores \<open>MAXLINE\<close> bytes of a datagram at most; \<open>buffer[n] = '\0'\<close> follows.\<close>

definition take_datagram :: "bytes \<Rightarrow> bytes \<Rightarrow> bytes result" where
  "take_datagram buf d =
     bindS (poke buf 0 (take MAXLINE d)) (\<lambda>b.
     bindS (poke b (length (take MAXLINE d)) [NUL]) format_s)"

definition hello :: string where
  "hello = ''Hello from client''"

definition address_text :: "string \<Rightarrow> bytes" where
  "address_text addr = ''IP address is: '' @ addr @ [CHR 0x0A]"

text \<open>\<open>sprintf(str_addr, ...)\<close> into 256 bytes.\<close>

definition address_line :: "string \<Rightarrow> bytes result" where
  "address_line addr =
     (let s = address_text addr in if length s < 256 then Inr s else Inl OutOfBounds)"

section \<open>The two programs and the network\<close>

datatype udp_client_pc = USend | UWait | UEnd | UCrash
datatype udp_server_pc = URecv | UAnswer | UServed | UServerCrash

text \<open>
  \<open>socklen\<close> is what the client's variable \<open>len\<close> happens to hold, which is passed to \<open>recvfrom\<close> as
  the size of the address: a negative one makes the call fail.
\<close>

record udp =
  to_udp_server :: "bytes option"
  to_udp_client :: "bytes option"
  uclient :: udp_client_pc
  userver :: udp_server_pc
  client_buffer :: bytes
  server_buffer :: bytes
  socklen :: int
  client_output :: "bytes list"
  server_output :: "bytes list"

definition sent_note :: bytes where
  "sent_note = ''Hello message sent.''"

definition no_answer :: bytes where
  "no_answer = ''Empty sequence from server: no responce till timeout or wrong solver configuration''"

definition udp_client_send :: "udp \<Rightarrow> udp" where
  "udp_client_send s = s\<lparr>to_udp_server := Some hello, client_output := client_output s @ [sent_note],
     uclient := UWait\<rparr>"

text \<open>\<open>n < 1\<close>: a timeout, an error or an empty datagram.\<close>

definition udp_client_receive :: "udp \<Rightarrow> bytes option \<Rightarrow> udp result" where
  "udp_client_receive s got =
     (let nothing = s\<lparr>client_output := client_output s @ [no_answer], uclient := UEnd\<rparr>
      in case got of
           None \<Rightarrow> Inr nothing
         | Some d \<Rightarrow>
             if d = [] then Inr nothing
             else bindS (take_datagram (client_buffer s) d) (\<lambda>t.
                    Inr (s\<lparr>client_output := client_output s @ [''Server : '' @ t], uclient := UEnd\<rparr>)))"

definition udp_server_receive :: "udp \<Rightarrow> bytes \<Rightarrow> udp result" where
  "udp_server_receive s d =
     bindS (take_datagram (server_buffer s) d) (\<lambda>t.
       Inr (s\<lparr>server_output := server_output s @ [''Client : '' @ t], userver := UAnswer\<rparr>))"

definition udp_server_answer :: "string \<Rightarrow> udp \<Rightarrow> udp result" where
  "udp_server_answer addr s =
     bindS (address_line addr) (\<lambda>l.
       Inr (s\<lparr>to_udp_client := Some l, server_output := server_output s @ [sent_note],
              userver := UServed\<rparr>))"

text \<open>
  The setup: messages and exit code, \<open>None\<close> when the program goes on.  A failed
  \<open>setsockopt\<close> is only reported.
\<close>

definition udp_client_main :: "bool \<Rightarrow> bool \<Rightarrow> string list \<times> nat option" where
  "udp_client_main sock opt =
     (if \<not> sock then ([''socket creation failed''], Some 1)
      else (if opt then [] else [''Error''], None))"

definition udp_server_main :: "bool \<Rightarrow> bool \<Rightarrow> string list \<times> nat option" where
  "udp_server_main sock bound =
     (if \<not> sock then ([''socket creation failed''], Some 1)
      else if \<not> bound then ([''bind failed''], Some 1)
      else ([], None))"

text \<open>\<open>addr\<close> is the client's address as \<open>inet_ntoa\<close> writes it.\<close>

inductive udp_step :: "string \<Rightarrow> udp \<Rightarrow> udp \<Rightarrow> bool" for addr where
  send: "uclient s = USend \<Longrightarrow> udp_step addr s (udp_client_send s)"
| receive: "uclient s = UWait \<Longrightarrow> 0 \<le> socklen s \<Longrightarrow> to_udp_client s = Some d \<Longrightarrow>
     udp_client_receive (s\<lparr>to_udp_client := None\<rparr>) (Some d) = Inr t \<Longrightarrow> udp_step addr s t"
| give_up: "uclient s = UWait \<Longrightarrow> udp_client_receive s None = Inr t \<Longrightarrow> udp_step addr s t"
| client_fault: "uclient s = UWait \<Longrightarrow> to_udp_client s = Some d \<Longrightarrow> udp_client_receive s (Some d) = Inl e \<Longrightarrow>
     udp_step addr s (s\<lparr>uclient := UCrash\<rparr>)"
| serve: "userver s = URecv \<Longrightarrow> to_udp_server s = Some d \<Longrightarrow>
     udp_server_receive (s\<lparr>to_udp_server := None\<rparr>) d = Inr t \<Longrightarrow> udp_step addr s t"
| answer: "userver s = UAnswer \<Longrightarrow> udp_server_answer addr s = Inr t \<Longrightarrow> udp_step addr s t"
| server_fault: "userver s = URecv \<and> to_udp_server s = Some d \<and> udp_server_receive s d = Inl e \<or>
     userver s = UAnswer \<and> udp_server_answer addr s = Inl e \<Longrightarrow>
     udp_step addr s (s\<lparr>userver := UServerCrash\<rparr>)"
| lose: "to_udp_server s \<noteq> None \<Longrightarrow> udp_step addr s (s\<lparr>to_udp_server := None\<rparr>)"
| lose_answer: "to_udp_client s \<noteq> None \<Longrightarrow> udp_step addr s (s\<lparr>to_udp_client := None\<rparr>)"

inductive_cases udp_stepE: "udp_step addr s t"

definition udp_start :: "bytes \<Rightarrow> bytes \<Rightarrow> int \<Rightarrow> udp" where
  "udp_start cbuf sbuf junk =
     \<lparr>to_udp_server = None, to_udp_client = None, uclient = USend, userver = URecv, client_buffer = cbuf,
      server_buffer = sbuf, socklen = junk, client_output = [], server_output = []\<rparr>"

section \<open>What can happen\<close>

definition shown_answer :: "string \<Rightarrow> bytes" where
  "shown_answer addr = ''Server : '' @ address_text addr"

fun client_shown :: "string \<Rightarrow> int \<Rightarrow> udp_server_pc \<Rightarrow> udp_client_pc \<Rightarrow> bytes list \<Rightarrow> bool" where
  "client_shown addr junk v USend out \<longleftrightarrow> out = [] \<and> v = URecv"
| "client_shown addr junk v UWait out \<longleftrightarrow> out = [sent_note]"
| "client_shown addr junk v UEnd out \<longleftrightarrow> out = [sent_note, no_answer] \<or>
     out = [sent_note, shown_answer addr] \<and> 0 \<le> junk \<and> v = UServed"
| "client_shown addr junk v UCrash out \<longleftrightarrow> False"

fun server_shown :: "udp_server_pc \<Rightarrow> bytes list \<Rightarrow> bool" where
  "server_shown URecv out \<longleftrightarrow> out = []"
| "server_shown UAnswer out \<longleftrightarrow> out = [''Client : '' @ hello]"
| "server_shown UServed out \<longleftrightarrow> out = [''Client : '' @ hello, sent_note]"
| "server_shown UServerCrash out \<longleftrightarrow> False"

fun in_flight :: "string \<Rightarrow> udp_client_pc \<Rightarrow> udp_server_pc \<Rightarrow> bytes option \<Rightarrow> bytes option \<Rightarrow> bool" where
  "in_flight addr c v q a \<longleftrightarrow>
     (q = None \<or> q = Some hello \<and> v = URecv \<and> c \<noteq> USend) \<and>
     (a = None \<or> a = Some (address_text addr) \<and> v = UServed)"

definition udp_inv :: "string \<Rightarrow> int \<Rightarrow> udp \<Rightarrow> bool" where
  "udp_inv addr junk s \<longleftrightarrow>
     length (client_buffer s) = MAXLINE \<and> length (server_buffer s) = MAXLINE \<and> socklen s = junk \<and>
     in_flight addr (uclient s) (userver s) (to_udp_server s) (to_udp_client s) \<and>
     server_shown (userver s) (server_output s) \<and> client_shown addr junk (userver s) (uclient s) (client_output s)"

definition udp_final :: "udp \<Rightarrow> bool" where
  "udp_final s \<longleftrightarrow> uclient s = UEnd \<and> to_udp_server s = None \<and> to_udp_client s = None \<and> userver s \<noteq> UAnswer"

definition udp_rank :: "udp \<Rightarrow> nat" where
  "udp_rank s = (case uclient s of USend \<Rightarrow> 6 | UWait \<Rightarrow> 1 | _ \<Rightarrow> 0) +
     (case userver s of URecv \<Rightarrow> 4 | UAnswer \<Rightarrow> 3 | _ \<Rightarrow> 0) +
     (if to_udp_server s = None then 0 else 1) + (if to_udp_client s = None then 0 else 1)"

definition addr_ok :: "string \<Rightarrow> bool" where
  "addr_ok addr \<longleftrightarrow> length addr \<le> 15 \<and> NUL \<notin> set addr"

lemma take_datagram_text:
  assumes "NUL \<notin> set d" "length d < MAXLINE" "length buf = MAXLINE"
  shows "take_datagram buf d = Inr d"
proof -
  have "poke buf 0 d = Inr (d @ drop (length d) buf)" using assms by (simp add: poke_def)
  moreover have "poke (d @ drop (length d) buf) (length d) [NUL] = Inr (d @ NUL # drop (Suc (length d)) buf)"
    using assms by (simp add: poke_def)
  moreover have "format_s (d @ NUL # drop (Suc (length d)) buf) = Inr d" using assms(1) by (simp add: format_s_text)
  ultimately show ?thesis using assms(2) by (simp add: take_datagram_def)
qed

lemma long_datagram_overflows:
  assumes "length buf = MAXLINE" "MAXLINE \<le> length d"
  shows "take_datagram buf d = Inl OutOfBounds"
proof -
  have "poke buf 0 (take MAXLINE d) = Inr (take MAXLINE d)" using assms by (simp add: poke_def)
  moreover have "poke (take MAXLINE d) (length (take MAXLINE d)) [NUL] = Inl OutOfBounds" by (simp add: poke_def)
  ultimately show ?thesis by (simp add: take_datagram_def)
qed

lemma address_fits: "addr_ok addr \<Longrightarrow> address_line addr = Inr (address_text addr)"
  by (simp add: addr_ok_def address_line_def address_text_def)

lemma udp_texts:
  "length buf = MAXLINE \<Longrightarrow> take_datagram buf hello = Inr hello"
  "addr_ok addr \<Longrightarrow> length buf = MAXLINE \<Longrightarrow>
     take_datagram buf (address_text addr) = Inr (address_text addr)"
  by (rule take_datagram_text; simp add: hello_def MAXLINE_def addr_ok_def address_text_def)+

lemma client_shown_serve:
  "client_shown addr junk URecv c out \<Longrightarrow> c \<noteq> USend \<Longrightarrow> client_shown addr junk UAnswer c out"
  "client_shown addr junk UAnswer c out \<Longrightarrow> client_shown addr junk UServed c out"
  by (cases c; simp)+

lemma udp_step_shape:
  assumes "addr_ok addr" "udp_inv addr junk s" "udp_step addr s t"
  shows "uclient s = USend \<and> t = udp_client_send s \<or>
    uclient s = UWait \<and> 0 \<le> junk \<and> to_udp_client s \<noteq> None \<and> userver s = UServed \<and>
      t = s\<lparr>to_udp_client := None, client_output := client_output s @ [shown_answer addr], uclient := UEnd\<rparr> \<or>
    uclient s = UWait \<and> t = s\<lparr>client_output := client_output s @ [no_answer], uclient := UEnd\<rparr> \<or>
    userver s = URecv \<and> uclient s \<noteq> USend \<and> to_udp_server s \<noteq> None \<and>
      t = s\<lparr>to_udp_server := None, server_output := server_output s @ [''Client : '' @ hello], userver := UAnswer\<rparr> \<or>
    userver s = UAnswer \<and>
      t = s\<lparr>to_udp_client := Some (address_text addr), server_output := server_output s @ [sent_note], userver := UServed\<rparr> \<or>
    to_udp_server s \<noteq> None \<and> t = s\<lparr>to_udp_server := None\<rparr> \<or>
    to_udp_client s \<noteq> None \<and> t = s\<lparr>to_udp_client := None\<rparr>"
  using assms(3)
proof (cases rule: udp_step.cases)
  case (receive d)
  then have d: "d = address_text addr" "userver s = UServed" "socklen s = junk"
    using assms(2) by (auto simp: udp_inv_def)
  have "take_datagram (client_buffer s) d = Inr d"
    using udp_texts(2) [OF assms(1)] assms(2) by (simp add: d udp_inv_def)
  then have "t = s\<lparr>to_udp_client := None, client_output := client_output s @ [shown_answer addr], uclient := UEnd\<rparr>"
    using receive(4) d by (simp add: udp_client_receive_def Let_def shown_answer_def address_text_def)
  then show ?thesis using receive d by simp
next
  case give_up
  then show ?thesis by (simp add: udp_client_receive_def Let_def)
next
  case (client_fault d e)
  then have "d = address_text addr" "length (client_buffer s) = MAXLINE"
    using assms(2) by (auto simp: udp_inv_def)
  then show ?thesis using client_fault(4) udp_texts(2) [OF assms(1)] by (simp add: udp_client_receive_def Let_def split: if_splits)
next
  case (serve d)
  then have d: "d = hello" "length (server_buffer s) = MAXLINE" "uclient s \<noteq> USend"
    using assms(2) by (auto simp: udp_inv_def)
  then have "t = s\<lparr>to_udp_server := None, server_output := server_output s @ [''Client : '' @ hello], userver := UAnswer\<rparr>"
    using serve(3) by (simp add: udp_server_receive_def udp_texts(1))
  then show ?thesis using serve d by simp
next
  case answer
  then show ?thesis using address_fits [OF assms(1)] by (simp add: udp_server_answer_def)
next
  case (server_fault d e)
  then show ?thesis
    using assms(2) address_fits [OF assms(1)]
    by (auto simp: udp_inv_def udp_server_receive_def udp_server_answer_def udp_texts(1))
qed simp_all

lemma udp_inv_step:
  assumes "addr_ok addr" "udp_inv addr junk s" "udp_step addr s t"
  shows "udp_inv addr junk t \<and> udp_rank t < udp_rank s"
  using udp_step_shape [OF assms] assms(2)
  by (elim disjE conjE)
    (auto simp: udp_inv_def udp_rank_def udp_client_send_def client_shown_serve)

lemma udp_progress:
  assumes "addr_ok addr" "udp_inv addr junk s" "\<not> udp_final s"
  shows "\<exists>t. udp_step addr s t"
proof -
  consider "uclient s = USend" | "uclient s = UWait" | "to_udp_server s \<noteq> None" | "to_udp_client s \<noteq> None"
    | "userver s = UAnswer"
    using assms(2,3) by (cases "uclient s") (auto simp: udp_inv_def udp_final_def)
  then show ?thesis
  proof cases
    case 2
    have "udp_client_receive s None = Inr (s\<lparr>client_output := client_output s @ [no_answer], uclient := UEnd\<rparr>)"
      by (simp add: udp_client_receive_def Let_def)
    with 2 show ?thesis by (blast intro: udp_step.give_up)
  next
    case 5
    have "\<exists>t. udp_server_answer addr s = Inr t" by (simp add: udp_server_answer_def address_fits [OF assms(1)])
    with 5 show ?thesis by (blast intro: udp_step.answer)
  qed (blast intro: udp_step.send udp_step.lose udp_step.lose_answer)+
qed

lemma udp_start_inv:
  "length cbuf = MAXLINE \<Longrightarrow> length sbuf = MAXLINE \<Longrightarrow> udp_inv addr junk (udp_start cbuf sbuf junk)"
  by (simp add: udp_inv_def udp_start_def)

interpretation datagrams: live_inv "\<lambda>s. addr_ok addr \<and>
      (\<exists>c b. length c = MAXLINE \<and> length b = MAXLINE \<and> s = udp_start c b junk)" "udp_step addr"
    "\<lambda>s. addr_ok addr \<and> udp_inv addr junk s" udp_final udp_rank for addr junk
  using udp_start_inv udp_inv_step udp_progress by unfold_locales blast+

section \<open>Properties\<close>

text \<open>
  Every run is finite and can end; then the client has shown either the answer, which needs
  a server that served and a variable \<open>len\<close> that is not negative, or that there was none;
  and a server that got nothing waits for ever.
\<close>

theorem udp_outcomes:
  assumes "addr_ok addr" "length cbuf = MAXLINE" "length sbuf = MAXLINE"
    and "(udp_step addr ^^ n) (udp_start cbuf sbuf junk) s"
  shows "n \<le> 10 \<and> (\<exists>t. (udp_step addr)\<^sup>*\<^sup>* s t \<and> udp_final t) \<and>
    (udp_final s \<longrightarrow> (client_output s = [sent_note, no_answer] \<or>
        client_output s = [sent_note, shown_answer addr] \<and> 0 \<le> junk \<and> userver s = UServed) \<and>
      (userver s = UServed \<or> userver s = URecv \<and> server_output s = []))"
proof -
  have i0: "addr_ok addr \<and> udp_inv addr junk (udp_start cbuf sbuf junk)" using assms(1-3) udp_start_inv by blast
  have inv: "addr_ok addr \<and> udp_inv addr junk s"
    using datagrams.steps_inv i0 assms(4) by (meson relpowp_imp_rtranclp)
  have "udp_rank (udp_start cbuf sbuf junk) = 10" by (simp add: udp_rank_def udp_start_def)
  then have "n \<le> 10" using datagrams.run_length [OF assms(4) i0] by simp
  moreover have "\<exists>t. (udp_step addr)\<^sup>*\<^sup>* s t \<and> udp_final t" using datagrams.finishes_from [OF inv] by blast
  ultimately show ?thesis using inv by (cases "userver s") (auto simp: udp_inv_def udp_final_def)
qed

theorem udp_outcomes_witness:
  "\<exists>t. (udp_step ''127.0.0.1'')\<^sup>*\<^sup>* (udp_start (replicate MAXLINE NUL) (replicate MAXLINE NUL) 16) t \<and> udp_final t"
  using udp_outcomes [of "''127.0.0.1''" "replicate MAXLINE NUL" "replicate MAXLINE NUL" 0]
  by (auto simp: addr_ok_def)

end
