(* ===== verification/Processes.thy ===== *)
theory Processes
  imports Prelude
begin

text \<open>
  Child processes: \<open>fork\<close>, \<open>exit\<close>, \<open>wait\<close> and who inherits an orphan, in four examples.
  \<open>task_1/examples/2_fork_wait_exit.c\<close> asks its child to be killed, \<open>3_reap_zombies.c\<close> collects
  ten children, \<open>4_exec_dir.c\<close> waits for \<open>ls\<close>, and \<open>task_6/examples/8_prctl_set_subreaper.c\<close> waits for a
  grandchild as well.  Which process runs next, and whether a \<open>fork\<close> fails, is open.
\<close>

section \<open>Waiting\<close>

datatype life = NotBorn | Alive | Zombie | Reaped

text \<open>
  What \<open>wait\<close> may return for the children it is asked for: one of those that have ended, or
  -1 (\<open>None\<close>) when there are none any more.  No result: the call waits.
\<close>

definition wait_results :: "'c list \<Rightarrow> ('c \<Rightarrow> life) \<Rightarrow> ('c \<Rightarrow> bool) \<Rightarrow> 'c option list" where
  "wait_results cs lives asked =
     (let mine = filter asked cs; ended = filter (\<lambda>c. lives c = Zombie) mine
      in if ended \<noteq> [] then map Some ended
         else if list_ex (\<lambda>c. lives c = Alive) mine then []
         else [None])"

fun collect :: "'c option \<Rightarrow> ('c \<Rightarrow> life) \<Rightarrow> 'c \<Rightarrow> life" where
  "collect None lives = lives"
| "collect (Some c) lives = lives(c := Reaped)"

lemma wait_results_Some:
  "Some c \<in> set (wait_results cs lives asked) \<longleftrightarrow> c \<in> set cs \<and> asked c \<and> lives c = Zombie"
  by (auto simp: wait_results_def Let_def filter_empty_conv)

lemma wait_results_None:
  "None \<in> set (wait_results cs lives asked) \<longleftrightarrow>
     (\<forall>c \<in> set cs. asked c \<longrightarrow> lives c \<noteq> Alive \<and> lives c \<noteq> Zombie)"
  by (auto simp: wait_results_def Let_def filter_empty_conv list_ex_iff)

lemma wait_results_waits:
  "wait_results cs lives asked = [] \<longleftrightarrow>
     (\<exists>c \<in> set cs. asked c \<and> lives c = Alive) \<and> (\<forall>c \<in> set cs. asked c \<longrightarrow> lives c \<noteq> Zombie)"
  by (auto simp: wait_results_def Let_def filter_empty_conv list_ex_iff)

lemmas wait_facts = wait_results_Some wait_results_None

section \<open>A child that asks (2\_fork\_wait\_exit.c)\<close>

definition tolower :: "char \<Rightarrow> char" where
  "tolower c = (let n = of_char c :: nat in if 65 \<le> n \<and> n \<le> 90 then char_of (n + 32) else c)"

text \<open>
  The number of questions until the answer is \<open>y\<close>.  At the end of the input \<open>scanf\<close> leaves
  \<open>c\<close> as it is, so that the loop never ends: \<open>None\<close>.
\<close>

fun kill_me :: "string \<Rightarrow> nat option" where
  "kill_me [] = None"
| "kill_me (x # xs) = (if tolower x = CHR ''y'' then Some 1 else map_option Suc (kill_me xs))"

definition exit_status :: "nat \<Rightarrow> nat" where
  "exit_status code = (code mod 256) * 256"

definition WEXITSTATUS :: "nat \<Rightarrow> nat" where
  "WEXITSTATUS status = (status div 256) mod 256"

text \<open>
  The questions of the child and the code the parent shows, none when \<open>fork\<close> failed;
  \<open>None\<close>: both never end.
\<close>

definition kill_main :: "bool \<Rightarrow> string \<Rightarrow> (nat \<times> nat option) option" where
  "kill_main forked inp =
     (if forked then map_option (\<lambda>n. (n, Some (WEXITSTATUS (exit_status 42)))) (kill_me inp)
      else Some (0, None))"

lemma kill_me_Some:
  "kill_me inp = Some n \<longleftrightarrow> 0 < n \<and> n \<le> length inp \<and> tolower (inp ! (n - 1)) = CHR ''y'' \<and>
     (\<forall>i < n - 1. tolower (inp ! i) \<noteq> CHR ''y'')"
proof (induction inp arbitrary: n)
  case (Cons x xs)
  show ?case
  proof (cases n)
    case (Suc k)
    have "(\<forall>i < k. tolower ((x # xs) ! i) \<noteq> CHR ''y'') \<longleftrightarrow>
        k = 0 \<or> tolower x \<noteq> CHR ''y'' \<and> (\<forall>i < k - 1. tolower (xs ! i) \<noteq> CHR ''y'')"
      by (cases k) (auto simp: less_Suc_eq_0_disj)
    then show ?thesis using Cons.IH [of k] Suc by (cases k) auto
  qed (auto split: if_splits)
qed auto

text \<open>The pair ends exactly when somebody answers \<open>y\<close>, after a question per character read, and the code arrives.\<close>

lemma kill_main_ends:
  "kill_main True inp = Some (n, c) \<longleftrightarrow> c = Some 42 \<and> kill_me inp = Some n"
  "kill_main True inp = None \<longleftrightarrow> (\<forall>c \<in> set inp. tolower c \<noteq> CHR ''y'')"
proof -
  show "kill_main True inp = Some (n, c) \<longleftrightarrow> c = Some 42 \<and> kill_me inp = Some n"
    by (auto simp: kill_main_def exit_status_def WEXITSTATUS_def)
  show "kill_main True inp = None \<longleftrightarrow> (\<forall>c \<in> set inp. tolower c \<noteq> CHR ''y'')"
    by (induction inp) (auto simp: kill_main_def)
qed

section \<open>Ten children (3\_reap\_zombies.c)\<close>

definition KIDS :: nat where
  "KIDS = 10"

text \<open>\<open>Forking n\<close>, \<open>Reaping n\<close>: \<open>n\<close> rounds of the first or of the second loop are left, \<open>i = n - 1\<close>.\<close>

datatype reap_pc = Forking nat | Reaping nat

record reap =
  pids :: "int list"
  kids :: "nat \<Rightarrow> life"
  reap_pc :: reap_pc
  said :: "nat list"
  waited :: "nat option list"

definition fork_kid :: "(nat \<Rightarrow> int) \<Rightarrow> nat \<Rightarrow> bool \<Rightarrow> reap \<Rightarrow> reap" where
  "fork_kid pid i ok s =
     s\<lparr>pids := (pids s)[i := (if ok then pid i else -1)],
       kids := (if ok then (kids s)(i := Alive) else kids s), reap_pc := Forking i\<rparr>"

text \<open>The child sleeps, shows its number and exits.\<close>

definition kid_ends :: "nat \<Rightarrow> reap \<Rightarrow> reap" where
  "kid_ends j s = s\<lparr>kids := (kids s)(j := Zombie), said := said s @ [j]\<rparr>"

text \<open>\<open>waitpid(pids[i], NULL, 0)\<close>, where -1 asks for any child.\<close>

definition kid_waits :: "(nat \<Rightarrow> int) \<Rightarrow> nat \<Rightarrow> reap \<Rightarrow> nat option list" where
  "kid_waits pid i s = wait_results [0..<KIDS] (kids s) (\<lambda>j. pids s ! i = -1 \<or> pids s ! i = pid j)"

definition kid_collected :: "nat \<Rightarrow> nat option \<Rightarrow> reap \<Rightarrow> reap" where
  "kid_collected i r s = s\<lparr>kids := collect r (kids s), reap_pc := Reaping i, waited := waited s @ [r]\<rparr>"

inductive reap_step :: "(nat \<Rightarrow> int) \<Rightarrow> reap \<Rightarrow> reap \<Rightarrow> bool" for pid where
  fork: "reap_pc s = Forking (Suc i) \<Longrightarrow> reap_step pid s (fork_kid pid i ok s)"
| forked: "reap_pc s = Forking 0 \<Longrightarrow> reap_step pid s (s\<lparr>reap_pc := Reaping KIDS\<rparr>)"
| ends: "kids s j = Alive \<Longrightarrow> reap_step pid s (kid_ends j s)"
| wait: "reap_pc s = Reaping (Suc i) \<Longrightarrow> r \<in> set (kid_waits pid i s) \<Longrightarrow>
     reap_step pid s (kid_collected i r s)"

definition reap_start :: "int list \<Rightarrow> reap" where
  "reap_start junk = \<lparr>pids = junk, kids = (\<lambda>_. NotBorn), reap_pc = Forking KIDS, said = [], waited = []\<rparr>"

definition pid_ok :: "(nat \<Rightarrow> int) \<Rightarrow> bool" where
  "pid_ok pid \<longleftrightarrow> inj_on pid {..<KIDS} \<and> (\<forall>j < KIDS. 0 < pid j)"

definition all_born :: "(nat \<Rightarrow> life) \<Rightarrow> bool" where
  "all_born l \<longleftrightarrow> (\<forall>j < KIDS. l j \<noteq> NotBorn)"

definition kid_forked :: "(nat \<Rightarrow> int) \<Rightarrow> reap \<Rightarrow> nat \<Rightarrow> bool" where
  "kid_forked pid s j \<longleftrightarrow>
     (if kids s j = NotBorn then pids s ! j = -1 else pids s ! j = pid j)"

fun reap_at :: "(nat \<Rightarrow> int) \<Rightarrow> reap \<Rightarrow> reap_pc \<Rightarrow> bool" where
  "reap_at pid s (Forking k) \<longleftrightarrow> k \<le> KIDS \<and> (\<forall>j < k. kids s j = NotBorn) \<and>
     (\<forall>j < KIDS. k \<le> j \<longrightarrow> kid_forked pid s j) \<and> (\<forall>j. kids s j \<noteq> Reaped) \<and> waited s = []"
| "reap_at pid s (Reaping k) \<longleftrightarrow> k \<le> KIDS \<and> (\<forall>j < KIDS. kid_forked pid s j) \<and>
     (\<forall>j < KIDS. k \<le> j \<longrightarrow> kids s j = NotBorn \<or> kids s j = Reaped) \<and>
     (all_born (kids s) \<longrightarrow>
        waited s = map Some (rev [k..<KIDS]) \<and> (\<forall>j < k. kids s j \<noteq> Reaped))"

definition reap_inv :: "(nat \<Rightarrow> int) \<Rightarrow> reap \<Rightarrow> bool" where
  "reap_inv pid s \<longleftrightarrow> length (pids s) = KIDS \<and> (\<forall>j \<ge> KIDS. kids s j = NotBorn) \<and> reap_at pid s (reap_pc s) \<and>
     distinct (said s) \<and> set (said s) = {j. kids s j = Zombie \<or> kids s j = Reaped}"

definition reap_final :: "reap \<Rightarrow> bool" where
  "reap_final s \<longleftrightarrow> reap_pc s = Reaping 0"

definition sleeping :: "(nat \<Rightarrow> life) \<Rightarrow> nat set" where
  "sleeping l = {j. j < KIDS \<and> l j = Alive}"

definition reap_rank :: "reap \<Rightarrow> nat" where
  "reap_rank s = (case reap_pc s of Forking k \<Rightarrow> 2 * k + KIDS + 1 | Reaping k \<Rightarrow> k) + card (sleeping (kids s))"

lemma all_born_upd: "l j \<noteq> NotBorn \<Longrightarrow> x \<noteq> NotBorn \<Longrightarrow> all_born (l(j := x)) = all_born l"
  by (auto simp: all_born_def)

lemma sleeping_finite [simp]: "finite (sleeping l)"
  by (simp add: sleeping_def)

lemma sleeping_wakes: "j < KIDS \<Longrightarrow> l j = Alive \<Longrightarrow> x \<noteq> Alive \<Longrightarrow> card (sleeping (l(j := x))) < card (sleeping l)"
  by (rule psubset_card_mono) (auto simp: sleeping_def)

lemma sleeping_born: "card (sleeping (l(j := Alive))) \<le> Suc (card (sleeping l))"
proof -
  have "sleeping (l(j := Alive)) \<subseteq> insert j (sleeping l)" by (auto simp: sleeping_def)
  then have "card (sleeping (l(j := Alive))) \<le> card (insert j (sleeping l))" by (intro card_mono) simp_all
  then show ?thesis by (simp add: card_insert_if split: if_splits)
qed

lemma sleeping_collect: "r \<in> set (wait_results cs l a) \<Longrightarrow> sleeping (collect r l) = sleeping l"
  by (cases r) (auto simp: sleeping_def wait_facts)

lemma fork_kid_inv:
  assumes "reap_inv pid s" "reap_pc s = Forking (Suc i)"
  shows "reap_inv pid (fork_kid pid i ok s) \<and> reap_rank (fork_kid pid i ok s) < reap_rank s"
proof -
  have i: "i < KIDS" and l: "length (pids s) = KIDS" and n: "kids s i = NotBorn" using assms by (auto simp: reap_inv_def)
  have "reap_at pid (fork_kid pid i ok s) (Forking i)"
    using assms i l n by (auto simp: reap_inv_def fork_kid_def kid_forked_def nth_list_update)
  moreover have "reap_rank (fork_kid pid i ok s) < reap_rank s"
    using sleeping_born [of "kids s" i] assms(2) by (auto simp: reap_rank_def fork_kid_def)
  ultimately show ?thesis using assms i n by (auto simp: reap_inv_def fork_kid_def)
qed

lemma kid_ends_inv:
  assumes "reap_inv pid s" "kids s j = Alive"
  shows "reap_inv pid (kid_ends j s) \<and> reap_rank (kid_ends j s) < reap_rank s"
proof -
  have j: "j < KIDS" using assms by (metis reap_inv_def not_less life.distinct(1))
  have "kid_forked pid (kid_ends j s) i = kid_forked pid s i" for i
    using assms(2) by (simp add: kid_forked_def kid_ends_def)
  moreover have "reap_at pid s (reap_pc s) \<Longrightarrow> reap_at pid (kid_ends j s) (reap_pc s)"
    using assms(2) calculation all_born_upd [of "kids s" j Zombie] by (cases "reap_pc s") (auto simp: kid_ends_def)
  moreover have "reap_rank (kid_ends j s) < reap_rank s"
    using sleeping_wakes [of j "kids s" Zombie] j assms(2) by (simp add: reap_rank_def kid_ends_def)
  ultimately show ?thesis using assms j by (auto simp: reap_inv_def kid_ends_def)
qed

lemma kid_asked:
  assumes "pid_ok pid" "kid_forked pid s i" "i < KIDS" "j < KIDS" "kids s i \<noteq> NotBorn"
  shows "pids s ! i = -1 \<or> pids s ! i = pid j \<longleftrightarrow> j = i"
proof -
  have "0 < pid i" using assms(1,3) by (simp add: pid_ok_def)
  moreover have "pid i = pid j \<longleftrightarrow> i = j" using assms(1,3,4) by (auto simp: pid_ok_def dest: inj_onD)
  ultimately show ?thesis using assms(2,5) by (auto simp: kid_forked_def)
qed

lemma collect_NotBorn:
  "r \<in> set (wait_results cs l a) \<Longrightarrow> collect r l j = NotBorn \<longleftrightarrow> l j = NotBorn"
  by (cases r) (auto simp: wait_facts)

lemma kid_collected_at:
  assumes "pid_ok pid" "reap_at pid s (Reaping (Suc i))" "r \<in> set (kid_waits pid i s)"
  shows "reap_at pid (kid_collected i r s) (Reaping i)"
proof -
  have i: "i < KIDS" and f: "kid_forked pid s i" using assms(2) by auto
  have nb: "collect r (kids s) j = NotBorn \<longleftrightarrow> kids s j = NotBorn" for j
    using collect_NotBorn assms(3) unfolding kid_waits_def .
  have past: "collect r (kids s) j = NotBorn \<or> collect r (kids s) j = Reaped"
    if "kids s j = NotBorn \<or> kids s j = Reaped" for j
    using that assms(3) by (cases r rule: option.exhaust) (auto simp: kid_waits_def wait_facts)
  have own: "r = Some i \<or> r = None \<and> kids s i = Reaped" if "kids s i \<noteq> NotBorn"
  proof (cases r)
    case None
    then have "kids s i \<noteq> Alive \<and> kids s i \<noteq> Zombie"
      using assms(3) i kid_asked [OF assms(1) f i i that] by (auto simp: kid_waits_def wait_facts)
    then show ?thesis using None that by (cases "kids s i") auto
  next
    case (Some j)
    then show ?thesis
      using assms(3) kid_asked [OF assms(1) f i _ that, of j] by (simp add: kid_waits_def wait_facts)
  qed
  have now: "collect r (kids s) i = NotBorn \<or> collect r (kids s) i = Reaped"
    using own by (cases "kids s i = NotBorn") (auto simp: nb)
  have all: "waited s @ [r] = map Some (rev [i..<KIDS]) \<and> (\<forall>j < i. collect r (kids s) j \<noteq> Reaped)"
    if "all_born (kids s)"
  proof -
    have "r = Some i" using own that i assms(2) by (auto simp: all_born_def)
    then show ?thesis using that i assms(2) by (auto simp: upt_conv_Cons)
  qed
  have old: "kids s j = NotBorn \<or> kids s j = Reaped" if "j < KIDS" "Suc i \<le> j" for j
    using assms(2) that by simp
  have "collect r (kids s) j = NotBorn \<or> collect r (kids s) j = Reaped" if "j < KIDS" "i \<le> j" for j
    using now past old that by (cases "j = i") (auto simp: Suc_le_eq)
  moreover have "kid_forked pid (kid_collected i r s) j" if "j < KIDS" for j
    using assms(2) that nb by (simp add: kid_forked_def kid_collected_def)
  moreover have "all_born (collect r (kids s)) = all_born (kids s)" by (simp add: all_born_def nb)
  ultimately show ?thesis using i all by (simp add: kid_collected_def)
qed

lemma kid_collected_inv:
  assumes "pid_ok pid" "reap_inv pid s" "reap_pc s = Reaping (Suc i)" "r \<in> set (kid_waits pid i s)"
  shows "reap_inv pid (kid_collected i r s) \<and> reap_rank (kid_collected i r s) < reap_rank s"
proof -
  have "reap_at pid (kid_collected i r s) (Reaping i)"
    using kid_collected_at assms by (simp add: reap_inv_def)
  moreover have "sleeping (collect r (kids s)) = sleeping (kids s)"
    using sleeping_collect assms(4) unfolding kid_waits_def .
  moreover have "(collect r (kids s) j = NotBorn) = (kids s j = NotBorn)" for j
    using collect_NotBorn assms(4) unfolding kid_waits_def .
  moreover have "collect r (kids s) j = Zombie \<or> collect r (kids s) j = Reaped \<longleftrightarrow> kids s j = Zombie \<or> kids s j = Reaped" for j
    using assms(4) by (cases r rule: option.exhaust) (auto simp: kid_waits_def wait_facts)
  ultimately show ?thesis
    using assms(2,3) unfolding reap_inv_def by (simp add: kid_collected_def reap_rank_def)
qed

lemma reap_step_inv:
  assumes "pid_ok pid" "reap_inv pid s" "reap_step pid s t"
  shows "reap_inv pid t \<and> reap_rank t < reap_rank s"
  using assms(3)
proof (cases rule: reap_step.cases)
  case (fork i ok)
  then show ?thesis using fork_kid_inv assms(2) by blast
next
  case forked
  then show ?thesis
    using assms(2) by (auto simp: reap_inv_def reap_rank_def kid_forked_def all_born_def KIDS_def)
next
  case (ends j)
  then show ?thesis using kid_ends_inv assms(2) by blast
next
  case (wait i r)
  then show ?thesis using kid_collected_inv assms(1,2) by blast
qed

lemma reap_progress:
  assumes "reap_inv pid s" "\<not> reap_final s"
  shows "\<exists>t. reap_step pid s t"
proof (cases "reap_pc s")
  case (Forking k)
  then show ?thesis by (cases k) (blast intro: reap_step.fork reap_step.forked)+
next
  case (Reaping k)
  then obtain i where i: "reap_pc s = Reaping (Suc i)" using assms(2) by (cases k) (auto simp: reap_final_def)
  show ?thesis
  proof (cases "kid_waits pid i s")
    case Nil
    then show ?thesis by (auto simp: kid_waits_def wait_results_waits intro: reap_step.ends)
  next
    case (Cons r rs)
    then show ?thesis using reap_step.wait [OF i, of r pid] by auto
  qed
qed

lemma reap_start_inv: "length junk = KIDS \<Longrightarrow> reap_inv pid (reap_start junk)"
  by (simp add: reap_inv_def reap_start_def)

interpretation reaping: live_inv "\<lambda>s. pid_ok pid \<and> (\<exists>junk. length junk = KIDS \<and> s = reap_start junk)"
    "reap_step pid" "\<lambda>s. pid_ok pid \<and> reap_inv pid s" reap_final reap_rank for pid
  using reap_start_inv reap_step_inv reap_progress by unfold_locales blast+

text \<open>
  Every run takes at most 31 moves and can be brought to its end, whichever forks fail; then
  no child is left over, those that were made are exactly those that showed their number, and when
  all were made they were collected in the order in which they were made.
\<close>

theorem all_children_reaped:
  assumes "pid_ok pid" "length junk = KIDS" "(reap_step pid ^^ n) (reap_start junk) s"
  shows "n \<le> 31 \<and> (\<exists>t. (reap_step pid)\<^sup>*\<^sup>* s t \<and> reap_final t) \<and>
    (reap_final s \<longrightarrow> (\<forall>j. kids s j = NotBorn \<or> kids s j = Reaped) \<and>
       distinct (said s) \<and> set (said s) = {j. kids s j = Reaped} \<and>
       (set (said s) = {..<KIDS} \<longrightarrow> waited s = map Some (rev [0..<KIDS])))"
proof -
  have i0: "pid_ok pid \<and> reap_inv pid (reap_start junk)" using assms(1,2) reap_start_inv by blast
  have inv: "pid_ok pid \<and> reap_inv pid s" using reaping.steps_inv i0 assms(3) by (meson relpowp_imp_rtranclp)
  have "reap_rank (reap_start junk) = 31" by (simp add: reap_rank_def reap_start_def sleeping_def KIDS_def)
  then have n: "n \<le> 31" using reaping.run_length [OF assms(3) i0] by simp
  have e: "\<exists>t. (reap_step pid)\<^sup>*\<^sup>* s t \<and> reap_final t" using reaping.finishes_from [OF inv] .
  have "(\<forall>j. kids s j = NotBorn \<or> kids s j = Reaped)" if "reap_final s"
  proof
    fix j
    show "kids s j = NotBorn \<or> kids s j = Reaped"
      using that inv by (cases "j < KIDS") (auto simp: reap_final_def reap_inv_def)
  qed
  moreover have "waited s = map Some (rev [0..<KIDS])" if "reap_final s" "set (said s) = {..<KIDS}"
  proof -
    have "{..<KIDS} = {j. kids s j = Zombie \<or> kids s j = Reaped}" using that(2) inv by (simp add: reap_inv_def)
    then have "kids s j = Zombie \<or> kids s j = Reaped" if "j < KIDS" for j using that by blast
    then have "all_born (kids s)" unfolding all_born_def by fastforce
    then show ?thesis using that(1) inv by (simp add: reap_inv_def reap_final_def)
  qed
  moreover have "set (said s) = {j. kids s j = Reaped}" if "\<forall>j. kids s j = NotBorn \<or> kids s j = Reaped"
  proof -
    have "kids s j \<noteq> Zombie" for j using that [rule_format, of j] by auto
    then show ?thesis using inv by (simp add: reap_inv_def)
  qed
  ultimately show ?thesis using n e inv by (simp add: reap_inv_def)
qed

theorem all_children_reaped_witness:
  "\<exists>t. (reap_step (\<lambda>j. 100 + int j))\<^sup>*\<^sup>* (reap_start (replicate KIDS 0)) t \<and> reap_final t"
  using all_children_reaped [of "\<lambda>j. 100 + int j" "replicate KIDS 0" 0 "reap_start (replicate KIDS 0)"]
  by (auto simp: pid_ok_def inj_on_def)

text \<open>
  The parent waits first for the child that sleeps longest: the other nine can all have ended
  and be zombies by then.
\<close>

lemma forks_all:
  "reap_pc s = Forking k \<Longrightarrow> k \<le> length (pids s) \<Longrightarrow> \<exists>t. (reap_step pid)\<^sup>*\<^sup>* s t \<and> reap_pc t = Forking 0 \<and>
     kids t = (\<lambda>j. if j < k then Alive else kids s j)"
proof (induction k arbitrary: s)
  case (Suc k)
  define u where "u = fork_kid pid k True s"
  have "reap_step pid s u" unfolding u_def by (rule reap_step.fork) (rule Suc.prems)
  then have u: "reap_step pid s u" "reap_pc u = Forking k" "k \<le> length (pids u)" "kids u = (kids s)(k := Alive)"
    using Suc.prems by (auto simp: u_def fork_kid_def)
  obtain t where "(reap_step pid)\<^sup>*\<^sup>* u t" "reap_pc t = Forking 0" "kids t = (\<lambda>j. if j < k then Alive else kids u j)"
    using Suc.IH u(2,3) by blast
  then show ?case using u by (intro exI [of _ t]) (auto intro: converse_rtranclp_into_rtranclp)
qed auto

lemma ends_all:
  "\<forall>j < k. kids s j = Alive \<Longrightarrow> \<exists>t. (reap_step pid)\<^sup>*\<^sup>* s t \<and> reap_pc t = reap_pc s \<and>
     kids t = (\<lambda>j. if j < k then Zombie else kids s j)"
proof (induction k)
  case (Suc k)
  then obtain t where t: "(reap_step pid)\<^sup>*\<^sup>* s t" "reap_pc t = reap_pc s"
    "kids t = (\<lambda>j. if j < k then Zombie else kids s j)" by auto
  then have "reap_step pid t (kid_ends k t)" using Suc.prems by (intro reap_step.ends) simp
  with t show ?case
    by (intro exI [of _ "kid_ends k t"]) (auto simp: kid_ends_def less_Suc_eq fun_eq_iff intro: rtranclp.rtrancl_into_rtrancl)
qed auto

theorem zombies_pile_up:
  assumes "length junk = KIDS"
  shows "\<exists>s. (reap_step pid)\<^sup>*\<^sup>* (reap_start junk) s \<and> reap_pc s = Reaping KIDS \<and>
    (\<forall>j < KIDS - 1. kids s j = Zombie) \<and> kids s (KIDS - 1) = Alive"
proof -
  obtain t where t: "(reap_step pid)\<^sup>*\<^sup>* (reap_start junk) t" "reap_pc t = Forking 0"
    "kids t = (\<lambda>j. if j < KIDS then Alive else kids (reap_start junk) j)"
    using forks_all [of "reap_start junk" KIDS pid] assms by (auto simp: reap_start_def)
  define u where "u = t\<lparr>reap_pc := Reaping KIDS\<rparr>"
  have u: "(reap_step pid)\<^sup>*\<^sup>* (reap_start junk) u" "kids u = kids t" "reap_pc u = Reaping KIDS"
    using t reap_step.forked [of t pid] by (auto simp: u_def)
  have "\<forall>j < KIDS - 1. kids u j = Alive" using u(2) t(3) by auto
  from ends_all [OF this, of pid] obtain s where "(reap_step pid)\<^sup>*\<^sup>* u s" "reap_pc s = Reaping KIDS"
    "kids s = (\<lambda>j. if j < KIDS - 1 then Zombie else kids u j)"
    using u(3) by auto
  then show ?thesis using u t by (intro exI [of _ s]) (auto simp: KIDS_def)
qed

theorem zombies_pile_up_witness:
  "\<exists>s. (reap_step (\<lambda>j. 100 + int j))\<^sup>*\<^sup>* (reap_start (replicate KIDS 0)) s \<and> kids s 0 = Zombie"
  using zombies_pile_up [of "replicate KIDS 0" "\<lambda>j. 100 + int j"] by (auto simp: KIDS_def)

section \<open>Waiting for ls (4\_exec\_dir.c)\<close>

text \<open>
  The children of a process that executes the program: those it has from before the \<open>exec\<close>
  that started it, and \<open>ls\<close>.  When \<open>execl\<close> fails, the child falls through to the \<open>wait\<close>; it
  has no children.
\<close>

datatype dir_child = Ls | Before nat

definition dir_wait :: "bool \<Rightarrow> nat \<Rightarrow> (dir_child \<Rightarrow> life) \<Rightarrow> dir_child option list" where
  "dir_wait forked others lives =
     wait_results ((if forked then [Ls] else []) @ map Before [0..<others]) lives (\<lambda>_. True)"

definition dir_child_wait :: "(dir_child \<Rightarrow> life) \<Rightarrow> dir_child option list" where
  "dir_child_wait lives = wait_results [] lives (\<lambda>_. True)"

text \<open>
  The child never waits; the parent waits exactly while it has a child that is alive and
  none that has ended: not when \<open>fork\<close> failed and it brought no children, and not
  for \<open>ls\<close> when another child ends first.
\<close>

lemma exec_dir_waits:
  "dir_child_wait lives = [None]"
  "dir_wait forked 0 lives = [] \<longleftrightarrow> forked \<and> lives Ls = Alive"
  "dir_wait False 0 lives = [None]"
  "i < others \<Longrightarrow> lives (Before i) = Zombie \<Longrightarrow> Some (Before i) \<in> set (dir_wait forked others lives)"
  "i < others \<Longrightarrow> (\<forall>c. lives c = Alive) \<Longrightarrow> dir_wait False others lives = []"
  by (auto simp: dir_wait_def dir_child_wait_def wait_results_waits wait_facts) (auto simp: wait_results_def)

section \<open>A grandchild that comes back (8\_prctl\_set\_subreaper.c)\<close>

datatype who = Shell | Parent | ChildP | GrandP | Init
datatype relative = Child | Grandchild

primrec process :: "relative \<Rightarrow> who" where
  "process Child = ChildP"
| "process Grandchild = GrandP"

text \<open>One constructor per \<open>printf\<close>, with its arguments.\<close>

datatype line =
    ParentDad nat nat
  | ParentFlag nat
  | ParentExiting
  | BeforeChild nat nat
  | AfterChildFlag nat
  | AfterChild nat nat
  | ChildExiting
  | BeforeGrandchild nat nat
  | AfterGrandchild nat nat
  | AfterGrandchildFlag nat
  | GrandchildExiting

datatype fam_parent_pc = PSet | PFork | PWait nat | PGet | PGone | PUndefined
datatype fam_child_pc = CStart | CFork | CGet | CTell | CExit
datatype fam_grand_pc = GStart | GSleep | GGet | GExit

record family =
  fam_parent_pc :: fam_parent_pc
  fam_child_pc :: fam_child_pc
  fam_grand_pc :: fam_grand_pc
  subreaper :: bool
  lives :: "relative \<Rightarrow> life"
  dad :: "relative \<Rightarrow> who"
  shown :: "line list"

definition says :: "line list \<Rightarrow> family \<Rightarrow> family" where
  "says ls s = s\<lparr>shown := shown s @ ls\<rparr>"

text \<open>
  The children of a process that ends go to the nearest subreaper above it, else to \<open>init\<close>.
  A child does not inherit the mark.
\<close>

definition orphans :: "who \<Rightarrow> family \<Rightarrow> relative \<Rightarrow> who" where
  "orphans x s = (\<lambda>r. if dad s r = x then (if x = ChildP \<and> subreaper s \<and> fam_parent_pc s \<noteq> PGone then Parent else Init)
     else dad s r)"

definition born :: "relative \<Rightarrow> who \<Rightarrow> family \<Rightarrow> family" where
  "born r x s = s\<lparr>lives := (lives s)(r := Alive), dad := (dad s)(r := x)\<rparr>"

definition dies :: "relative \<Rightarrow> family \<Rightarrow> family" where
  "dies r s = s\<lparr>lives := (lives s)(r := Zombie), dad := orphans (process r) s\<rparr>"

definition mark :: "bool \<Rightarrow> nat" where
  "mark b = (if b then 1 else 0)"

text \<open>
  The two calls \<open>wait(status)\<close>: the counter goes up, whatever the result.  \<open>status\<close> is a pointer
  that was never set, and \<open>wait\<close> stores through it when it has collected a child: \<open>harmless\<close>
  says that this store is refused or hits nothing that the program uses, otherwise the model
  ends in \<open>PUndefined\<close>.
\<close>

definition family_wait :: "family \<Rightarrow> relative option list" where
  "family_wait s = wait_results [Child, Grandchild] (lives s) (\<lambda>r. dad s r = Parent)"

definition after_wait :: "bool \<Rightarrow> nat \<Rightarrow> relative option \<Rightarrow> family \<Rightarrow> family" where
  "after_wait harmless i r s =
     s\<lparr>lives := collect r (lives s),
       fam_parent_pc := (if r \<noteq> None \<and> \<not> harmless then PUndefined
                     else if i + 1 = 2 then PGet else PWait (i + 1))\<rparr>"

fun parent_move :: "(who \<Rightarrow> nat) \<Rightarrow> bool \<Rightarrow> fam_parent_pc \<Rightarrow> family \<Rightarrow> family" where
  "parent_move pid ok PSet s = says [ParentDad (pid Parent) (pid Shell)] (s\<lparr>subreaper := ok, fam_parent_pc := PFork\<rparr>)"
| "parent_move pid ok PFork s = (if ok then born Child Parent (s\<lparr>fam_child_pc := CStart\<rparr>) else s)\<lparr>fam_parent_pc := PWait 0\<rparr>"
| "parent_move pid ok PGet s =
     says [ParentFlag (mark (subreaper s)), ParentExiting] (s\<lparr>fam_parent_pc := PGone, dad := orphans Parent s\<rparr>)"
| "parent_move pid ok _ s = s"

fun child_move :: "(who \<Rightarrow> nat) \<Rightarrow> bool \<Rightarrow> fam_child_pc \<Rightarrow> family \<Rightarrow> family" where
  "child_move pid ok CStart s = says [BeforeChild (pid ChildP) (pid (dad s Child))] (s\<lparr>fam_child_pc := CFork\<rparr>)"
| "child_move pid ok CFork s = (if ok then born Grandchild ChildP (s\<lparr>fam_grand_pc := GStart\<rparr>) else s)\<lparr>fam_child_pc := CGet\<rparr>"
| "child_move pid ok CGet s = says [AfterChildFlag (mark False)] (s\<lparr>fam_child_pc := CTell\<rparr>)"
| "child_move pid ok CTell s =
     says [AfterChild (pid ChildP) (pid (dad s Child)), ChildExiting] (s\<lparr>fam_child_pc := CExit\<rparr>)"
| "child_move pid ok CExit s = dies Child s"

fun grand_move :: "(who \<Rightarrow> nat) \<Rightarrow> fam_grand_pc \<Rightarrow> family \<Rightarrow> family" where
  "grand_move pid GStart s = says [BeforeGrandchild (pid GrandP) (pid (dad s Grandchild))] (s\<lparr>fam_grand_pc := GSleep\<rparr>)"
| "grand_move pid GSleep s = says [AfterGrandchild (pid GrandP) (pid (dad s Grandchild))] (s\<lparr>fam_grand_pc := GGet\<rparr>)"
| "grand_move pid GGet s = says [AfterGrandchildFlag (mark False), GrandchildExiting] (s\<lparr>fam_grand_pc := GExit\<rparr>)"
| "grand_move pid GExit s = dies Grandchild s"

text \<open>
  \<open>ok\<close>: whether the \<open>fork\<close> of the move succeeds, or the \<open>prctl\<close>, which fails on a kernel that
  does not know the option.  What happens after \<open>PUndefined\<close> is not modelled.
\<close>

inductive family_step :: "(who \<Rightarrow> nat) \<Rightarrow> bool \<Rightarrow> family \<Rightarrow> family \<Rightarrow> bool" for pid harmless where
  parent: "fam_parent_pc s \<in> {PSet, PFork, PGet} \<Longrightarrow> family_step pid harmless s (parent_move pid ok (fam_parent_pc s) s)"
| wait: "fam_parent_pc s = PWait i \<Longrightarrow> r \<in> set (family_wait s) \<Longrightarrow> family_step pid harmless s (after_wait harmless i r s)"
| child: "lives s Child = Alive \<Longrightarrow> fam_parent_pc s \<noteq> PUndefined \<Longrightarrow>
     family_step pid harmless s (child_move pid ok (fam_child_pc s) s)"
| grandchild: "lives s Grandchild = Alive \<Longrightarrow> fam_parent_pc s \<noteq> PUndefined \<Longrightarrow>
     family_step pid harmless s (grand_move pid (fam_grand_pc s) s)"

definition family_start :: family where
  "family_start = \<lparr>fam_parent_pc = PSet, fam_child_pc = CStart, fam_grand_pc = GStart, subreaper = False,
     lives = (\<lambda>_. NotBorn), dad = (\<lambda>_. Shell), shown = []\<rparr>"

definition gone_or_new :: "life \<Rightarrow> bool" where
  "gone_or_new l \<longleftrightarrow> l = NotBorn \<or> l = Reaped"

fun waited_ok :: "bool \<Rightarrow> life \<Rightarrow> life \<Rightarrow> fam_parent_pc \<Rightarrow> bool" where
  "waited_ok sub c g PSet \<longleftrightarrow> c = NotBorn \<and> g = NotBorn"
| "waited_ok sub c g PFork \<longleftrightarrow> c = NotBorn \<and> g = NotBorn"
| "waited_ok sub c g (PWait i) \<longleftrightarrow>
     i = 0 \<and> c \<noteq> Reaped \<and> g \<noteq> Reaped \<or> i = 1 \<and> (gone_or_new c \<or> g = Reaped \<and> sub)"
| "waited_ok sub c g PGet \<longleftrightarrow> gone_or_new c \<and> (sub \<longrightarrow> gone_or_new g)"
| "waited_ok sub c g PGone \<longleftrightarrow> gone_or_new c \<and> (sub \<longrightarrow> gone_or_new g)"
| "waited_ok sub c g PUndefined \<longleftrightarrow> False"

fun dads_ok :: "bool \<Rightarrow> (relative \<Rightarrow> who) \<Rightarrow> fam_child_pc \<Rightarrow> life \<Rightarrow> life \<Rightarrow> bool" where
  "dads_ok home d p NotBorn g \<longleftrightarrow> g = NotBorn \<and> d Child = Shell"
| "dads_ok home d p Alive g \<longleftrightarrow> d Child = Parent \<and> g \<noteq> Reaped \<and>
     (if p = CStart \<or> p = CFork then g = NotBorn else g = NotBorn \<or> d Grandchild = ChildP)"
| "dads_ok home d p Zombie g \<longleftrightarrow> d Child = Parent \<and>
     (g = NotBorn \<or> d Grandchild = (if home then Parent else Init) \<and> (g = Reaped \<longrightarrow> home))"
| "dads_ok home d p Reaped g \<longleftrightarrow>
     (g = NotBorn \<or> g = Reaped \<or> d Grandchild = (if home then Parent else Init))"

definition home :: "family \<Rightarrow> bool" where
  "home s \<longleftrightarrow> subreaper s \<and> fam_parent_pc s \<noteq> PGone"

definition grand_dad_ok :: "(who \<Rightarrow> nat) \<Rightarrow> bool \<Rightarrow> line \<Rightarrow> bool" where
  "grand_dad_ok pid sub l \<longleftrightarrow> (\<forall>x d. l = AfterGrandchild x d \<longrightarrow> d = pid ChildP \<or> d = pid (if sub then Parent else Init))"

definition family_inv :: "(who \<Rightarrow> nat) \<Rightarrow> family \<Rightarrow> bool" where
  "family_inv pid s \<longleftrightarrow>
     waited_ok (subreaper s) (lives s Child) (lives s Grandchild) (fam_parent_pc s) \<and>
     dads_ok (home s) (dad s) (fam_child_pc s) (lives s Child) (lives s Grandchild) \<and>
     (\<not> subreaper s \<longrightarrow> lives s Grandchild \<noteq> Reaped) \<and>
     (fam_parent_pc s = PSet \<longrightarrow> shown s = []) \<and>
     (\<forall>l \<in> set (shown s). grand_dad_ok pid (subreaper s) l)"

definition family_final :: "family \<Rightarrow> bool" where
  "family_final s \<longleftrightarrow> fam_parent_pc s = PGone \<and> lives s Child \<noteq> Alive \<and> lives s Grandchild \<noteq> Alive"

definition family_rank :: "family \<Rightarrow> nat" where
  "family_rank s =
     (case fam_parent_pc s of PSet \<Rightarrow> 14 | PFork \<Rightarrow> 13 | PWait i \<Rightarrow> 3 - i | PGet \<Rightarrow> 1 | _ \<Rightarrow> 0) +
     (if lives s Child = Alive
      then case fam_child_pc s of CStart \<Rightarrow> 9 | CFork \<Rightarrow> 8 | CGet \<Rightarrow> 3 | CTell \<Rightarrow> 2 | CExit \<Rightarrow> 1 else 0) +
     (if lives s Grandchild = Alive
      then case fam_grand_pc s of GStart \<Rightarrow> 4 | GSleep \<Rightarrow> 3 | GGet \<Rightarrow> 2 | GExit \<Rightarrow> 1 else 0)"

lemmas family_defs = family_inv_def family_rank_def says_def born_def dies_def home_def orphans_def

lemma family_wait_result:
  "Some r \<in> set (family_wait s) \<longleftrightarrow> dad s r = Parent \<and> lives s r = Zombie"
  "None \<in> set (family_wait s) \<longleftrightarrow> (\<forall>r. dad s r = Parent \<longrightarrow> lives s r \<noteq> Alive \<and> lives s r \<noteq> Zombie)"
proof -
  show "Some r \<in> set (family_wait s) \<longleftrightarrow> dad s r = Parent \<and> lives s r = Zombie"
    by (cases r) (auto simp: family_wait_def wait_facts)
  have "(\<forall>r. P r) \<longleftrightarrow> P Child \<and> P Grandchild" for P by (metis relative.exhaust)
  then show "None \<in> set (family_wait s) \<longleftrightarrow> (\<forall>r. dad s r = Parent \<longrightarrow> lives s r \<noteq> Alive \<and> lives s r \<noteq> Zombie)"
    by (simp add: family_wait_def wait_facts)
qed

lemma parent_move_inv:
  assumes "family_inv pid s" "fam_parent_pc s \<in> {PSet, PFork, PGet}"
  shows "family_inv pid (parent_move pid ok (fam_parent_pc s) s) \<and>
    family_rank (parent_move pid ok (fam_parent_pc s) s) < family_rank s"
  using assms(2)
proof (elim insertE)
  assume "fam_parent_pc s = PGet"
  then show ?thesis using assms(1)
    by (cases "lives s Child") (auto simp: family_defs grand_dad_ok_def gone_or_new_def)
qed (use assms(1) in \<open>auto simp: family_defs grand_dad_ok_def\<close>)

lemma child_move_inv:
  assumes "family_inv pid s" "lives s Child = Alive"
  shows "family_inv pid (child_move pid ok (fam_child_pc s) s) \<and>
    family_rank (child_move pid ok (fam_child_pc s) s) < family_rank s"
  using assms
  by (cases "fam_child_pc s"; cases "fam_parent_pc s")
    (auto simp: family_defs grand_dad_ok_def gone_or_new_def split: if_splits)

lemma grand_move_inv:
  assumes "family_inv pid s" "lives s Grandchild = Alive"
  shows "family_inv pid (grand_move pid (fam_grand_pc s) s) \<and>
    family_rank (grand_move pid (fam_grand_pc s) s) < family_rank s"
  using assms
  by (cases "fam_grand_pc s"; cases "lives s Child"; cases "fam_parent_pc s")
    (auto simp: family_defs grand_dad_ok_def gone_or_new_def split: if_splits)

lemma after_wait_inv:
  assumes "family_inv pid s" "fam_parent_pc s = PWait i" "r \<in> set (family_wait s)"
  shows "family_inv pid (after_wait True i r s) \<and> family_rank (after_wait True i r s) < family_rank s"
proof (cases r)
  case None
  then show ?thesis using assms
    by (cases "lives s Child"; cases "lives s Grandchild")
      (auto simp: family_wait_result family_defs gone_or_new_def after_wait_def)
next
  case (Some c)
  then show ?thesis using assms
    by (cases c; cases "lives s Child")
      (auto simp: family_wait_result family_defs gone_or_new_def after_wait_def split: if_splits)
qed

text \<open>
  With any \<open>harmless\<close>: when the store is not harmless, nobody has been collected as long as
  the model is defined.
\<close>

definition uncollected :: "family \<Rightarrow> bool" where
  "uncollected s \<longleftrightarrow> (\<forall>r. lives s r \<noteq> Reaped)"

definition family_safe :: "(who \<Rightarrow> nat) \<Rightarrow> bool \<Rightarrow> family \<Rightarrow> bool" where
  "family_safe pid harmless s \<longleftrightarrow>
     (if fam_parent_pc s = PUndefined
      then \<not> harmless \<and> \<not> uncollected s \<and> (\<forall>l \<in> set (shown s). grand_dad_ok pid (subreaper s) l)
      else family_inv pid s \<and> (\<not> harmless \<longrightarrow> uncollected s))"

definition family_over :: "family \<Rightarrow> bool" where
  "family_over s \<longleftrightarrow> family_final s \<or> fam_parent_pc s = PUndefined"

lemma parent_move_uncollected:
  "fam_parent_pc s \<in> {PSet, PFork, PGet} \<Longrightarrow> uncollected s \<Longrightarrow> uncollected (parent_move pid ok (fam_parent_pc s) s)"
  by (elim insertE) (simp_all add: uncollected_def says_def born_def)

lemma child_move_uncollected: "uncollected s \<Longrightarrow> uncollected (child_move pid ok (fam_child_pc s) s)"
  by (cases "fam_child_pc s") (simp_all add: uncollected_def says_def born_def dies_def)

lemma grand_move_uncollected: "uncollected s \<Longrightarrow> uncollected (grand_move pid (fam_grand_pc s) s)"
  by (cases "fam_grand_pc s") (simp_all add: uncollected_def says_def dies_def)

lemma parent_move_defined:
  "fam_parent_pc s \<in> {PSet, PFork, PGet} \<Longrightarrow> fam_parent_pc (parent_move pid ok (fam_parent_pc s) s) \<noteq> PUndefined"
  by (auto simp: says_def born_def)

lemma moves_defined:
  "fam_parent_pc (child_move pid ok p s) = fam_parent_pc s"
  "fam_parent_pc (grand_move pid q s) = fam_parent_pc s"
  by (cases p; cases q; simp add: says_def born_def dies_def)+

lemma after_wait_safe:
  assumes "family_safe pid harmless s" "fam_parent_pc s = PWait i" "r \<in> set (family_wait s)"
  shows "family_safe pid harmless (after_wait harmless i r s) \<and>
    family_rank (after_wait harmless i r s) < family_rank s"
proof (cases "r \<noteq> None \<and> \<not> harmless")
  case True
  then obtain c where c: "r = Some c" by blast
  have inv: "family_inv pid s" using assms(1,2) by (simp add: family_safe_def)
  have "lives s c = Zombie" using assms(3) c family_wait_result(1) by blast
  moreover have "i < 2" using inv assms(2) by (auto simp: family_inv_def)
  ultimately show ?thesis using True inv assms(2) c
    by (cases c) (auto simp: family_safe_def family_inv_def uncollected_def after_wait_def family_rank_def)
next
  case False
  then have "after_wait harmless i r s = after_wait True i r s" by (auto simp: after_wait_def)
  moreover have "uncollected (after_wait True i None s)" if "uncollected s"
    using that by (simp add: uncollected_def after_wait_def)
  ultimately show ?thesis using after_wait_inv [of pid s i r] assms False
    by (auto simp: family_safe_def after_wait_def)
qed

lemma family_step_safe:
  assumes "family_safe pid harmless s" "family_step pid harmless s t"
  shows "family_safe pid harmless t \<and> family_rank t < family_rank s"
  using assms(2)
proof cases
  case (parent ok)
  then show ?thesis
    using assms(1) parent_move_inv [of pid s ok] parent_move_uncollected [of s pid ok] parent_move_defined [of s pid ok]
    by (auto simp: family_safe_def)
next
  case (wait i r)
  then show ?thesis using after_wait_safe assms(1) by blast
next
  case (child ok)
  then show ?thesis
    using assms(1) child_move_inv [of pid s ok] child_move_uncollected [of s pid ok]
    by (auto simp: family_safe_def moves_defined)
next
  case grandchild
  then show ?thesis
    using assms(1) grand_move_inv [of pid s] grand_move_uncollected [of s pid]
    by (auto simp: family_safe_def moves_defined)
qed

lemma family_progress:
  assumes "family_safe pid harmless s" "\<not> family_over s"
  shows "\<exists>t. family_step pid harmless s t"
proof -
  have u: "fam_parent_pc s \<noteq> PUndefined" and inv: "family_inv pid s"
    using assms by (auto simp: family_over_def family_safe_def)
  consider "lives s Child = Alive" | "lives s Grandchild = Alive" | "fam_parent_pc s \<in> {PSet, PFork, PGet}"
    | i where "fam_parent_pc s = PWait i" "lives s Child \<noteq> Alive" "lives s Grandchild \<noteq> Alive"
    using assms(2) u by (cases "fam_parent_pc s") (auto simp: family_over_def family_final_def)
  then show ?thesis
  proof cases
    case (4 i)
    have "family_wait s \<noteq> []" using 4 by (simp add: family_wait_def wait_results_waits)
    then show ?thesis using family_step.wait [OF 4(1)] by (metis list.set_intros(1) neq_Nil_conv)
  qed (use u in \<open>blast intro: family_step.intros\<close>)+
qed

lemma family_start_safe: "family_safe pid harmless family_start"
  by (simp add: family_safe_def family_inv_def family_start_def uncollected_def)

interpretation family: live_inv "\<lambda>s. s = family_start" "family_step pid harmless" "family_safe pid harmless"
  family_over family_rank for pid harmless
  using family_start_safe family_step_safe family_progress by unfold_locales blast+

text \<open>
  C39. Every run takes at most 14 moves and can be brought to its end, or to the first child
  that is collected when the store through \<open>status\<close> is not harmless.  When the parent has
  left, its child has been collected or was never made, and when the store is not harmless
  only the second; with the mark the same holds of the grandchild, and without it the parent never
  collects the grandchild.  What the grandchild shows after its sleep is the child that made
  it or, if that has ended, the parent when marked and \<open>init\<close> when not.
\<close>

theorem family_collected:
  assumes "(family_step pid harmless ^^ n) family_start s"
  shows "n \<le> 14 \<and>
    (\<exists>t. (family_step pid harmless)\<^sup>*\<^sup>* s t \<and>
       (family_final t \<or> \<not> harmless \<and> fam_parent_pc t = PUndefined \<and> \<not> uncollected t)) \<and>
    (fam_parent_pc s = PUndefined \<longrightarrow> \<not> harmless \<and> \<not> uncollected s) \<and>
    (fam_parent_pc s = PGone \<longrightarrow> lives s Child \<in> (if harmless then {NotBorn, Reaped} else {NotBorn}) \<and>
       (if subreaper s then lives s Grandchild \<in> (if harmless then {NotBorn, Reaped} else {NotBorn})
        else lives s Grandchild \<noteq> Reaped)) \<and>
    (\<forall>x d. AfterGrandchild x d \<in> set (shown s) \<longrightarrow>
       d = pid ChildP \<or> d = pid (if subreaper s then Parent else Init))"
proof -
  have safe: "family_safe pid harmless s"
    using family.steps_inv family_start_safe assms by (meson relpowp_imp_rtranclp)
  have "family_rank family_start = 14" by (simp add: family_rank_def family_start_def)
  then have n: "n \<le> 14" using family.run_length [OF assms family_start_safe] by simp
  obtain t where t: "(family_step pid harmless)\<^sup>*\<^sup>* s t" "family_over t" using family.finishes_from [OF safe] by blast
  moreover have "family_safe pid harmless t" using family.steps_inv [OF t(1) safe] .
  ultimately have e: "\<exists>t. (family_step pid harmless)\<^sup>*\<^sup>* s t \<and>
      (family_final t \<or> \<not> harmless \<and> fam_parent_pc t = PUndefined \<and> \<not> uncollected t)"
    by (auto simp: family_over_def family_safe_def)
  have "\<forall>l \<in> set (shown s). grand_dad_ok pid (subreaper s) l"
    using safe by (auto simp: family_safe_def family_inv_def split: if_splits)
  then have d: "d = pid ChildP \<or> d = pid (if subreaper s then Parent else Init)"
    if "AfterGrandchild x d \<in> set (shown s)" for x d using that unfolding grand_dad_ok_def by blast
  have "fam_parent_pc s = PGone \<Longrightarrow> family_inv pid s \<and> (\<not> harmless \<longrightarrow> uncollected s)"
    using safe by (simp add: family_safe_def)
  then show ?thesis using n e d safe
    by (auto simp: family_inv_def family_safe_def gone_or_new_def uncollected_def)
qed

theorem family_collected_witness:
  "\<exists>t. (family_step (\<lambda>_. 7) True)\<^sup>*\<^sup>* family_start t \<and> family_final t"
  using family_collected [of 0 "\<lambda>_. 7" True family_start] by simp

text \<open>
  Without the mark the parent can leave while the grandchild sleeps; and a store that is not
  harmless stops the parent at the first child it collects.
\<close>

lemma subreaper_matters:
  "\<exists>s. (family_step pid True)\<^sup>*\<^sup>* family_start s \<and> \<not> subreaper s \<and> fam_parent_pc s = PGone \<and>
     lives s Grandchild = Alive \<and> dad s Grandchild = Init"
proof -
  let ?p = "\<lambda>ok s. parent_move pid ok (fam_parent_pc s) s" and ?c = "\<lambda>s. child_move pid True (fam_child_pc s) s"
  let ?a = "?p True (?p False family_start)"
  let ?b = "?c (?c (?c (?c (?c ?a))))"
  have a: "(family_step pid True)\<^sup>*\<^sup>* family_start ?a"
    using family_step.parent [of family_start pid True False] family_step.parent [of "?p False family_start" pid True True]
    by (auto simp: family_start_def says_def)
  have c: "(family_step pid True)\<^sup>*\<^sup>* family_start (?c s)"
    if "(family_step pid True)\<^sup>*\<^sup>* family_start s" "lives s Child = Alive" "fam_parent_pc s \<noteq> PUndefined" for s
    using that family_step.child by (meson rtranclp.rtrancl_into_rtrancl)
  have b: "(family_step pid True)\<^sup>*\<^sup>* family_start ?b"
    by (intro c a) (simp_all add: family_start_def says_def born_def)
  define s2 where "s2 = ?b"
  have s2: "fam_parent_pc s2 = PWait 0" "lives s2 Child = Zombie" "lives s2 Grandchild = Alive" "\<not> subreaper s2"
    "dad s2 Child = Parent" "dad s2 Grandchild = Init"
    by (simp_all add: s2_def family_start_def says_def born_def dies_def orphans_def)
  define s3 where "s3 = after_wait True 0 (Some Child) s2"
  have "family_step pid True s2 s3"
    unfolding s3_def using s2 by (intro family_step.wait) (simp_all add: family_wait_result)
  moreover have s3: "fam_parent_pc s3 = PWait 1" "lives s3 Child = Reaped" "lives s3 Grandchild = Alive" "\<not> subreaper s3"
    "dad s3 Grandchild = Init"
    using s2 by (simp_all add: s3_def after_wait_def)
  define s4 where "s4 = after_wait True 1 None s3"
  have "family_step pid True s3 s4"
    unfolding s4_def using s3
    by (intro family_step.wait) (auto simp: family_wait_def wait_results_None)
  moreover have s4: "fam_parent_pc s4 = PGet" "lives s4 Grandchild = Alive" "\<not> subreaper s4" "dad s4 Grandchild = Init"
    using s3 by (simp_all add: s4_def after_wait_def)
  have "family_step pid True s4 (?p True s4)" using s4 by (intro family_step.parent) simp
  moreover have "fam_parent_pc (?p True s4) = PGone \<and> lives (?p True s4) Grandchild = Alive \<and> \<not> subreaper (?p True s4) \<and>
      dad (?p True s4) Grandchild = Init"
    using s4 by (simp add: says_def orphans_def)
  ultimately show ?thesis using b unfolding s2_def by (meson rtranclp.rtrancl_into_rtrancl)
qed

lemma status_never_set:
  "Some r \<in> set (family_wait s) \<Longrightarrow> fam_parent_pc (after_wait False i (Some r) s) = PUndefined"
  by (simp add: after_wait_def)

end
