(* ===== verification/CntSem.thy ===== *)
theory CntSem
  imports Prelude
begin

text \<open>
  A named counting semaphore, \<open>task_4/examples/6_posix_cnt_sem.c\<close>: started without an argument
  the program waits on it, with one it posts.  Any number of processes run side by side; the
  semaphore outlives them.
\<close>

section \<open>The processes\<close>

definition SEM_VALUE_MAX :: nat where
  "SEM_VALUE_MAX = 2147483647"

text \<open>
  In front of \<open>sem_open\<close>, of \<open>sem_wait\<close>, of \<open>sem_post\<close>; after the end, with the exit code.
  \<open>SemRefused\<close>: at the end with code 0, but \<open>sem_post\<close> failed, which only \<open>perror\<close> shows.
\<close>

datatype sem_pc = SemOpen | SemWait | SemPost | SemEnd nat | SemRefused

record semaphore =
  sem :: "nat option"
  sem_pc :: "nat \<Rightarrow> sem_pc"

definition sem_goes :: "nat \<Rightarrow> sem_pc \<Rightarrow> semaphore \<Rightarrow> semaphore" where
  "sem_goes p c s = s\<lparr>sem_pc := (sem_pc s)(p := c)\<rparr>"

text \<open>
  \<open>arg\<close>: whether there is an argument.  Only a process without one creates the semaphore, with
  value 0; the value of one that exists is not changed.
\<close>

definition sem_opens :: "bool \<Rightarrow> nat \<Rightarrow> semaphore \<Rightarrow> semaphore" where
  "sem_opens arg p s =
     (if arg then sem_goes p (if sem s = None then SemEnd 1 else SemPost) s
      else sem_goes p SemWait (s\<lparr>sem := (case sem s of None \<Rightarrow> Some 0 | Some v \<Rightarrow> Some v)\<rparr>))"

definition sem_posts :: "nat \<Rightarrow> semaphore \<Rightarrow> semaphore" where
  "sem_posts p s =
     (case sem s of
        Some v \<Rightarrow> if v < SEM_VALUE_MAX then sem_goes p (SemEnd 0) (s\<lparr>sem := Some (Suc v)\<rparr>)
                  else sem_goes p SemRefused s
      | None \<Rightarrow> sem_goes p SemRefused s)"

definition sem_waits :: "nat \<Rightarrow> semaphore \<Rightarrow> semaphore result" where
  "sem_waits p s =
     (case sem s of
        Some (Suc v) \<Rightarrow> Inr (sem_goes p (SemEnd 0) (s\<lparr>sem := Some v\<rparr>))
      | _ \<Rightarrow> Inl Blocked)"

inductive sem_step :: "nat \<Rightarrow> (nat \<Rightarrow> bool) \<Rightarrow> semaphore \<Rightarrow> semaphore \<Rightarrow> bool" for n arg where
  opens: "p < n \<Longrightarrow> sem_pc s p = SemOpen \<Longrightarrow> sem_step n arg s (sem_opens (arg p) p s)"
| posts: "p < n \<Longrightarrow> sem_pc s p = SemPost \<Longrightarrow> sem_step n arg s (sem_posts p s)"
| waits: "p < n \<Longrightarrow> sem_pc s p = SemWait \<Longrightarrow> sem_waits p s = Inr t \<Longrightarrow> sem_step n arg s t"

definition sem_start :: "nat option \<Rightarrow> semaphore" where
  "sem_start left = \<lparr>sem = left, sem_pc = (\<lambda>_. SemOpen)\<rparr>"

section \<open>Counting\<close>

definition ended :: "nat \<Rightarrow> (nat \<Rightarrow> bool) \<Rightarrow> bool \<Rightarrow> semaphore \<Rightarrow> nat set" where
  "ended n arg a s = {p. p < n \<and> arg p = a \<and> sem_pc s p = SemEnd 0}"

fun sem_pc_ok :: "bool \<Rightarrow> bool \<Rightarrow> bool \<Rightarrow> sem_pc \<Rightarrow> bool" where
  "sem_pc_ok arg there left SemOpen \<longleftrightarrow> True"
| "sem_pc_ok arg there left SemWait \<longleftrightarrow> \<not> arg \<and> there"
| "sem_pc_ok arg there left SemPost \<longleftrightarrow> arg \<and> there"
| "sem_pc_ok arg there left (SemEnd c) \<longleftrightarrow> (c = 0 \<and> there \<or> c = 1 \<and> arg \<and> \<not> left)"
| "sem_pc_ok arg there left SemRefused \<longleftrightarrow> arg \<and> there"

definition value_before :: "nat option \<Rightarrow> nat" where
  "value_before left = (case left of None \<Rightarrow> 0 | Some l \<Rightarrow> l)"

text \<open>The value cannot become too large: no post is refused.\<close>

definition room :: "nat \<Rightarrow> nat option \<Rightarrow> bool" where
  "room n left \<longleftrightarrow> value_before left + n \<le> SEM_VALUE_MAX"

definition sem_inv :: "nat \<Rightarrow> (nat \<Rightarrow> bool) \<Rightarrow> nat option \<Rightarrow> semaphore \<Rightarrow> bool" where
  "sem_inv n arg left s \<longleftrightarrow>
     (\<forall>p < n. sem_pc_ok (arg p) (sem s \<noteq> None) (left \<noteq> None) (sem_pc s p)) \<and>
     (left \<noteq> None \<longrightarrow> sem s \<noteq> None) \<and>
     (room n left \<longrightarrow> (\<forall>p < n. sem_pc s p \<noteq> SemRefused)) \<and>
     (\<forall>v. sem s = Some v \<longrightarrow>
        v + card (ended n arg False s) = value_before left + card (ended n arg True s))"

fun sem_left :: "sem_pc \<Rightarrow> nat" where
  "sem_left SemOpen = 2"
| "sem_left SemWait = 1"
| "sem_left SemPost = 1"
| "sem_left (SemEnd c) = 0"
| "sem_left SemRefused = 0"

definition sem_rank :: "nat \<Rightarrow> semaphore \<Rightarrow> nat" where
  "sem_rank n s = (\<Sum>p < n. sem_left (sem_pc s p))"

definition sem_final :: "nat \<Rightarrow> semaphore \<Rightarrow> bool" where
  "sem_final n s \<longleftrightarrow>
     (\<forall>p < n. sem_pc s p = SemEnd 0 \<or> sem_pc s p = SemEnd 1 \<or> sem_pc s p = SemRefused \<or>
        sem_pc s p = SemWait \<and> sem s = Some 0)"

lemma ended_finite [simp]: "finite (ended n arg a s)"
  by (simp add: ended_def)

lemma ended_goes:
  "p < n \<Longrightarrow> sem_pc s p \<noteq> SemEnd 0 \<Longrightarrow>
   ended n arg a (sem_goes p c s) = (if c = SemEnd 0 \<and> arg p = a then insert p (ended n arg a s) else ended n arg a s)"
  by (auto simp: ended_def sem_goes_def)

lemma ended_sem [simp]: "ended n arg a (s\<lparr>sem := x\<rparr>) = ended n arg a s"
  by (simp add: ended_def)

lemma not_ended: "sem_pc s p \<noteq> SemEnd 0 \<Longrightarrow> p \<notin> ended n arg a s"
  by (simp add: ended_def)

lemma sem_rank_goes:
  assumes "p < n" "sem_left c < sem_left (sem_pc s p)"
  shows "sem_rank n (sem_goes p c s) < sem_rank n s"
  unfolding sem_rank_def sem_goes_def using assms by (intro sum_strict_mono_ex1) auto

lemma sem_rank_sem [simp]: "sem_rank n (s\<lparr>sem := x\<rparr>) = sem_rank n s"
  by (simp add: sem_rank_def)

lemma sem_rank_goes_sem:
  "p < n \<Longrightarrow> sem_left c < sem_left (sem_pc s p) \<Longrightarrow> sem_rank n (sem_goes p c (s\<lparr>sem := x\<rparr>)) < sem_rank n s"
  using sem_rank_goes [of p n c "s\<lparr>sem := x\<rparr>"] by simp

lemma sem_pc_ok_there: "sem_pc_ok a t l c \<Longrightarrow> (t \<Longrightarrow> t') \<Longrightarrow> sem_pc_ok a t' l c"
  by (cases c) auto

lemma sem_goes_sel [simp]: "sem (sem_goes p c s) = sem s" "sem_pc (sem_goes p c s) = (sem_pc s)(p := c)"
  by (simp_all add: sem_goes_def)

lemma sem_opens_inv:
  assumes "sem_inv n arg left s" "p < n" "sem_pc s p = SemOpen"
  shows "sem_inv n arg left (sem_opens (arg p) p s) \<and> sem_rank n (sem_opens (arg p) p s) < sem_rank n s"
proof (cases "sem s")
  case None
  have z: "ended n arg a s = {}" for a
    using assms(1) None by (auto simp: sem_inv_def ended_def)
  have l: "left = None" using assms(1) None by (auto simp: sem_inv_def)
  have pc: "sem_pc_ok (arg q) True False (sem_pc s q)" if "q < n" for q
    using assms(1) None l that sem_pc_ok_there [of "arg q" False False "sem_pc s q" True] by (auto simp: sem_inv_def)
  show ?thesis
    using assms None l pc
    by (auto simp: sem_opens_def sem_inv_def ended_goes z value_before_def intro!: sem_rank_goes sem_rank_goes_sem)
next
  case (Some v)
  then show ?thesis
    using assms by (auto simp: sem_opens_def sem_inv_def ended_goes intro!: sem_rank_goes sem_rank_goes_sem)
qed

lemma sem_posts_inv:
  assumes "sem_inv n arg left s" "p < n" "sem_pc s p = SemPost"
  shows "sem_inv n arg left (sem_posts p s) \<and> sem_rank n (sem_posts p s) < sem_rank n s"
proof -
  have a: "arg p" "sem s \<noteq> None" using assms by (auto simp: sem_inv_def dest!: spec [of _ p])
  then obtain v where v: "sem s = Some v" by blast
  have p: "p \<notin> ended n arg True s" using assms(3) by (simp add: not_ended)
  have "ended n arg True s \<subseteq> {..<n} - {p}" using assms(3) by (auto simp: ended_def)
  then have "card (ended n arg True s) \<le> card ({..<n} - {p})" by (intro card_mono) simp_all
  then have "card (ended n arg True s) < n" using assms(2) by simp
  moreover have "v + card (ended n arg False s) = value_before left + card (ended n arg True s)"
    using assms(1) v by (simp add: sem_inv_def)
  ultimately have small: "room n left \<Longrightarrow> v < SEM_VALUE_MAX" by (simp add: room_def)
  show ?thesis
  proof (cases "v < SEM_VALUE_MAX")
    case True
    then show ?thesis
      using assms a v p by (auto simp: sem_posts_def sem_inv_def ended_goes intro!: sem_rank_goes sem_rank_goes_sem)
  next
    case False
    then show ?thesis
      using assms a v small by (auto simp: sem_posts_def sem_inv_def ended_goes intro!: sem_rank_goes)
  qed
qed

lemma sem_waits_inv:
  assumes "sem_inv n arg left s" "p < n" "sem_pc s p = SemWait" "sem_waits p s = Inr t"
  shows "sem_inv n arg left t \<and> sem_rank n t < sem_rank n s"
proof -
  have a: "\<not> arg p" using assms by (auto simp: sem_inv_def dest!: spec [of _ p])
  obtain v where v: "sem s = Some (Suc v)" and t: "t = sem_goes p (SemEnd 0) (s\<lparr>sem := Some v\<rparr>)"
    using assms(4) by (auto simp: sem_waits_def split: option.splits nat.splits)
  show ?thesis
    using assms(1-3) a v not_ended [of s p n arg False] by (auto simp: t sem_inv_def ended_goes intro!: sem_rank_goes sem_rank_goes_sem)
qed

lemma sem_step_inv:
  assumes "sem_inv n arg left s" "sem_step n arg s t"
  shows "sem_inv n arg left t \<and> sem_rank n t < sem_rank n s"
  using assms(2) sem_opens_inv [OF assms(1)] sem_posts_inv [OF assms(1)] sem_waits_inv [OF assms(1)]
  by (cases rule: sem_step.cases) blast+

lemma sem_progress:
  assumes "sem_inv n arg left s" "\<not> sem_final n s"
  shows "\<exists>t. sem_step n arg s t"
proof -
  obtain p where p: "p < n" "sem_pc s p \<noteq> SemEnd 0" "sem_pc s p \<noteq> SemEnd 1" "sem_pc s p \<noteq> SemRefused" "sem_pc s p = SemWait \<Longrightarrow> sem s \<noteq> Some 0"
    using assms(2) by (auto simp: sem_final_def)
  have ok: "sem_pc_ok (arg p) (sem s \<noteq> None) (left \<noteq> None) (sem_pc s p)" using assms(1) p(1) by (simp add: sem_inv_def)
  show ?thesis
  proof (cases "sem_pc s p")
    case SemWait
    then obtain v where "sem s = Some (Suc v)" using ok p(5) by (metis not0_implies_Suc option.exhaust sem_pc_ok.simps(2))
    then have "\<exists>t. sem_waits p s = Inr t" by (simp add: sem_waits_def)
    with SemWait p(1) show ?thesis by (blast intro: sem_step.waits)
  qed (use ok p in \<open>auto intro: sem_step.intros\<close>)
qed

lemma sem_start_inv: "sem_inv n arg left (sem_start left)"
  by (auto simp: sem_inv_def sem_start_def ended_def value_before_def)

interpretation semaphores: live_inv "\<lambda>s. s = sem_start left" "sem_step n arg" "sem_inv n arg left" "sem_final n" "sem_rank n"
  for n arg left
  using sem_start_inv sem_step_inv sem_progress by unfold_locales blast+

text \<open>
  C40. The semaphore counts: at any moment its value and the waiters that went through are
  together the value it had before the run and the posts that succeeded.  So every run ends after two
  moves per process at most, and when nothing moves any more the waiters that went through
  are as many as there are waiters or such posts, whichever is less; a post before the first
  waiter of all has failed, and one that no waiter took is left to the next run.  No
  post is refused while the value before the run and the number of processes are together
  at most \<open>SEM_VALUE_MAX\<close>.
\<close>

theorem semaphore_counts:
  assumes "(sem_step n arg ^^ k) (sem_start left) s"
  shows "k \<le> 2 * n \<and> (\<exists>t. (sem_step n arg)\<^sup>*\<^sup>* s t \<and> sem_final n t) \<and>
    (\<forall>v. sem s = Some v \<longrightarrow>
       v + card (ended n arg False s) = value_before left + card (ended n arg True s)) \<and>
    (value_before left + n \<le> SEM_VALUE_MAX \<longrightarrow> (\<forall>p < n. sem_pc s p \<noteq> SemRefused)) \<and>
    (sem_final n s \<longrightarrow> card (ended n arg False s) =
       min (card {p. p < n \<and> \<not> arg p}) (value_before left + card (ended n arg True s)))"
proof -
  have inv: "sem_inv n arg left s"
    using semaphores.steps_inv sem_start_inv assms by (meson relpowp_imp_rtranclp)
  have "sem_rank n (sem_start left) = 2 * n" by (simp add: sem_rank_def sem_start_def)
  then have k: "k \<le> 2 * n" using semaphores.run_length [OF assms sem_start_inv] by simp
  have e: "\<exists>t. (sem_step n arg)\<^sup>*\<^sup>* s t \<and> sem_final n t" using semaphores.finishes_from [OF inv] .
  have count: "v + card (ended n arg False s) = value_before left + card (ended n arg True s)"
    if "sem s = Some v" for v using inv that by (simp add: sem_inv_def)
  have sub: "ended n arg False s \<subseteq> {p. p < n \<and> \<not> arg p}" by (auto simp: ended_def)
  then have le: "card (ended n arg False s) \<le> card {p. p < n \<and> \<not> arg p}" by (intro card_mono) simp_all
  have "card (ended n arg False s) =
       min (card {p. p < n \<and> \<not> arg p}) (value_before left + card (ended n arg True s))"
    if f: "sem_final n s"
  proof (cases "sem s")
    case None
    have "arg p" if "p < n" for p
      using inv f None that by (fastforce simp: sem_inv_def sem_final_def)
    then have e: "{p. p < n \<and> \<not> arg p} = {}" by blast
    have "ended n arg False s = {}" using sub unfolding e by simp
    then show ?thesis unfolding e by simp
  next
    case (Some v)
    show ?thesis
    proof (cases "v = 0")
      case True
      then show ?thesis using count [OF Some] le by simp
    next
      case False
      have "sem_pc s p = SemEnd 0" if "p < n" "\<not> arg p" for p
      proof -
        have "sem_pc_ok False True (left \<noteq> None) (sem_pc s p)" using inv Some that by (auto simp: sem_inv_def)
        then show ?thesis using f that(1) Some False by (auto simp: sem_final_def)
      qed
      then have "ended n arg False s = {p. p < n \<and> \<not> arg p}" by (auto simp: ended_def)
      then show ?thesis using count [OF Some] by simp
    qed
  qed
  moreover have "value_before left + n \<le> SEM_VALUE_MAX \<longrightarrow> (\<forall>p < n. sem_pc s p \<noteq> SemRefused)"
    using inv by (simp add: sem_inv_def room_def)
  ultimately show ?thesis using k e count by blast
qed

theorem semaphore_counts_witness:
  "\<exists>t. (sem_step 2 (\<lambda>p. p = 0))\<^sup>*\<^sup>* (sem_start (Some 1)) t \<and> sem_final 2 t"
  using semaphore_counts [of 0 2 "\<lambda>p. p = 0" "Some 1"] by simp

end
