(* ===== verification/Greetings.thy ===== *)
theory Greetings
  imports Kernel
begin

text \<open>
  One message from one process to another, in the examples of \<open>task_3\<close>: over a POSIX queue
  (\<open>posix_mq_client.c\<close>, \<open>posix_mq_server.c\<close>), over a System V queue (\<open>sender.c\<close>, \<open>receiver.c\<close>),
  through memory shared with a child (\<open>mmap_parent_child.c\<close>) and the reading side of a
  shared memory object (\<open>shm_server_posix.c\<close>).
\<close>

section \<open>A POSIX message queue\<close>

definition GREET_SZ :: nat where
  "GREET_SZ = 4096"

text \<open>The limit of the system for \<open>mq_maxmsg\<close>.\<close>

definition MSG_LIMIT :: int where
  "MSG_LIMIT = 10"

definition greeting :: string where
  "greeting = ''hello world''"

datatype gclient_pc = COpen | CSend | CEnd nat
datatype gserver_pc = SOpen | SReceive | SEnd nat

text \<open>The queue \<open>/example\<close>: its capacity and its messages.\<close>

record greet =
  gqueue :: "(nat \<times> bytes list) option"
  gclient :: gclient_pc
  gserver :: gserver_pc
  gbuf :: bytes
  gshown :: "bytes list"

text \<open>
  The server creates the queue unless there is one; \<open>attr.mq_maxmsg\<close> was never set and is
  whatever the variable holds.  The client does not create it.
\<close>

definition server_opens :: "int \<Rightarrow> greet \<Rightarrow> greet" where
  "server_opens junk s =
     (case gqueue s of
        Some q \<Rightarrow> s\<lparr>gserver := SReceive\<rparr>
      | None \<Rightarrow> if 0 < junk \<and> junk \<le> MSG_LIMIT then s\<lparr>gqueue := Some (nat junk, []), gserver := SReceive\<rparr>
                else s\<lparr>gserver := SEnd 1\<rparr>)"

definition client_opens :: "greet \<Rightarrow> greet" where
  "client_opens s = s\<lparr>gclient := (if gqueue s = None then CEnd 1 else CSend)\<rparr>"

definition client_sends :: "greet \<Rightarrow> greet result" where
  "client_sends s =
     (case gqueue s of
        None \<Rightarrow> Inl CallFailed
      | Some (k, ms) \<Rightarrow> if k \<le> length ms then Inl Blocked
                      else Inr (s\<lparr>gqueue := Some (k, ms @ [lit greeting]), gclient := CEnd 0\<rparr>))"

definition server_receives :: "greet \<Rightarrow> greet result" where
  "server_receives s =
     (case gqueue s of
        Some (k, m # ms) \<Rightarrow>
          bindS (poke (gbuf s) 0 m) (\<lambda>b.
          bindS (format_s b) (\<lambda>t.
            Inr (s\<lparr>gqueue := Some (k, ms), gbuf := b, gshown := gshown s @ [t], gserver := SEnd 0\<rparr>)))
      | _ \<Rightarrow> Inl Blocked)"

inductive greet_step :: "int \<Rightarrow> greet \<Rightarrow> greet \<Rightarrow> bool" for junk where
  server_open: "gserver s = SOpen \<Longrightarrow> greet_step junk s (server_opens junk s)"
| client_open: "gclient s = COpen \<Longrightarrow> greet_step junk s (client_opens s)"
| client_send: "gclient s = CSend \<Longrightarrow> client_sends s = Inr t \<Longrightarrow> greet_step junk s t"
| server_receive: "gserver s = SReceive \<Longrightarrow> server_receives s = Inr t \<Longrightarrow> greet_step junk s t"

text \<open>\<open>left\<close>: the queue that an earlier run has left, empty.\<close>

definition greet_start :: "nat option \<Rightarrow> bytes \<Rightarrow> greet" where
  "greet_start left buf =
     \<lparr>gqueue = map_option (\<lambda>k. (k, [])) left, gclient = COpen, gserver = SOpen, gbuf = buf, gshown = []\<rparr>"

fun queue_ok :: "bool \<Rightarrow> bool \<Rightarrow> (nat \<times> bytes list) option \<Rightarrow> gclient_pc \<Rightarrow> gserver_pc \<Rightarrow> bytes list \<Rightarrow> bool" where
  "queue_ok there valid None c v out \<longleftrightarrow>
     \<not> there \<and> (c = COpen \<or> c = CEnd 1) \<and> (v = SOpen \<or> v = SEnd 1 \<and> \<not> valid) \<and> out = []"
| "queue_ok there valid (Some (k, ms)) c v out \<longleftrightarrow>
     0 < k \<and> (there \<or> valid) \<and>
     ((c = COpen \<or> c = CSend \<or> c = CEnd 1 \<and> \<not> there) \<and> (v = SOpen \<or> v = SReceive) \<and> ms = [] \<and> out = [] \<or>
      c = CEnd 0 \<and> (v = SOpen \<or> v = SReceive) \<and> ms = [lit greeting] \<and> out = [] \<or>
      c = CEnd 0 \<and> v = SEnd 0 \<and> ms = [] \<and> out = [greeting])"

definition valid_max :: "int \<Rightarrow> bool" where
  "valid_max junk \<longleftrightarrow> 0 < junk \<and> junk \<le> MSG_LIMIT"

definition greet_inv :: "bool \<Rightarrow> int \<Rightarrow> greet \<Rightarrow> bool" where
  "greet_inv there junk s \<longleftrightarrow> length (gbuf s) = GREET_SZ \<and>
     queue_ok there (valid_max junk) (gqueue s) (gclient s) (gserver s) (gshown s)"

definition greet_final :: "greet \<Rightarrow> bool" where
  "greet_final s \<longleftrightarrow> gclient s \<in> {CEnd 0, CEnd 1} \<and>
     (gserver s \<in> {SEnd 0, SEnd 1} \<or> gserver s = SReceive \<and> gclient s = CEnd 1)"

definition greet_rank :: "greet \<Rightarrow> nat" where
  "greet_rank s = (case gclient s of COpen \<Rightarrow> 2 | CSend \<Rightarrow> 1 | _ \<Rightarrow> 0) +
     (case gserver s of SOpen \<Rightarrow> 2 | SReceive \<Rightarrow> 1 | _ \<Rightarrow> 0)"

lemma greeting_arrives:
  assumes "length buf = GREET_SZ"
  obtains b where "poke buf 0 (lit greeting) = Inr b" "format_s b = Inr greeting" "length b = GREET_SZ"
proof -
  have l: "length greeting = 11" "NUL \<notin> set greeting" by (simp_all add: greeting_def)
  have "poke buf 0 (lit greeting) = Inr (greeting @ NUL # drop 12 buf)"
    using assms l by (simp add: poke_def GREET_SZ_def)
  moreover have "format_s (greeting @ NUL # drop 12 buf) = Inr greeting" using l by (simp add: format_s_text)
  ultimately show ?thesis using that assms l by (simp add: GREET_SZ_def)
qed

lemma greet_inv_step:
  assumes "greet_inv there junk s" "greet_step junk s t"
  shows "greet_inv there junk t \<and> greet_rank t < greet_rank s"
  using assms(2)
proof (cases rule: greet_step.cases)
  case server_open
  then show ?thesis using assms(1)
    by (cases "gqueue s") (auto simp: greet_inv_def greet_rank_def server_opens_def valid_max_def)
next
  case client_open
  then show ?thesis using assms(1)
    by (cases "gqueue s") (auto simp: greet_inv_def greet_rank_def client_opens_def)
next
  case client_send
  then show ?thesis using assms(1)
    by (cases "gqueue s") (auto simp: greet_inv_def greet_rank_def client_sends_def split: if_splits)
next
  case server_receive
  obtain k ms where q: "gqueue s = Some (k, ms)" using server_receive assms(1)
    by (cases "gqueue s") (auto simp: greet_inv_def)
  have m: "ms = [lit greeting] \<and> gclient s = CEnd 0 \<and> gshown s = []"
    using server_receive assms(1) q by (auto simp: greet_inv_def server_receives_def)
  obtain b where b: "poke (gbuf s) 0 (lit greeting) = Inr b" "format_s b = Inr greeting" "length b = GREET_SZ"
    using greeting_arrives [of "gbuf s"] assms(1) by (auto simp: greet_inv_def)
  then show ?thesis using server_receive assms(1) q m by (auto simp: greet_inv_def greet_rank_def server_receives_def)
qed

lemma greet_progress:
  assumes "greet_inv there junk s" "\<not> greet_final s"
  shows "\<exists>t. greet_step junk s t"
proof -
  consider "gclient s = COpen" | "gserver s = SOpen" | "gclient s = CSend" | "gserver s = SReceive" "gclient s = CEnd 0"
    using assms by (cases "gqueue s") (auto simp: greet_inv_def greet_final_def)
  then show ?thesis
  proof cases
    case 3
    then obtain k where "gqueue s = Some (k, [])" "0 < k"
      using assms(1) by (cases "gqueue s") (auto simp: greet_inv_def)
    then have "\<exists>t. client_sends s = Inr t" by (simp add: client_sends_def)
    with 3 show ?thesis by (blast intro: greet_step.client_send)
  next
    case 4
    then obtain k where q: "gqueue s = Some (k, [lit greeting])"
      using assms(1) by (cases "gqueue s") (auto simp: greet_inv_def)
    obtain b where "poke (gbuf s) 0 (lit greeting) = Inr b" "format_s b = Inr greeting"
      using greeting_arrives [of "gbuf s"] assms(1) by (auto simp: greet_inv_def)
    then have "\<exists>t. server_receives s = Inr t" by (simp add: server_receives_def q)
    with 4 show ?thesis by (blast intro: greet_step.server_receive)
  qed (blast intro: greet_step.intros)+
qed

lemma greet_start_inv:
  "length buf = GREET_SZ \<Longrightarrow> left \<noteq> Some 0 \<Longrightarrow> greet_inv (left \<noteq> None) junk (greet_start left buf)"
  by (cases left) (auto simp: greet_inv_def greet_start_def)

interpretation greeting: live_inv "\<lambda>s. \<exists>left buf. length buf = GREET_SZ \<and> left \<noteq> Some 0 \<and> there = (left \<noteq> None) \<and>
      s = greet_start left buf" "greet_step junk" "greet_inv there junk" greet_final greet_rank for there junk
  using greet_start_inv greet_inv_step greet_progress by unfold_locales blast+

text \<open>
  Every run takes at most four moves.  On a system without the queue the outcome depends on the
  variable nobody set and on who is first: both give up; the client gives up and the server
  waits for ever; or the text arrives.  The queue stays, and from then on it always arrives.
\<close>

theorem greeting_outcomes:
  assumes "length buf = GREET_SZ" "left \<noteq> Some 0" "(greet_step junk ^^ n) (greet_start left buf) s"
  shows "n \<le> 4 \<and> (\<exists>t. (greet_step junk)\<^sup>*\<^sup>* s t \<and> greet_final t) \<and>
    (greet_final s \<longrightarrow>
       (if gclient s = CEnd 0 then gserver s = SEnd 0 \<and> gshown s = [greeting] \<and> (left \<noteq> None \<or> valid_max junk)
        else left = None \<and> gshown s = [] \<and> gserver s = (if valid_max junk then SReceive else SEnd 1)))"
proof -
  have i0: "greet_inv (left \<noteq> None) junk (greet_start left buf)" by (rule greet_start_inv [OF assms(1,2)])
  have inv: "greet_inv (left \<noteq> None) junk s"
    using greeting.steps_inv i0 assms(3) by (meson relpowp_imp_rtranclp)
  have "greet_rank (greet_start left buf) = 4" by (simp add: greet_rank_def greet_start_def)
  then have "n \<le> 4" using greeting.run_length [OF assms(3) i0] by simp
  moreover have "\<exists>t. (greet_step junk)\<^sup>*\<^sup>* s t \<and> greet_final t" using greeting.finishes_from [OF inv] .
  ultimately show ?thesis using inv
    by (cases "gqueue s") (auto simp: greet_inv_def greet_final_def)
qed

theorem greeting_outcomes_witness:
  "\<exists>t. (greet_step 3)\<^sup>*\<^sup>* (greet_start (Some 3) (replicate GREET_SZ NUL)) t \<and> greet_final t"
  using greeting_outcomes [of "replicate GREET_SZ NUL" "Some 3" 0 3] by simp

section \<open>A System V message queue\<close>

type_synonym sysv = "int \<Rightarrow> (int \<times> bytes) list option"

definition sender_key :: int where
  "sender_key = 1024"

definition receiver_key :: int where
  "receiver_key = 10"

text \<open>
  \<open>got\<close>: whether \<open>msgget\<close> succeeds; \<open>full\<close>: the queue has no room, so that \<open>msgsnd\<close> with
  \<open>IPC_NOWAIT\<close> fails.  The exit code and the queues.
\<close>

definition sender_main :: "bool \<Rightarrow> bool \<Rightarrow> sysv \<Rightarrow> nat \<times> sysv" where
  "sender_main got full sys =
     (let q = (case sys sender_key of None \<Rightarrow> [] | Some ms \<Rightarrow> ms)
      in if \<not> got then (1, sys)
         else if full then (1, sys(sender_key := Some q))
         else (0, sys(sender_key := Some (q @ [(1, lit ''HELLO'')]))))"

text \<open>\<open>msgrcv\<close> with type 1 takes the first message of that type and waits when there is none.\<close>

definition take_typed :: "int \<Rightarrow> (int \<times> bytes) list \<Rightarrow> (bytes \<times> (int \<times> bytes) list) option" where
  "take_typed ty q =
     (case dropWhile (\<lambda>m. fst m \<noteq> ty) q of
        [] \<Rightarrow> None
      | m # r \<Rightarrow> Some (snd m, takeWhile (\<lambda>m. fst m \<noteq> ty) q @ r))"

definition receive_on :: "int \<Rightarrow> bytes \<Rightarrow> sysv \<Rightarrow> (nat \<times> bytes list \<times> sysv) result" where
  "receive_on key mtext sys =
     (case sys key of
        None \<Rightarrow> Inr (1, [], sys)
      | Some q \<Rightarrow>
          (case take_typed 1 q of
             None \<Rightarrow> Inl Blocked
           | Some (m, r) \<Rightarrow>
               bindS (poke mtext 0 m) (\<lambda>b.
               bindS (format_s b) (\<lambda>t. Inr (0, [t], sys(key := Some r))))))"

definition receiver_main :: "bytes \<Rightarrow> sysv \<Rightarrow> (nat \<times> bytes list \<times> sysv) result" where
  "receiver_main = receive_on receiver_key"

lemma sender_elsewhere: "snd (sender_main got full sys) receiver_key = sys receiver_key"
  by (simp add: sender_main_def sender_key_def receiver_key_def Let_def)

text \<open>
  The two programs name different queues: however often the sender runs, the receiver finds
  none.  With the key of the sender it would show the text.
\<close>

theorem sysv_never_meet:
  assumes "sys receiver_key = None"
  shows "receiver_main mtext (fold (\<lambda>(got, full) q. snd (sender_main got full q)) runs sys) =
    Inr (1, [], fold (\<lambda>(got, full) q. snd (sender_main got full q)) runs sys)"
proof -
  have "fold (\<lambda>(got, full) q. snd (sender_main got full q)) runs sys receiver_key = None"
    using assms by (induction runs arbitrary: sys) (auto simp: sender_elsewhere)
  then show ?thesis by (simp add: receiver_main_def receive_on_def)
qed

theorem sysv_never_meet_witness:
  "receiver_main [] (snd (sender_main True False Map.empty)) = Inr (1, [], snd (sender_main True False Map.empty))"
  using sysv_never_meet [of Map.empty "[]" "[(True, False)]"] by simp

lemma sysv_same_key:
  assumes "length mtext = 1024" "sys sender_key = None"
  shows "receive_on sender_key mtext (snd (sender_main True False sys)) = Inr (0, [''HELLO''], sys(sender_key := Some []))"
proof -
  have "poke mtext 0 (lit ''HELLO'') = Inr (''HELLO'' @ NUL # drop 6 mtext)" using assms(1) by (simp add: poke_def eval_nat_numeral)
  moreover have "format_s (''HELLO'' @ NUL # drop 6 mtext) = Inr ''HELLO''" by (subst format_s_text) (simp_all add: cstr_def)
  ultimately show ?thesis using assms(2) by (simp add: receive_on_def sender_main_def take_typed_def)
qed

section \<open>Memory shared with a child\<close>

text \<open>
  The parent stores 10 and 20, the child sleeps and adds the two cells, which C reads in
  either order.  Nothing but the sleep orders the two.
\<close>

record mapped =
  cells :: "int list"
  stored :: nat
  cell0 :: "int option"
  cell1 :: "int option"
  summed :: "int option"

inductive map_step :: "bool \<Rightarrow> mapped \<Rightarrow> mapped \<Rightarrow> bool" for forked where
  store0: "forked \<Longrightarrow> stored s = 0 \<Longrightarrow> map_step forked s (s\<lparr>cells := (cells s)[0 := 10], stored := 1\<rparr>)"
| store1: "forked \<Longrightarrow> stored s = 1 \<Longrightarrow> map_step forked s (s\<lparr>cells := (cells s)[1 := 20], stored := 2\<rparr>)"
| read0: "cell0 s = None \<Longrightarrow> map_step forked s (s\<lparr>cell0 := Some (cells s ! 0)\<rparr>)"
| read1: "cell1 s = None \<Longrightarrow> map_step forked s (s\<lparr>cell1 := Some (cells s ! 1)\<rparr>)"
| show_sum: "cell0 s = Some a \<Longrightarrow> cell1 s = Some b \<Longrightarrow> summed s = None \<Longrightarrow>
     map_step forked s (s\<lparr>summed := Some (a + b)\<rparr>)"

definition map_start :: mapped where
  "map_start = \<lparr>cells = replicate 100 0, stored = 0, cell0 = None, cell1 = None, summed = None\<rparr>"

definition map_inv :: "bool \<Rightarrow> mapped \<Rightarrow> bool" where
  "map_inv forked s \<longleftrightarrow> length (cells s) = 100 \<and>
     cells s ! 0 \<in> (if forked then {0, 10} else {0}) \<and> cells s ! 1 \<in> (if forked then {0, 20} else {0}) \<and>
     (\<forall>a. cell0 s = Some a \<longrightarrow> a \<in> (if forked then {0, 10} else {0})) \<and>
     (\<forall>b. cell1 s = Some b \<longrightarrow> b \<in> (if forked then {0, 20} else {0})) \<and>
     (\<forall>v. summed s = Some v \<longrightarrow> v \<in> (if forked then {0, 10, 20, 30} else {0}))"

lemma map_inv_step: "map_inv forked s \<Longrightarrow> map_step forked s t \<Longrightarrow> map_inv forked t"
  by (erule map_step.cases; cases forked) (auto simp: map_inv_def)

interpretation mapping: trans_inv "\<lambda>s. s = map_start" "map_step forked" "map_inv forked" for forked
  by unfold_locales (auto simp: map_inv_step, simp add: map_inv_def map_start_def)

lemma map_runs:
  "(map_step forked)\<^sup>*\<^sup>* s t \<Longrightarrow> map_step forked t u \<Longrightarrow> (map_step forked)\<^sup>*\<^sup>* s u"
  by (rule rtranclp.rtrancl_into_rtrancl)

text \<open>Every sum of what was and what will be in the cells can be shown; only 0 when \<open>fork\<close> fails.\<close>

theorem map_sums:
  "(\<exists>s. (map_step forked)\<^sup>*\<^sup>* map_start s \<and> summed s = Some v) \<longleftrightarrow>
     v \<in> (if forked then {0, 10, 20, 30} else {0})"
proof
  assume "\<exists>s. (map_step forked)\<^sup>*\<^sup>* map_start s \<and> summed s = Some v"
  then show "v \<in> (if forked then {0, 10, 20, 30} else {0})"
  proof (elim exE conjE)
    fix s
    assume "(map_step forked)\<^sup>*\<^sup>* map_start s" and v: "summed s = Some v"
    then have "map_inv forked s" using mapping.reach_inv by blast
    with v show ?thesis by (simp only: map_inv_def)
  qed
next
  let ?s = "map_step forked" and ?z = "replicate 100 (0 :: int)"
  let ?st = "\<lambda>c k a b v. \<lparr>cells = c, stored = k, cell0 = a, cell1 = b, summed = v\<rparr>"
  assume v: "v \<in> (if forked then {0, 10, 20, 30} else {0})"
  have start: "?s\<^sup>*\<^sup>* map_start (?st ?z 0 None None None)" by (simp add: map_start_def)
  have r0: "?s\<^sup>*\<^sup>* map_start (?st c k (Some (c ! 0)) b w)" if "?s\<^sup>*\<^sup>* map_start (?st c k None b w)" for c k b w
    using map_runs [OF that] map_step.read0 [of "?st c k None b w" forked] by simp
  have r1: "?s\<^sup>*\<^sup>* map_start (?st c k a (Some (c ! 1)) w)" if "?s\<^sup>*\<^sup>* map_start (?st c k a None w)" for c k a w
    using map_runs [OF that] map_step.read1 [of "?st c k a None w" forked] by simp
  have sum: "\<exists>s. ?s\<^sup>*\<^sup>* map_start s \<and> summed s = Some (a + b)"
    if "?s\<^sup>*\<^sup>* map_start (?st c k (Some a) (Some b) None)" for c k a b
    using map_runs [OF that] map_step.show_sum [of "?st c k (Some a) (Some b) None" a b forked] by fastforce
  have s0: "?s\<^sup>*\<^sup>* map_start (?st (c[0 := 10]) 1 a b w)" if "?s\<^sup>*\<^sup>* map_start (?st c 0 a b w)" forked for c a b w
    using map_runs [OF that(1)] map_step.store0 [of forked "?st c 0 a b w"] that(2) by simp
  have s1: "?s\<^sup>*\<^sup>* map_start (?st (c[1 := 20]) 2 a b w)" if "?s\<^sup>*\<^sup>* map_start (?st c 1 a b w)" forked for c a b w
    using map_runs [OF that(1)] map_step.store1 [of forked "?st c 1 a b w"] that(2) by simp
  consider "v = 0" | "v = 10" forked | "v = 20" forked | "v = 30" forked using v by (auto split: if_splits)
  then show "\<exists>s. ?s\<^sup>*\<^sup>* map_start s \<and> summed s = Some v"
  proof cases
    case 1
    then show ?thesis using sum [OF r1 [OF r0 [OF start]]] by simp
  next
    case 2
    then show ?thesis using sum [OF r1 [OF r0 [OF s0 [OF start]]]] by simp
  next
    case 3
    then show ?thesis using sum [OF r1 [OF s1 [OF s0 [OF r0 [OF start]]]]] by simp
  next
    case 4
    then show ?thesis using sum [OF r1 [OF r0 [OF s1 [OF s0 [OF start]]]]] by simp
  qed
qed

section \<open>A shared memory object\<close>

text \<open>
  The object \<open>OS\<close> is read and removed.  Without it both calls fail and the result of \<open>mmap\<close>
  is not an address; the pages behind the end of the object cannot be read, the rest of its last
  page is zero.
\<close>

definition shm_server :: "bytes option \<Rightarrow> (bytes \<times> bytes option) result" where
  "shm_server obj =
     (case obj of
        None \<Rightarrow> Inl NullDeref
      | Some bs \<Rightarrow>
          if bs = [] then Inl OutOfBounds
          else bindS (format_s (take 4096 (bs @ replicate 4096 NUL))) (\<lambda>t. Inr (t, None)))"

lemma shm_server_shows:
  "bs \<noteq> [] \<Longrightarrow> NUL \<notin> set bs \<Longrightarrow> length bs < 4096 \<Longrightarrow> shm_server (Some bs) = Inr (bs, None)"
  "NUL \<notin> set bs \<Longrightarrow> 4096 \<le> length bs \<Longrightarrow> shm_server (Some bs) = Inl OutOfBounds"
  "shm_server (Some bs) = Inr (t, obj') \<Longrightarrow> shm_server obj' = Inl NullDeref"
proof -
  assume a: "bs \<noteq> []" "NUL \<notin> set bs" "length bs < 4096"
  then obtain k where k: "4096 - length bs = Suc k" by (metis Suc_diff_Suc)
  then have "k \<le> 4095" by linarith
  then have t: "take 4096 (bs @ replicate 4096 NUL) = bs @ NUL # replicate k NUL"
    using a(3) \<open>k \<le> 4095\<close> k by (simp add: take_replicate min_def flip: replicate_Suc)
  have "format_s (bs @ NUL # replicate k NUL) = Inr bs" using a(2) by (simp add: format_s_text)
  then show "shm_server (Some bs) = Inr (bs, None)" using a(1) by (simp only: shm_server_def option.case t bindS_simps if_False)
next
  assume "NUL \<notin> set bs" "4096 \<le> length bs"
  moreover from this have "NUL \<notin> set (take 4096 bs)" by (auto dest: in_set_takeD)
  ultimately show "shm_server (Some bs) = Inl OutOfBounds"
    by (auto simp: shm_server_def format_s_def strlen_def)
next
  assume "shm_server (Some bs) = Inr (t, obj')"
  then show "shm_server obj' = Inl NullDeref"
    by (auto simp: shm_server_def bindS_eq_Inr_iff split: if_splits)
qed

end
