(* ===== verification/Readiness.thy ===== *)
theory Readiness
  imports Decimal
begin

text \<open>
  Waiting for input with a timeout, three times: \<open>task_7/examples/1_select.c\<close>, \<open>2_poll.c\<close> and
  \<open>3_epoll.c\<close>.  What the call reports, what the buffers hold before they are written and
  what can be read are arguments.
\<close>

section \<open>select\<close>

datatype select_line = Available | Status int | Shown bytes | TimeOver

text \<open>
  The result of \<open>select\<close> on descriptor 0 and whether the bit of 0 is set afterwards; a call that
  fails leaves the set as it was.
\<close>

datatype select_event = Ready | Elapsed | Failed

fun select_call :: "select_event \<Rightarrow> int \<times> bool" where
  "select_call Ready = (1, True)"
| "select_call Elapsed = (0, False)"
| "select_call Failed = (-1, True)"

definition select_main :: "select_event \<Rightarrow> bytes \<Rightarrow> bytes \<Rightarrow> select_line list result" where
  "select_main ev str inp =
     (let (retval, isset) = select_call ev
      in if retval \<noteq> 0 then
           bindS (if isset
                  then bindS (scan_to str inp) (\<lambda>(b, _). bindS (format_s b) (\<lambda>t. Inr [Shown t]))
                  else Inr []) (\<lambda>ls.
             Inr ([Available, Status (if isset then 1 else 0)] @ ls))
         else Inr [TimeOver])"

section \<open>poll\<close>

record poll_run =
  poll_str :: bytes
  poll_input :: bytes
  poll_out :: "bytes list"

text \<open>One round of \<open>while (1)\<close>; \<open>ret\<close> and \<open>revents\<close> are those of the one call in front of it.\<close>

definition poll_round :: "int \<Rightarrow> bool \<Rightarrow> poll_run \<Rightarrow> poll_run result" where
  "poll_round ret pollin s =
     (if ret = 0 then Inr (s\<lparr>poll_out := poll_out s @ [''TIMEOUT'']\<rparr>)
      else if pollin then
        bindS (scan_to (poll_str s) (poll_input s)) (\<lambda>(b, rest).
        bindS (format_s b) (\<lambda>t.
          Inr \<lparr>poll_str = b, poll_input = rest, poll_out = poll_out s @ [t]\<rparr>))
      else Inr s)"

primrec poll_rounds :: "int \<Rightarrow> bool \<Rightarrow> nat \<Rightarrow> poll_run \<Rightarrow> poll_run result" where
  "poll_rounds ret pollin 0 s = Inr s"
| "poll_rounds ret pollin (Suc n) s = bindS (poll_round ret pollin s) (poll_rounds ret pollin n)"

section \<open>epoll\<close>

text \<open>One event: \<open>read\<close> into a buffer of its size, \<open>buf[len_rd] = '\0'\<close>, \<open>printf\<close>; \<open>None\<close>: -1.\<close>

definition epoll_event :: "bytes \<Rightarrow> bytes option \<Rightarrow> (bytes \<times> bytes) result" where
  "epoll_event buf got =
     (case got of
        None \<Rightarrow> Inl OutOfBounds
      | Some d \<Rightarrow>
          bindS (poke buf 0 d) (\<lambda>b.
          bindS (poke b (length d) [NUL]) (\<lambda>b'.
          bindS (format_s b') (\<lambda>t. Inr (b', t)))))"

fun epoll_events :: "bytes \<Rightarrow> bytes option list \<Rightarrow> bytes list result" where
  "epoll_events buf [] = Inr []"
| "epoll_events buf (g # gs) =
     bindS (epoll_event buf g) (\<lambda>(b, t). bindS (epoll_events b gs) (\<lambda>ts. Inr (t # ts)))"

text \<open>The exit code and what is shown of the events; \<open>count\<close> is -1 or the number of \<open>reads\<close>.\<close>

definition epoll_main :: "bool \<Rightarrow> bool \<Rightarrow> bytes option list option \<Rightarrow> bytes \<Rightarrow> (nat \<times> bytes list) result" where
  "epoll_main created added reads buf =
     (if \<not> created then Inr (1, [])
      else if \<not> added then Inr (2, [])
      else case reads of
        None \<Rightarrow> Inr (4, [])
      | Some gs \<Rightarrow> bindS (epoll_events buf gs) (\<lambda>ts. Inr (0, ts)))"

section \<open>What they show\<close>

lemma scan_shows:
  assumes "text_words inp = w # ws" "length w < length buf" "NUL \<notin> set w"
  obtains b rest where "scan_to buf inp = Inr (b, rest)" "format_s b = Inr w" "text_words rest = ws"
    "length b = length buf" "NUL \<in> set b"
proof -
  obtain rest where r: "scan_to buf inp = Inr (w @ NUL # drop (Suc (length w)) buf, rest)" "text_words rest = ws"
    using scan_to_word assms(1,2) by blast
  have "format_s (w @ NUL # drop (Suc (length w)) buf) = Inr w" using assms(3) by (simp add: format_s_text)
  then show ?thesis using that [OF r(1)] r(2) assms(2) by simp
qed

text \<open>
  \<open>select\<close>: a word that fits is shown when there is input, and just the same after a
  failed call, which is not told from success; a word of 256 bytes or more overflows.
\<close>

lemma select_shows:
  assumes "text_words inp = w # ws" "length str = 256" "NUL \<notin> set w"
  shows "length w < 256 \<Longrightarrow> select_main Ready str inp = Inr [Available, Status 1, Shown w]"
    "select_main Failed str inp = select_main Ready str inp"
    "select_main Elapsed str inp = Inr [TimeOver]"
    "256 \<le> length w \<Longrightarrow> select_main Ready str inp = Inl OutOfBounds"
proof -
  show "select_main Ready str inp = Inr [Available, Status 1, Shown w]" if l: "length w < 256"
  proof -
    have "length w < length str" using l assms(2) by simp
    from scan_shows [OF assms(1) this assms(3)]
    obtain b rest where "scan_to str inp = Inr (b, rest)" "format_s b = Inr w" by blast
    then show ?thesis by (simp add: select_main_def)
  qed
  show "select_main Failed str inp = select_main Ready str inp" "select_main Elapsed str inp = Inr [TimeOver]"
    by (simp_all add: select_main_def)
  show "select_main Ready str inp = Inl OutOfBounds" if l: "256 \<le> length w"
  proof -
    have "takeWhile (\<lambda>c. \<not> is_space c) (skip_space inp) = w"
      using assms(1) by (subst (asm) text_words.simps) (auto simp: Let_def split: if_splits)
    moreover have "w \<noteq> []" using l by auto
    ultimately have "scan_to str inp = Inl OutOfBounds" using l assms(2) by (simp add: scan_to_def poke_def)
    then show ?thesis by (simp add: select_main_def)
  qed
qed

lemma poll_end:
  "text_words (poll_input s) = [] \<Longrightarrow> format_s (poll_str s) = Inr t \<Longrightarrow> ret \<noteq> 0 \<Longrightarrow>
   \<exists>s'. poll_rounds ret True n s = Inr s' \<and> poll_out s' = poll_out s @ replicate n t"
proof (induction n arbitrary: s)
  case (Suc n)
  obtain rest where "scan_to (poll_str s) (poll_input s) = Inr (poll_str s, rest)" "text_words rest = []"
    using scan_to_end [OF Suc.prems(1)] by blast
  then show ?case
    using Suc.IH [of "\<lparr>poll_str = poll_str s, poll_input = rest, poll_out = poll_out s @ [t]\<rparr>"] Suc.prems
    by (auto simp: poll_round_def)
qed simp

lemma poll_words:
  "text_words (poll_input s) = ws \<Longrightarrow> \<forall>w \<in> set ws. length w < length (poll_str s) \<and> NUL \<notin> set w \<Longrightarrow> ret \<noteq> 0 \<Longrightarrow>
   format_s (poll_str s) = Inr t \<Longrightarrow>
   \<exists>s'. poll_rounds ret True n s = Inr s' \<and>
     poll_out s' = poll_out s @ take n ws @ replicate (n - length ws) (last (t # ws))"
proof (induction ws arbitrary: n s t)
  case Nil
  then show ?case using poll_end [of s t ret n] by simp
next
  case (Cons w ws)
  show ?case
  proof (cases n)
    case (Suc m)
    have "length w < length (poll_str s)" "NUL \<notin> set w" using Cons.prems(2) by simp_all
    from scan_shows [OF Cons.prems(1) this]
    obtain b rest where r: "scan_to (poll_str s) (poll_input s) = Inr (b, rest)" "format_s b = Inr w"
      "text_words rest = ws" "length b = length (poll_str s)" by blast
    let ?u = "\<lparr>poll_str = b, poll_input = rest, poll_out = poll_out s @ [w]\<rparr>"
    obtain s' where "poll_rounds ret True m ?u = Inr s'"
      "poll_out s' = poll_out ?u @ take m ws @ replicate (m - length ws) (last (w # ws))"
      using Cons.IH [of ?u w m] Cons.prems r by auto
    then show ?thesis using r Cons.prems(3) by (simp add: Suc poll_round_def)
  qed simp
qed

text \<open>
  \<open>poll\<close> is called once and its result used for ever.  After a timeout the program says so in
  every round, whatever is typed later; when there was input it shows the words, and after the
  last one shows that again in every round.
\<close>

theorem poll_asks_once:
  assumes "text_words inp = w # ws" "\<forall>x \<in> set (w # ws). length x < 1024 \<and> NUL \<notin> set x" "length str = 1024"
    and "NUL \<in> set str"
  shows "poll_rounds 0 pollin n \<lparr>poll_str = str, poll_input = inp, poll_out = []\<rparr> =
      Inr \<lparr>poll_str = str, poll_input = inp, poll_out = replicate n ''TIMEOUT''\<rparr> \<and>
    (\<exists>s. poll_rounds 1 True n \<lparr>poll_str = str, poll_input = inp, poll_out = []\<rparr> = Inr s \<and>
      poll_out s = take n (w # ws) @ replicate (n - length (w # ws)) (last (w # ws)))"
proof -
  have "poll_rounds 0 pollin n s = Inr (s\<lparr>poll_out := poll_out s @ replicate n ''TIMEOUT''\<rparr>)" for s
    by (induction n arbitrary: s) (simp_all add: poll_round_def)
  moreover obtain s where "poll_rounds 1 True n \<lparr>poll_str = str, poll_input = inp, poll_out = []\<rparr> = Inr s"
      "poll_out s = take n (w # ws) @ replicate (n - length (w # ws)) (last (cstr str # w # ws))"
    using poll_words [of "\<lparr>poll_str = str, poll_input = inp, poll_out = []\<rparr>" "w # ws" 1 "cstr str" n] assms
    by (auto simp: format_s_text)
  ultimately show ?thesis by simp
qed

theorem poll_asks_once_witness:
  "\<exists>s. poll_rounds 1 True 3 \<lparr>poll_str = replicate 1024 NUL, poll_input = ''a b'', poll_out = []\<rparr> = Inr s \<and>
     poll_out s = [''a'', ''b'', ''b'']"
proof -
  have w: "text_words ''a b'' = [''a'', ''b'']"
    by (simp add: text_words.simps skip_space_def is_space_def)
  show ?thesis
    using poll_asks_once [OF w, of "replicate 1024 NUL" False 3] by (simp add: eval_nat_numeral)
qed

text \<open>
  \<open>epoll\<close>: input of less than 4096 bytes is shown up to its first NUL; a failed \<open>read\<close> stores
  in front of the buffer and a full one behind it.
\<close>

lemma epoll_shows:
  assumes "length buf = 4096"
  shows "length d < 4096 \<Longrightarrow> epoll_main True True (Some [Some d]) buf = Inr (0, [cstr d])"
    "epoll_main True True (Some [None]) buf = Inl OutOfBounds"
    "length d = 4096 \<Longrightarrow> epoll_main True True (Some [Some d]) buf = Inl OutOfBounds"
    "epoll_main True True (Some []) buf = Inr (0, [])"
proof -
  show "epoll_main True True (Some [Some d]) buf = Inr (0, [cstr d])" if l: "length d < 4096"
  proof -
    have "poke buf 0 d = Inr (d @ drop (length d) buf)" using assms l by (simp add: poke_def)
    moreover have "poke (d @ drop (length d) buf) (length d) [NUL] = Inr (d @ NUL # drop (Suc (length d)) buf)"
      using assms l by (simp add: poke_def)
    moreover have "cstr (d @ NUL # r) = cstr d" for r by (induction d) (simp_all add: cstr_def)
    ultimately show ?thesis by (simp add: epoll_main_def epoll_event_def format_s_text)
  qed
qed (use assms in \<open>auto simp: epoll_main_def epoll_event_def poke_def\<close>)

end
