(* ===== verification/MonteSingle.thy ===== *)
theory MonteSingle
  imports MonteCarlo
begin

text \<open>
  The Monte Carlo integration without threads, \<open>task_4/examples/4_monte-carlo_singlethread.c\<close>:
  ten thousand points of the unit square, of which those under \<open>y = x\<close> are counted.  The
  results of \<open>rand\<close> are a parameter.
\<close>

section \<open>The program\<close>

definition POINTS :: nat where
  "POINTS = 10000"

definition uniform :: "nat \<Rightarrow> real" where
  "uniform r = rnd (of_nat r / of_nat RAND_MAX)"

definition below :: "real \<Rightarrow> real \<Rightarrow> bool" where
  "below x y \<longleftrightarrow> rnd (\<bar>y\<bar> - func x) < 0"

text \<open>
  The loop on the results of the calls of \<open>rand\<close>, two for every point: the lines it shows,
  counter and coordinates, and the counter at the end.
\<close>

fun area_loop :: "(nat \<times> nat) list \<Rightarrow> real \<Rightarrow> (real \<times> real \<times> real) list \<times> real" where
  "area_loop [] s = ([], s)"
| "area_loop ((r1, r2) # rs) s =
     (let x = uniform r1; y = uniform r2;
          s' = if below x y then rnd (s + 1) else s;
          (ls, e) = area_loop rs s'
      in ((s', x, y) # ls, e))"

text \<open>\<open>a\<close> and \<open>b\<close> are \<open>int\<close> variables that hold 0 and 1.\<close>

definition single_main :: "(nat \<Rightarrow> nat) \<Rightarrow> (real \<times> real \<times> real) list \<times> real" where
  "single_main rand =
     (let (ls, s) = area_loop (map (\<lambda>i. (rand (2 * i), rand (2 * i + 1))) [0..<POINTS]) 0
      in (ls, rnd (rnd (rnd (s / of_nat POINTS) * of_int (1 - 0)) * of_int (1 - 0))))"

section \<open>What is counted\<close>

lemma uniform_bounds:
  assumes "r \<le> RAND_MAX"
  shows "0 \<le> uniform r" "uniform r \<le> 1"
proof -
  have "0 \<le> (of_nat r / of_nat RAND_MAX :: real)" "of_nat r / of_nat RAND_MAX \<le> (1 :: real)"
    using assms by (simp_all add: RAND_MAX_def)
  then show "0 \<le> uniform r" "uniform r \<le> 1"
    using dbl.round_between [of 0 1] by (simp_all add: uniform_def is_double_3)
qed

text \<open>
  Two results of \<open>rand\<close> that differ give two different doubles, in the same order: the
  quotients are further apart than the rounding.
\<close>

lemma rnd_error_unit: "0 \<le> x \<Longrightarrow> x \<le> 1 \<Longrightarrow> \<bar>rnd x - x\<bar> \<le> 1 / 2 ^ 53"
  using rnd_error [of x] divide_right_mono [of x 1 "2 ^ 53"] by simp

lemma uniform_strict:
  assumes "q < r" "r \<le> RAND_MAX"
  shows "uniform q < uniform r"
proof -
  let ?q = "of_nat q / of_nat RAND_MAX :: real" and ?r = "of_nat r / of_nat RAND_MAX :: real"
  have m: "(of_nat RAND_MAX :: real) = 2 ^ 31 - 1" by (simp add: RAND_MAX_def)
  have b: "0 \<le> ?q" "0 \<le> ?r" "?q \<le> 1" "?r \<le> 1" using assms by (simp_all add: RAND_MAX_def)
  have "(of_nat q :: real) + 1 \<le> of_nat r" using assms(1) by linarith
  then have "(of_nat q + 1) / of_nat RAND_MAX \<le> ?r" by (intro divide_right_mono) simp_all
  then have d: "?q + 1 / (2 ^ 31 - 1) \<le> ?r" by (simp add: m add_divide_distrib)
  have "\<bar>rnd ?q - ?q\<bar> \<le> 1 / 2 ^ 53" "\<bar>rnd ?r - ?r\<bar> \<le> 1 / 2 ^ 53"
    using b by (intro rnd_error_unit; simp)+
  moreover have "2 / 2 ^ 53 < (1 / (2 ^ 31 - 1) :: real)" by simp
  ultimately show ?thesis using d unfolding uniform_def by linarith
qed

lemma uniform_less_iff:
  "q \<le> RAND_MAX \<Longrightarrow> r \<le> RAND_MAX \<Longrightarrow> uniform q < uniform r \<longleftrightarrow> q < r"
  using uniform_strict [of q r] uniform_strict [of r q] by (cases q r rule: linorder_cases) auto

lemma rnd_negative: "rnd x < 0 \<longleftrightarrow> x < 0"
proof (cases "x < 0")
  case True
  then have "0 < rnd (- x)"
    using rnd_binade(1) [of "- x"] powr_gt_zero [of 2 "of_int (unit_exp (- x)) + 52"] by linarith
  with True show ?thesis by simp
next
  case False
  then show ?thesis using rnd_nonneg [of x] by simp
qed

lemma below_iff:
  "q \<le> RAND_MAX \<Longrightarrow> r \<le> RAND_MAX \<Longrightarrow> below (uniform q) (uniform r) \<longleftrightarrow> r < q"
  using uniform_bounds [of r] by (simp add: below_def rnd_negative func_def uniform_less_iff)

definition area_count :: "(nat \<times> nat) list \<Rightarrow> nat" where
  "area_count rs = length (filter (\<lambda>(q, r). r < q) rs)"

lemma area_loop_count:
  "\<forall>(q, r) \<in> set rs. q \<le> RAND_MAX \<and> r \<le> RAND_MAX \<Longrightarrow> m + length rs \<le> 2 ^ 53 \<Longrightarrow>
   \<exists>ls. area_loop rs (of_nat m) = (ls, of_nat (m + area_count rs)) \<and>
     map snd ls = map (\<lambda>(q, r). (uniform q, uniform r)) rs"
proof (induction rs arbitrary: m)
  case (Cons p rs)
  obtain q r where p: "p = (q, r)" by force
  have qr: "below (uniform q) (uniform r) \<longleftrightarrow> r < q" using Cons.prems(1) by (simp add: p below_iff)
  define k where "k = m + (if r < q then 1 else 0)"
  have "rnd (of_nat m + 1) = of_nat (m + 1)"
    using rnd_of_nat [of "m + 1"] Cons.prems(2) by (simp add: add.commute)
  then have s: "(if below (uniform q) (uniform r) then rnd (of_nat m + 1) else of_nat m) = (of_nat k :: real)"
    by (simp add: qr k_def)
  have "\<forall>(q, r) \<in> set rs. q \<le> RAND_MAX \<and> r \<le> RAND_MAX" "k + length rs \<le> 2 ^ 53"
    using Cons.prems by (auto simp: k_def)
  from Cons.IH [OF this] obtain ls where "area_loop rs (of_nat k) = (ls, of_nat (k + area_count rs))"
      "map snd ls = map (\<lambda>(q, r). (uniform q, uniform r)) rs" by blast
  moreover have "k + area_count rs = m + area_count (p # rs)" by (simp add: k_def area_count_def p)
  ultimately show ?case
    using s by (simp add: p Let_def del: of_nat_add)
qed (simp add: area_count_def)

text \<open>
  Whatever \<open>rand\<close> returns: ten thousand lines are shown, with the coordinates of the points; the
  counter is exactly the number of points whose second random number is smaller than the
  first, and the result is the nearest double to a ten-thousandth of it, so between 0 and 1.
\<close>

theorem single_estimate:
  assumes "\<And>i. rand i \<le> RAND_MAX"
  shows "\<exists>ls. single_main rand = (ls, rnd (of_nat (card {i. i < POINTS \<and> rand (2 * i + 1) < rand (2 * i)}) / 10000)) \<and>
    map snd ls = map (\<lambda>i. (uniform (rand (2 * i)), uniform (rand (2 * i + 1)))) [0..<POINTS] \<and>
    0 \<le> snd (single_main rand) \<and> snd (single_main rand) \<le> 1"
proof -
  let ?rs = "map (\<lambda>i. (rand (2 * i), rand (2 * i + 1))) [0..<POINTS]"
  let ?n = "card {i. i < POINTS \<and> rand (2 * i + 1) < rand (2 * i)}"
  have "area_count ?rs = length (filter (\<lambda>i. rand (2 * i + 1) < rand (2 * i)) [0..<POINTS])"
    by (simp add: area_count_def filter_map comp_def)
  also have "\<dots> = ?n"
    by (subst distinct_card [symmetric]) (simp_all add: conj_commute)
  finally have c: "area_count ?rs = ?n" .
  have le: "?n \<le> POINTS" using card_mono [of "{..<POINTS}" "{i. i < POINTS \<and> rand (2 * i + 1) < rand (2 * i)}"] by auto
  obtain ls where ls: "area_loop ?rs 0 = (ls, of_nat ?n)"
      "map snd ls = map (\<lambda>i. (uniform (rand (2 * i)), uniform (rand (2 * i + 1)))) [0..<POINTS]"
  proof -
    have "\<forall>(q, r) \<in> set ?rs. q \<le> RAND_MAX \<and> r \<le> RAND_MAX" "0 + length ?rs \<le> 2 ^ 53"
      using assms by (auto simp: POINTS_def)
    from area_loop_count [OF this] obtain ls where "area_loop ?rs (of_nat 0) = (ls, of_nat (0 + area_count ?rs))"
        "map snd ls = map (\<lambda>(q, r). (uniform q, uniform r)) ?rs" by blast
    then have "area_loop ?rs 0 = (ls, of_nat ?n)"
        "map snd ls = map (\<lambda>i. (uniform (rand (2 * i)), uniform (rand (2 * i + 1)))) [0..<POINTS]"
      unfolding c by (simp_all add: comp_def)
    then show ?thesis by (rule that)
  qed
  have m: "single_main rand = (ls, rnd (of_nat ?n / 10000))"
    unfolding single_main_def ls(1) Let_def by (simp add: dbl.round_idem POINTS_def)
  have "0 \<le> rnd (of_nat ?n / of_nat POINTS) \<and> rnd (of_nat ?n / of_nat POINTS) \<le> 1"
    using le by (intro fraction_bounds) (simp_all add: POINTS_def)
  then show ?thesis using m ls(2) by (simp add: POINTS_def)
qed

theorem single_estimate_witness:
  "snd (single_main (\<lambda>i. if even i then 1 else 0)) = 1"
proof -
  have s: "{i. i < POINTS \<and> (if even (2 * i + 1) then 1 else 0 :: nat) < (if even (2 * i) then 1 else 0)} = {..<POINTS}"
    by auto
  show ?thesis
    using single_estimate [of "\<lambda>i. if even i then 1 else 0"] is_double_3(2) unfolding s
    by (force simp: RAND_MAX_def POINTS_def is_double_def)
qed

end
