(* ===== verification/WatchDir.thy ===== *)
theory WatchDir
  imports Daemon
begin

text \<open>
  One round of watching the current directory, \<open>task_6/examples/2_inotify.c\<close>: one read of events,
  and a line for each that has a name.  The buffer and the events are those of the daemon.
\<close>

section \<open>The loop over the buffer\<close>

definition watch_line :: "32 word \<Rightarrow> string \<Rightarrow> string list" where
  "watch_line m n =
     (if m AND IN_CREATE \<noteq> 0 then [''The file '' @ n @ '' was created.'']
      else if m AND IN_DELETE \<noteq> 0 then [''The file '' @ n @ '' was deleted.'']
      else if m AND IN_MODIFY \<noteq> 0 then [''The file '' @ n @ '' was modified.'']
      else [])"

text \<open>
  \<open>len\<close> is the number of bytes read, -1 after a failure, which is shown and then taken for
  an empty buffer.
\<close>

function watch_loop :: "bytes \<Rightarrow> nat \<Rightarrow> int \<Rightarrow> string list result" where
  "watch_loop buf i len =
     (if int i < len then
        (if i + EVENT_SIZE \<le> length buf then
           (let m = of_nat (field buf (i + 4)); l = field buf (i + 12); name = drop (i + EVENT_SIZE) buf
            in bindS (if l = 0 then Inr []
                      else if m AND (IN_CREATE OR IN_MODIFY OR IN_DELETE) \<noteq> 0
                      then bindS (format_s name) (\<lambda>n. Inr (watch_line m n)) else Inr []) (\<lambda>out.
               bindS (watch_loop buf (i + EVENT_SIZE + l) len) (\<lambda>rest. Inr (out @ rest))))
         else Inl OutOfBounds)
      else Inr [])"
  by pat_completeness auto
termination
  by (relation "measure (\<lambda>(buf, i, len). nat (len - int i))") (auto simp: EVENT_SIZE_def)

declare watch_loop.simps [simp del]

definition watch_dir :: "bytes option \<Rightarrow> bytes \<Rightarrow> string list result" where
  "watch_dir got junk =
     (case got of
        None \<Rightarrow> watch_loop junk 0 (-1)
      | Some bs \<Rightarrow> bindS (poke junk 0 bs) (\<lambda>buf. watch_loop buf 0 (int (length bs))))"

section \<open>Events with and without a name\<close>

text \<open>An event on the directory itself has no name field.\<close>

definition enc_watch :: "kevent + kevent \<Rightarrow> bytes" where
  "enc_watch e = (case e of
      Inl k \<Rightarrow> le_bytes (kwd k) @ le_bytes (unat (kmask k)) @ le_bytes (kcookie k) @ le_bytes 0
    | Inr k \<Rightarrow> enc_event k)"

fun watch_lines :: "kevent + kevent \<Rightarrow> string list" where
  "watch_lines (Inl k) = []"
| "watch_lines (Inr k) = watch_line (kmask k) (kname k)"

fun watch_ok :: "kevent + kevent \<Rightarrow> bool" where
  "watch_ok (Inl k) = True"
| "watch_ok (Inr k) = (kevent_ok k \<and> 0 < kpad k)"

lemma bare_fields:
  fixes k pre r
  defines "buf \<equiv> pre @ enc_watch (Inl k) @ r"
  shows "field buf (length pre + 4) = unat (kmask k)" "field buf (length pre + 12) = 0"
proof -
  have "unat (kmask k) < 2 ^ 32" using unsigned_less [of "kmask k", where ?'a = nat] by simp
  then show "field buf (length pre + 4) = unat (kmask k)"
    using field_at [of "pre @ le_bytes (kwd k)" "length pre + 4" "unat (kmask k)"] by (simp add: buf_def enc_watch_def)
  show "field buf (length pre + 12) = 0"
    using field_at [of "pre @ le_bytes (kwd k) @ le_bytes (unat (kmask k)) @ le_bytes (kcookie k)" "length pre + 12" 0]
    by (simp add: buf_def enc_watch_def)
qed

lemma padded_text: "NUL \<notin> set s \<Longrightarrow> 0 < n \<Longrightarrow> format_s (s @ replicate n NUL @ r) = Inr s"
  by (cases n) (simp_all add: format_s_text)

lemma watch_line_masked: "m AND (IN_CREATE OR IN_MODIFY OR IN_DELETE) = 0 \<Longrightarrow> watch_line m n = []"
  by (simp add: watch_line_def bit.conj_disj_distrib or_eq_0_iff)

lemma watch_loop_events:
  "\<forall>e \<in> set es. watch_ok e \<Longrightarrow>
   watch_loop (pre @ concat (map enc_watch es) @ post) (length pre) (int (length (pre @ concat (map enc_watch es)))) =
     Inr (concat (map watch_lines es))"
proof (induction es arbitrary: pre)
  case Nil
  then show ?case by (simp add: watch_loop.simps)
next
  case (Cons e es)
  let ?r = "concat (map enc_watch es) @ post"
  let ?buf = "pre @ enc_watch e @ ?r" and ?n = "int (length (pre @ enc_watch e @ concat (map enc_watch es)))"
  have ih: "watch_loop ?buf (length (pre @ enc_watch e)) ?n = Inr (concat (map watch_lines es))"
    using Cons.IH [of "pre @ enc_watch e"] Cons.prems by simp
  show ?case
  proof (cases e)
    case (Inl k)
    have l: "length (enc_watch e) = EVENT_SIZE" by (simp add: Inl enc_watch_def EVENT_SIZE_def)
    then have "int (length pre) < ?n" "length pre + EVENT_SIZE \<le> length ?buf" by (simp_all add: EVENT_SIZE_def)
    moreover have "field ?buf (length pre + 12) = 0" using bare_fields(2) [of pre k ?r] by (simp add: Inl)
    moreover have "watch_loop ?buf (length pre + EVENT_SIZE) ?n = Inr (concat (map watch_lines es))"
      using ih l by simp
    ultimately have "watch_loop ?buf (length pre) ?n = Inr (concat (map watch_lines es))"
      by (subst watch_loop.simps) (simp add: Let_def)
    then show ?thesis by (simp add: Inl)
  next
    case (Inr k)
    have ok: "NUL \<notin> set (kname k)" "length (kname k) + kpad k < 2 ^ 32" "0 < kpad k"
      using Cons.prems by (simp_all add: Inr kevent_ok_def)
    have enc: "enc_watch e = enc_event k" by (simp add: Inr enc_watch_def)
    note f = event_fields(1-3) [OF ok(2), of pre ?r] and l = event_fields(4) [OF ok(2)]
    have d: "drop (length pre + EVENT_SIZE) ?buf = kname k @ replicate (kpad k) NUL @ ?r"
      using f(3) by (simp only: EVENT_SIZE_def enc)
    have "int (length pre) < ?n" "length pre + EVENT_SIZE \<le> length ?buf" using l by (simp_all add: EVENT_SIZE_def enc)
    moreover have "field ?buf (length pre + 12) = length (kname k) + kpad k"
      "field ?buf (length pre + 4) = unat (kmask k)" using f(1,2) by (simp_all only: enc)
    moreover have "watch_loop ?buf (length pre + EVENT_SIZE + (length (kname k) + kpad k)) ?n =
        Inr (concat (map watch_lines es))"
      using ih l by (simp add: EVENT_SIZE_def enc ac_simps)
    moreover have "format_s (kname k @ replicate (kpad k) NUL @ ?r) = Inr (kname k)"
      using ok(1,3) padded_text by simp
    ultimately have "watch_loop ?buf (length pre) ?n = Inr (watch_line (kmask k) (kname k) @ concat (map watch_lines es))"
      using watch_line_masked [of "kmask k" "kname k"] d ok(3)
      by (subst watch_loop.simps) (simp add: Let_def del: append_assoc)
    then show ?thesis by (simp add: Inr)
  qed
qed

text \<open>
  Every batch of events that fits shows exactly the line of each event with a name, in order:
  one line at most, creation before deletion before modification; a failed read shows none.
\<close>

theorem watch_shows_events:
  assumes "\<forall>e \<in> set es. watch_ok e" "length (concat (map enc_watch es)) \<le> length junk"
  shows "watch_dir (Some (concat (map enc_watch es))) junk = Inr (concat (map watch_lines es)) \<and>
    watch_dir None junk = Inr []"
proof -
  have "watch_dir (Some (concat (map enc_watch es))) junk = Inr (concat (map watch_lines es))"
    using watch_loop_events [OF assms(1), of "[]"] assms(2) by (simp add: watch_dir_def poke_def)
  moreover have "watch_dir None junk = Inr []" by (simp add: watch_dir_def watch_loop.simps)
  ultimately show ?thesis by blast
qed

theorem watch_shows_events_witness:
  "watch_dir (Some (concat (map enc_watch [Inr \<lparr>kwd = 1, kmask = IN_DELETE, kcookie = 0, kname = ''a'', kpad = 15\<rparr>])))
     (replicate BUF_LEN NUL) = Inr [''The file a was deleted.'']"
proof -
  let ?e = "Inr \<lparr>kwd = 1, kmask = IN_DELETE, kcookie = 0, kname = ''a'', kpad = 15\<rparr>"
  have "\<forall>e \<in> set [?e]. watch_ok e" by (simp add: kevent_ok_def)
  moreover have "length (concat (map enc_watch [?e])) \<le> length (replicate BUF_LEN NUL)"
    by (simp add: enc_watch_def enc_event_def BUF_LEN_def EVENT_SIZE_def)
  ultimately show ?thesis
    using watch_shows_events [of "[?e]" "replicate BUF_LEN NUL"]
    by (simp add: watch_line_def IN_DELETE_def IN_CREATE_def)
qed

end
