(* ===== verification/Tools.thy ===== *)
theory Tools
  imports Decimal
begin

text \<open>
  Six single-process examples: cutting a string (\<open>task_1/examples/5_strtok.c\<close>), \<open>touch\<close>
  (\<open>7_touch.c\<close>), memory from \<open>brk\<close> (\<open>task_6/examples/3_brk_1.c\<close>), an object with its operation in
  a table (\<open>task_2/examples/1_some_OOP_elements_in_C.c\<close>), reading \<open>/proc\<close> (\<open>task_6/examples/1_procfs_read.c\<close>) and a wait with a time limit
  (\<open>task_4/examples/8_cond_timewait.c\<close>).
\<close>

section \<open>Tokens (5\_strtok.c)\<close>

definition delim :: string where
  "delim = '' ,-'' @ [CHR 0x0A]"

definition whole_string :: string where
  "whole_string = ''This is '' @ [CHR 0x0A] @ '' a   -string ''"

function puts_tokens :: "(string \<times> string) option \<Rightarrow> string list" where
  "puts_tokens p = (case p of None \<Rightarrow> [] | Some (t, r) \<Rightarrow> t # puts_tokens (strtok delim r))"
  by pat_completeness auto
termination
  by (relation "measure (\<lambda>p. case p of None \<Rightarrow> 0 | Some (t, r) \<Rightarrow> Suc (length r))")
    (auto dest: strtok_decreases split: option.split)

declare puts_tokens.simps [simp del]

definition strtok_main :: "string list" where
  "strtok_main = puts_tokens (strtok delim whole_string)"

lemma puts_tokens_all: "puts_tokens (strtok delim s) = tokens delim s"
proof (induction delim s rule: tokens.induct)
  case (1 s)
  show ?case
  proof (cases "strtok delim s")
    case None
    then show ?thesis by (simp add: puts_tokens.simps tokens_None)
  next
    case (Some p)
    obtain t r where "p = (t, r)" by force
    with Some 1 show ?thesis by (simp add: puts_tokens.simps [of "Some (t, r)"] tokens_Some)
  qed
qed

lemma strtok_main_shows: "strtok_main = [''This'', ''is'', ''a'', ''string'']"
proof -
  have d: "set delim = {CHR '' '', CHR '','', CHR ''-'', CHR 0x0A}" by (auto simp: delim_def)
  have step: "tokens delim (w @ CHR '' '' # s) = w # tokens delim s"
    if "w \<noteq> []" "set w \<inter> set delim = {}" for w s
    using that tokens_word [of w delim "CHR '' '' # s"] by (simp add: d)
  show ?thesis
    using step [of "''This''"] step [of "''is''"] step [of "''a''"] step [of "''string''" "[]"]
    by (simp add: strtok_main_def puts_tokens_all whole_string_def d)
qed

section \<open>touch (7\_touch.c)\<close>

type_synonym files = "string \<Rightarrow> bytes option"

text \<open>
  \<open>can n\<close>: \<open>open\<close> of \<open>n\<close> for writing, creating it, succeeds.  An existing file is left as it is; the
  descriptor is closed again.
\<close>

fun touch_args :: "(string \<Rightarrow> bool) \<Rightarrow> string list \<Rightarrow> files \<Rightarrow> int \<times> files" where
  "touch_args can [] fs = (0, fs)"
| "touch_args can (n # ns) fs =
     (if can n then touch_args can ns (fs(n := Some (case fs n of None \<Rightarrow> [] | Some b \<Rightarrow> b))) else (-1, fs))"

definition touch_main :: "(string \<Rightarrow> bool) \<Rightarrow> string list \<Rightarrow> files \<Rightarrow> int \<times> files" where
  "touch_main can argv fs = touch_args can (drop 1 argv) fs"

text \<open>
  The files up to the first name that cannot be opened exist afterwards, empty when they are
  new; nothing else changes; the exit code tells whether all names were reached.
\<close>

theorem touch_creates:
  "touch_args can ns fs =
     (if \<forall>n \<in> set ns. can n then 0 else -1,
      \<lambda>m. if m \<in> set (takeWhile can ns) \<and> fs m = None then Some [] else fs m)"
proof (induction ns arbitrary: fs)
  case (Cons n ns)
  show ?case
  proof (cases "can n")
    case True
    then show ?thesis by (auto simp: Cons.IH fun_eq_iff split: option.splits)
  qed simp
qed simp

section \<open>A string object (1\_some\_OOP\_elements\_in\_C.c)\<close>

record Ops =
  len_op :: "bytes \<Rightarrow> nat result"

record pString =
  str_data :: bytes
  actions :: Ops

definition f_length :: "bytes \<Rightarrow> nat result" where
  "f_length d = strlen d"

text \<open>\<open>fresh\<close>: the contents of the block \<open>malloc\<close> returns.\<close>

definition construct_string :: "bytes \<Rightarrow> pString result" where
  "construct_string fresh =
     bindS (poke fresh 0 [NUL]) (\<lambda>d. Inr \<lparr>str_data = d, actions = \<lparr>len_op = f_length\<rparr>\<rparr>)"

definition call_len :: "pString \<Rightarrow> nat result" where
  "call_len p = len_op (actions p) (str_data p)"

definition str_assign :: "pString \<Rightarrow> string \<Rightarrow> pString result" where
  "str_assign p s = bindS (poke (str_data p) 0 (lit s)) (\<lambda>d. Inr (p\<lparr>str_data := d\<rparr>))"

definition oop_main :: "bytes \<Rightarrow> nat result" where
  "oop_main fresh =
     bindS (construct_string fresh) (\<lambda>p. bindS (str_assign p ''Hello'') call_len)"

lemma string_object:
  assumes "NUL \<notin> set s" "length s < length fresh"
  shows "bindS (construct_string fresh) (\<lambda>p. bindS (str_assign p s) call_len) = Inr (length s)"
    "bindS (construct_string fresh) call_len = Inr 0"
    "construct_string [] = Inl OutOfBounds"
proof -
  obtain a r where f: "fresh = a # r" using assms(2) by (cases fresh) auto
  then have c: "construct_string fresh = Inr \<lparr>str_data = NUL # r, actions = \<lparr>len_op = f_length\<rparr>\<rparr>"
    by (simp add: construct_string_def poke_def)
  have "poke (NUL # r) 0 (lit s) = Inr (s @ NUL # drop (length s) r)"
    using assms(2) by (simp add: poke_def f)
  moreover have "strlen (s @ NUL # drop (length s) r) = Inr (length s)" using assms(1) by (rule strlen_terminated)
  ultimately show "bindS (construct_string fresh) (\<lambda>p. bindS (str_assign p s) call_len) = Inr (length s)"
    by (simp add: c str_assign_def call_len_def f_length_def)
  show "bindS (construct_string fresh) call_len = Inr 0"
    using strlen_terminated [of "[]" r] by (simp add: c call_len_def f_length_def)
  show "construct_string [] = Inl OutOfBounds" by (simp add: construct_string_def poke_def)
qed

lemma oop_main_shows: "length fresh = 4096 \<Longrightarrow> oop_main fresh = Inr 5"
  using string_object(1) [of "''Hello''" fresh] by (simp add: oop_main_def)

section \<open>/proc (1\_procfs\_read.c)\<close>

definition stat_text :: "int \<Rightarrow> string \<Rightarrow> char \<Rightarrow> int \<Rightarrow> string \<Rightarrow> string" where
  "stat_text me comm st ppid rest =
     show_int me @ '' ('' @ comm @ '') '' @ [st] @ '' '' @ show_int ppid @ '' '' @ rest"

text \<open>
  \<open>fscanf(f, "%d %s %c %d", ...)\<close> with \<open>char comm[1000]\<close>: the buffer, and the other variables
  as far as they are set.
\<close>

definition procfs_read :: "bytes \<Rightarrow> string \<Rightarrow> (bytes \<times> char option \<times> int option) result" where
  "procfs_read comm s =
     (case scan_int s of
        None \<Rightarrow> Inr (comm, None, None)
      | Some (i, s1) \<Rightarrow>
          if skip_space s1 = [] then Inr (comm, None, None)
          else bindS (scan_to comm s1) (\<lambda>(b, s2).
            Inr (case skip_space s2 of
                   [] \<Rightarrow> (b, None, None)
                 | c # s3 \<Rightarrow> (b, Some c, map_option fst (scan_int s3)))))"

lemma scan_to_text:
  assumes "w \<noteq> []" "\<forall>c \<in> set w. \<not> is_space c" "length w < length buf" "NUL \<notin> set w"
  obtains b where "scan_to buf ('' '' @ w @ '' '' @ r) = Inr (b, '' '' @ r)" "format_s b = Inr w"
proof -
  have sk: "skip_space (CHR '' '' # w @ CHR '' '' # r) = w @ CHR '' '' # r"
    using assms(1,2) by (cases w) (simp_all add: skip_space_idem)
  have tk: "takeWhile (\<lambda>c. \<not> is_space c) (w @ CHR '' '' # r) = w"
    "dropWhile (\<lambda>c. \<not> is_space c) (w @ CHR '' '' # r) = CHR '' '' # r"
    using assms(2) by (simp_all add: takeWhile_append2 dropWhile_append2)
  have "scan_to buf (CHR '' '' # w @ CHR '' '' # r) = Inr (w @ NUL # drop (Suc (length w)) buf, CHR '' '' # r)"
    using assms(1,3) unfolding scan_to_def sk tk by (simp add: poke_def)
  moreover have "format_s (w @ NUL # drop (Suc (length w)) buf) = Inr w" using assms(4) by (simp add: format_s_text)
  ultimately show ?thesis using that by simp
qed

text \<open>
  A program name without blanks is shown in its parentheses, with the state and the parent;
  of a name with a blank only the part in front of it is shown, and the next character
  is taken for the state.
\<close>

theorem procfs_fields:
  assumes "\<forall>c \<in> set a. \<not> is_space c" "NUL \<notin> set a" "length a < 990" "length buf = 1000" "\<not> is_space st"
  shows "\<exists>b. procfs_read buf (stat_text me a st ppid rest) = Inr (b, Some st, Some ppid) \<and>
      format_s b = Inr (''('' @ a @ '')'')"
    "\<not> is_space x \<Longrightarrow> \<exists>b. procfs_read buf (stat_text me (a @ '' '' @ x # y) st ppid rest) =
        Inr (b, Some x, map_option fst (scan_int (y @ '') '' @ [st] @ '' '' @ show_int ppid @ '' '' @ rest))) \<and>
      format_s b = Inr (''('' @ a)"
proof -
  have par: "\<not> is_space CHR ''(''" "\<not> is_space CHR '')''" by (simp_all add: is_space_def)
  have i: "scan_int (show_int me @ '' '' @ r) = Some (me, '' '' @ r)" for r by (rule scan_int_show) simp
  have sk: "skip_space (CHR '' '' # c # r) = c # r" if "\<not> is_space c" for c r
    using that by (simp add: skip_space_idem)
  have p: "scan_int ('' '' @ show_int ppid @ '' '' @ r) = Some (ppid, '' '' @ r)" for r
    using scan_int_show [of "'' '' @ r" ppid] by (simp add: scan_int_def)
  obtain b where b: "scan_to buf ('' '' @ (''('' @ a @ '')'') @ '' '' @ [st] @ '' '' @ show_int ppid @ '' '' @ rest) =
      Inr (b, '' '' @ [st] @ '' '' @ show_int ppid @ '' '' @ rest)" "format_s b = Inr (''('' @ a @ '')'')"
    by (rule scan_to_text [of "''('' @ a @ '')''" buf]) (use assms par in auto)
  have "procfs_read buf (stat_text me a st ppid rest) = Inr (b, Some st, Some ppid)"
    using b(1) i sk [OF assms(5)] sk [OF par(1)] p [of rest] by (simp add: procfs_read_def stat_text_def)
  with b(2) show "\<exists>b. procfs_read buf (stat_text me a st ppid rest) = Inr (b, Some st, Some ppid) \<and>
      format_s b = Inr (''('' @ a @ '')'')" by blast
  assume x: "\<not> is_space x"
  let ?r = "y @ '') '' @ [st] @ '' '' @ show_int ppid @ '' '' @ rest"
  obtain b where b: "scan_to buf ('' '' @ (''('' @ a) @ '' '' @ x # ?r) = Inr (b, '' '' @ x # ?r)"
      "format_s b = Inr (''('' @ a)"
    by (rule scan_to_text [of "''('' @ a" buf]) (use assms par in auto)
  have "procfs_read buf (stat_text me (a @ '' '' @ x # y) st ppid rest) = Inr (b, Some x, map_option fst (scan_int ?r))"
    using b(1) i sk [OF x] sk [OF par(1)] by (simp add: procfs_read_def stat_text_def)
  with b(2) show "\<exists>b. procfs_read buf (stat_text me (a @ '' '' @ x # y) st ppid rest) =
      Inr (b, Some x, map_option fst (scan_int ?r)) \<and> format_s b = Inr (''('' @ a)" by blast
qed

section \<open>A wait with a limit (8\_cond\_timewait.c)\<close>

definition ETIMEDOUT :: int where
  "ETIMEDOUT = 110"

text \<open>
  Nobody signals the condition variable: the wait ends at \<open>limit\<close>, unless it ends by itself
  before.  Its result and the time.
\<close>

definition timed_wait :: "nat \<Rightarrow> nat option \<Rightarrow> int \<times> nat" where
  "timed_wait limit wakeup =
     (case wakeup of
        Some t \<Rightarrow> if t < limit then (0, t) else (ETIMEDOUT, limit)
      | None \<Rightarrow> (ETIMEDOUT, limit))"

text \<open>\<open>now\<close>, the results of \<open>lock\<close> and \<open>unlock\<close>; exit code, the function blamed, and when.\<close>

definition timewait_main :: "nat \<Rightarrow> int \<Rightarrow> int \<Rightarrow> nat option \<Rightarrow> nat \<times> string option \<times> nat" where
  "timewait_main now lock_result unlock_result wakeup =
     (if lock_result \<noteq> 0 then (1, Some ''pthread_mutex_lock'', now)
      else let (r, t) = timed_wait (now + 5) wakeup
        in if r \<noteq> 0 then (1, Some ''pthread_cond_timedwait'', t)
           else if unlock_result \<noteq> 0 then (1, Some ''pthread_mutex_unlock'', t)
           else (0, None, t))"

lemma timewait_times_out:
  "timewait_main now 0 u None = (1, Some ''pthread_cond_timedwait'', now + 5)"
  "fst (timewait_main now l u wakeup) = 0 \<longleftrightarrow> l = 0 \<and> u = 0 \<and> (\<exists>t. wakeup = Some t \<and> t < now + 5)"
  by (auto simp: timewait_main_def timed_wait_def ETIMEDOUT_def split: option.splits prod.splits)

section \<open>Memory from the break (3\_brk\_1.c)\<close>

definition PAGE :: nat where
  "PAGE = 4096"

definition BRK_LIMIT :: nat where
  "BRK_LIMIT = 16777216"

text \<open>
  \<open>brk\<close>: the new break and the result.  The kernel refuses what lies below the start of the heap or
  above \<open>highest\<close>; the pages up to the break can be accessed.
\<close>

definition brk_call :: "nat \<Rightarrow> nat \<Rightarrow> nat \<Rightarrow> nat \<Rightarrow> nat \<times> int" where
  "brk_call highest base now new = (if base \<le> new \<and> new \<le> highest then (new, 0) else (now, - 1))"

definition accessible :: "nat \<Rightarrow> nat \<Rightarrow> nat \<Rightarrow> bool" where
  "accessible base now a \<longleftrightarrow> base \<le> a \<and> a < (now + PAGE - 1) div PAGE * PAGE"

fun fill_zero :: "(nat \<Rightarrow> bool) \<Rightarrow> nat \<Rightarrow> nat \<Rightarrow> (nat \<Rightarrow> byte) \<Rightarrow> (nat \<Rightarrow> byte) result" where
  "fill_zero ok p 0 m = Inr m"
| "fill_zero ok p (Suc n) m = (if ok p then fill_zero ok (p + 1) n (m(p := NUL)) else Inl OutOfBounds)"

text \<open>The first break \<open>b\<close> comes from \<open>sbrk(0)\<close>; the results of the two calls of \<open>brk\<close> are not looked at.\<close>

definition brk_main :: "nat \<Rightarrow> nat \<Rightarrow> nat \<Rightarrow> (nat \<Rightarrow> byte) \<Rightarrow> (nat \<times> (nat \<Rightarrow> byte)) result" where
  "brk_main highest base b m =
     (let b1 = fst (brk_call highest base b (b + BRK_LIMIT))
      in bindS (fill_zero (accessible base b1) b BRK_LIMIT m) (\<lambda>m'.
           Inr (fst (brk_call highest base b1 b), m')))"

lemma fill_zero_all:
  "\<forall>a. p \<le> a \<and> a < p + n \<longrightarrow> ok a \<Longrightarrow>
   fill_zero ok p n m = Inr (\<lambda>a. if p \<le> a \<and> a < p + n then NUL else m a)"
proof (induction n arbitrary: p m)
  case (Suc n)
  have "fill_zero ok (p + 1) n (m(p := NUL)) =
      Inr (\<lambda>a. if p + 1 \<le> a \<and> a < p + 1 + n then NUL else (m(p := NUL)) a)"
    using Suc.prems by (intro Suc.IH) auto
  moreover have "(\<lambda>a. if p + 1 \<le> a \<and> a < p + 1 + n then NUL else (m(p := NUL)) a) =
      (\<lambda>a. if p \<le> a \<and> a < p + Suc n then NUL else m a)"
    by (auto simp: fun_eq_iff)
  ultimately show ?case using Suc.prems by simp
qed (auto simp: fun_eq_iff)

lemma fill_zero_fault: "p \<le> a \<Longrightarrow> a < p + n \<Longrightarrow> \<not> ok a \<Longrightarrow> fill_zero ok p n m = Inl OutOfBounds"
proof (induction n arbitrary: p m)
  case (Suc n)
  show ?case
  proof (cases "a = p")
    case False
    then have "fill_zero ok (p + 1) n (m(p := NUL)) = Inl OutOfBounds"
      using Suc.prems by (intro Suc.IH) auto
    then show ?thesis by simp
  qed (use Suc.prems in simp)
qed simp

lemma pages_up:
  "n \<le> (n + PAGE - 1) div PAGE * PAGE" "(n + PAGE - 1) div PAGE * PAGE < n + PAGE"
proof -
  let ?x = "n + PAGE - 1"
  have d: "?x div PAGE * PAGE + ?x mod PAGE = ?x" by simp
  have "?x mod PAGE < PAGE" "PAGE = 4096" by (simp_all add: PAGE_def)
  with d show "n \<le> ?x div PAGE * PAGE" "?x div PAGE * PAGE < n + PAGE" by linarith+
qed

text \<open>
  Sixteen megabytes are cleared and given back, or, when the kernel refuses them, the program writes
  on behind the last page of its heap.
\<close>

theorem brk_clears_or_faults:
  assumes "base \<le> b" "b \<le> highest"
  shows "brk_main highest base b m =
    (if b + BRK_LIMIT \<le> highest then Inr (b, \<lambda>a. if b \<le> a \<and> a < b + BRK_LIMIT then NUL else m a)
     else Inl OutOfBounds)"
proof (cases "b + BRK_LIMIT \<le> highest")
  case True
  then have c: "brk_call highest base b (b + BRK_LIMIT) = (b + BRK_LIMIT, 0)" "fst (brk_call highest base (b + BRK_LIMIT) b) = b"
    using assms by (simp_all add: brk_call_def)
  have "\<forall>a. b \<le> a \<and> a < b + BRK_LIMIT \<longrightarrow> accessible base (b + BRK_LIMIT) a"
    using assms pages_up(1) [of "b + BRK_LIMIT"] by (auto simp: accessible_def)
  from fill_zero_all [OF this, of m] True show ?thesis by (simp add: brk_main_def Let_def c)
next
  case False
  then have c: "brk_call highest base b (b + BRK_LIMIT) = (b, - 1)" by (simp add: brk_call_def)
  have p: "PAGE < BRK_LIMIT" by (simp add: PAGE_def BRK_LIMIT_def)
  have "\<not> accessible base b (b + PAGE)" using pages_up(2) [of b] by (simp add: accessible_def)
  then have "fill_zero (accessible base b) b BRK_LIMIT m = Inl OutOfBounds"
    using p by (intro fill_zero_fault [where a = "b + PAGE"]) simp_all
  then show ?thesis using False by (simp add: brk_main_def Let_def c)
qed

theorem brk_clears_or_faults_witness:
  "brk_main 20000000 4096 5000 (\<lambda>_. CHR ''x'') =
    Inr (5000, \<lambda>a. if 5000 \<le> a \<and> a < 16782216 then NUL else CHR ''x'')"
  using brk_clears_or_faults [of 4096 5000 20000000 "\<lambda>_. CHR ''x''"] by (simp add: BRK_LIMIT_def)

end
