(* ===== verification/Timing.thy ===== *)
theory Timing
  imports MonteCarlo
begin

text \<open>
  Programs that measure their own time: the stand-alone Monte Carlo integration
  (\<open>monte_carlo/monte_carlo.c\<close>), from its thread function to the line it prints, and
  \<open>task_4/examples/7_times.c\<close>, which times a command.  The differences of two clock readings are
  computed in \<open>double\<close>; shown are their sign and their accuracy, and that what the first
  program prints does not depend on what it has computed.
\<close>

section \<open>Clock readings\<close>

text \<open>\<open>struct timeval\<close> and \<open>struct timespec\<close>: whole seconds and parts of a second.\<close>

record stamp =
  secs :: int
  parts :: int

definition stamp_ok :: "int \<Rightarrow> stamp \<Rightarrow> bool" where
  "stamp_ok unit t \<longleftrightarrow> 0 \<le> parts t \<and> parts t < unit"

definition not_later :: "stamp \<Rightarrow> stamp \<Rightarrow> bool" where
  "not_later a b \<longleftrightarrow> secs a < secs b \<or> secs a = secs b \<and> parts a \<le> parts b"

definition true_time :: "int \<Rightarrow> stamp \<Rightarrow> stamp \<Rightarrow> real" where
  "true_time unit a b = of_int (secs b - secs a) + of_int (parts b - parts a) / of_int unit"

definition elapsed_us :: "stamp \<Rightarrow> stamp \<Rightarrow> real" where
  "elapsed_us a b = rnd (rnd (of_int (secs b - secs a)) + rnd (rnd (of_int (parts b - parts a)) * rnd (1 / 1000000)))"

definition BILLION :: int where
  "BILLION = 1000000000"

definition elapsed_ns :: "stamp \<Rightarrow> stamp \<Rightarrow> real" where
  "elapsed_ns a b = rnd (rnd (of_int (secs b - secs a)) + rnd (rnd (of_int (parts b - parts a)) / rnd (of_int BILLION)))"

text \<open>Readings of the same clock, the second one not earlier, less than \<open>2^52\<close> seconds apart.\<close>

definition readings :: "int \<Rightarrow> stamp \<Rightarrow> stamp \<Rightarrow> bool" where
  "readings unit a b \<longleftrightarrow> stamp_ok unit a \<and> stamp_ok unit b \<and> not_later a b \<and> secs b - secs a < 2 ^ 52"

lemma parts_between:
  assumes "stamp_ok unit a" "stamp_ok unit b"
  shows "\<bar>parts b - parts a\<bar> \<le> unit - 1"
  using assms by (auto simp: stamp_ok_def)

lemma rnd_parts:
  assumes "stamp_ok unit a" "stamp_ok unit b" "unit \<le> 2 ^ 52"
  shows "rnd (of_int (parts b - parts a)) = of_int (parts b - parts a)"
  using is_double_int [of "parts b - parts a"] parts_between [OF assms(1,2)] assms(3)
  by (simp add: is_double_def)

text \<open>
  The sum of the seconds and a rounded fraction \<open>q\<close> that is close to the exact one: not
  negative, and off by at most two roundings.
\<close>

lemma sum_of_parts:
  assumes "readings unit a b" "0 < unit" "\<bar>q\<bar> \<le> 1" "\<bar>q - of_int (parts b - parts a) / of_int unit\<bar> \<le> e"
    and "parts a \<le> parts b \<Longrightarrow> 0 \<le> q"
  shows "0 \<le> rnd (rnd (of_int (secs b - secs a)) + q)"
    and "\<bar>rnd (rnd (of_int (secs b - secs a)) + q) - true_time unit a b\<bar> \<le> e + (of_int (secs b - secs a) + 1) / 2 ^ 53"
proof -
  let ?d = "secs b - secs a"
  have d: "0 \<le> ?d" "?d < 2 ^ 52" using assms(1) by (auto simp: readings_def not_later_def)
  then have r: "rnd (of_int ?d) = of_int ?d"
    using is_double_int [of ?d] by (simp add: is_double_def)
  have "0 \<le> of_int ?d + q"
  proof (cases "?d = 0")
    case True
    then show ?thesis using assms(1,5) by (simp add: readings_def not_later_def)
  next
    case False
    then have "1 \<le> ?d" using d(1) by linarith
    then have "1 \<le> (of_int ?d :: real)" by (simp only: of_int_1_le_iff)
    then show ?thesis using assms(3) by linarith
  qed
  then show "0 \<le> rnd (rnd (of_int ?d) + q)" by (simp only: r rnd_nonneg)
  have "\<bar>of_int ?d + q\<bar> \<le> of_int ?d + 1" using assms(3) d(1) by linarith
  then have "\<bar>of_int ?d + q\<bar> / 2 ^ 53 \<le> (of_int ?d + 1) / 2 ^ 53" by (intro divide_right_mono) simp_all
  then have "\<bar>rnd (of_int ?d + q) - (of_int ?d + q)\<bar> \<le> (of_int ?d + 1) / 2 ^ 53"
    using rnd_error [of "of_int ?d + q"] by linarith
  then show "\<bar>rnd (rnd (of_int ?d) + q) - true_time unit a b\<bar> \<le> e + (of_int ?d + 1) / 2 ^ 53"
    using assms(4) unfolding r true_time_def by linarith
qed

lemma share_sum_ns: "1 / 2 ^ 53 + (d + 1) / 2 ^ 53 = (d + 2) / (2 ^ 53 :: real)"
  and share_sum_us: "2 / 2 ^ 53 + (d + 1) / 2 ^ 53 = (d + 3) / (2 ^ 53 :: real)"
  by (simp_all add: add_divide_distrib [symmetric])

lemma abs_chain: "\<bar>x - y\<bar> \<le> e \<Longrightarrow> \<bar>y - z\<bar> \<le> f \<Longrightarrow> \<bar>x - z\<bar> \<le> e + (f :: real)"
  by linarith

text \<open>The time is never negative and right to within \<open>(s + 3) / 2^53\<close> seconds, for \<open>s\<close> whole ones.\<close>

theorem elapsed_ns_right:
  assumes "readings BILLION a b"
  shows "0 \<le> elapsed_ns a b"
    "\<bar>elapsed_ns a b - true_time BILLION a b\<bar> \<le> (of_int (secs b - secs a) + 2) / 2 ^ 53"
proof -
  let ?p = "parts b - parts a"
  have ok: "stamp_ok BILLION a" "stamp_ok BILLION b" using assms by (simp_all add: readings_def)
  have p: "rnd (of_int ?p) = of_int ?p" using rnd_parts [OF ok] by (simp add: BILLION_def)
  have B: "rnd (of_int BILLION) = of_int BILLION"
    using is_double_int [of BILLION] by (simp add: is_double_def BILLION_def)
  let ?x = "of_int ?p / of_int BILLION :: real"
  have "\<bar>?p\<bar> \<le> BILLION - 1" by (rule parts_between [OF ok])
  then have "\<bar>of_int ?p\<bar> \<le> (of_int BILLION :: real)" by linarith
  then have x: "- 1 \<le> ?x" "?x \<le> 1" by (simp_all add: BILLION_def field_simps)
  have "- 1 \<le> rnd ?x" "rnd ?x \<le> 1"
    using dbl.round_between [of "- 1" 1 ?x] x is_double_3 by (simp_all add: is_double_minus)
  then have q: "\<bar>rnd ?x\<bar> \<le> 1" by linarith
  have "\<bar>?x\<bar> / 2 ^ 53 \<le> 1 / 2 ^ 53" using x by (intro divide_right_mono) simp_all
  then have e: "\<bar>rnd ?x - ?x\<bar> \<le> 1 / 2 ^ 53" using rnd_error [of ?x] by linarith
  have n: "0 \<le> rnd ?x" if "parts a \<le> parts b" using that by (intro rnd_nonneg) (simp add: BILLION_def)
  have "(0 :: int) < BILLION" by (simp add: BILLION_def)
  note s = sum_of_parts [OF assms this q e n]
  have eq: "elapsed_ns a b = rnd (rnd (of_int (secs b - secs a)) + rnd ?x)"
    by (simp only: elapsed_ns_def p B)
  show "0 \<le> elapsed_ns a b" using s(1) by (simp only: eq)
  show "\<bar>elapsed_ns a b - true_time BILLION a b\<bar> \<le> (of_int (secs b - secs a) + 2) / 2 ^ 53"
    using s(2) share_sum_ns [of "of_int (secs b - secs a)"] by (simp only: eq)
qed

theorem elapsed_ns_right_witness:
  "0 \<le> elapsed_ns \<lparr>secs = 3, parts = 999999999\<rparr> \<lparr>secs = 4, parts = 0\<rparr>"
  by (rule elapsed_ns_right) (simp add: readings_def stamp_ok_def not_later_def BILLION_def)

theorem elapsed_us_right:
  assumes "readings 1000000 a b"
  shows "0 \<le> elapsed_us a b"
    "\<bar>elapsed_us a b - true_time 1000000 a b\<bar> \<le> (of_int (secs b - secs a) + 3) / 2 ^ 53"
proof -
  let ?p = "parts b - parts a"
  let ?u = "rnd (1 / 1000000)"
  have ok: "stamp_ok 1000000 a" "stamp_ok 1000000 b" using assms by (simp_all add: readings_def)
  have p: "rnd (of_int ?p) = of_int ?p" using rnd_parts [OF ok] by simp
  have "\<bar>?p\<bar> \<le> 999999" using parts_between [OF ok] by simp
  then have P: "\<bar>of_int ?p :: real\<bar> \<le> 999999" by linarith
  have u: "\<bar>?u - 1 / 1000000\<bar> \<le> 1 / 1000000 / 2 ^ 53" using rnd_error [of "1 / 1000000"] by simp
  let ?x = "of_int ?p * ?u"
  have "?x - of_int ?p / 1000000 = of_int ?p * (?u - 1 / 1000000)" by (simp add: right_diff_distrib)
  then have "\<bar>?x - of_int ?p / 1000000\<bar> = \<bar>of_int ?p\<bar> * \<bar>?u - 1 / 1000000\<bar>" by (simp only: abs_mult)
  also have "\<dots> \<le> 999999 * (1 / 1000000 / 2 ^ 53)" using P u by (intro mult_mono) simp_all
  finally have e1: "\<bar>?x - of_int ?p / 1000000\<bar> \<le> 1 / 2 ^ 53" by simp
  have "\<bar>of_int ?p / 1000000 :: real\<bar> \<le> 999999 / 1000000" using P by simp
  moreover have "1 / 2 ^ 53 \<le> (1 / 1000000 :: real)" by simp
  ultimately have x: "- 1 \<le> ?x" "?x \<le> 1" using e1 by linarith+
  have "- 1 \<le> rnd ?x" "rnd ?x \<le> 1"
    using dbl.round_between [of "- 1" 1 ?x] x is_double_3 by (simp_all add: is_double_minus)
  then have q: "\<bar>rnd ?x\<bar> \<le> 1" by linarith
  have "\<bar>?x\<bar> / 2 ^ 53 \<le> 1 / 2 ^ 53" using x by (intro divide_right_mono) simp_all
  then have "\<bar>rnd ?x - ?x\<bar> \<le> 1 / 2 ^ 53" using rnd_error [of ?x] by linarith
  then have "\<bar>rnd ?x - of_int ?p / 1000000\<bar> \<le> 1 / 2 ^ 53 + 1 / 2 ^ 53" using e1 by (rule abs_chain)
  then have e: "\<bar>rnd ?x - of_int ?p / of_int 1000000\<bar> \<le> 2 / 2 ^ 53" by simp
  have n: "0 \<le> rnd ?x" if "parts a \<le> parts b"
    using that by (intro rnd_nonneg mult_nonneg_nonneg) simp_all
  note s = sum_of_parts [OF assms _ q e n]
  have eq: "elapsed_us a b = rnd (rnd (of_int (secs b - secs a)) + rnd ?x)"
    by (simp only: elapsed_us_def p)
  show "0 \<le> elapsed_us a b" using s(1) by (simp only: eq)
  show "\<bar>elapsed_us a b - true_time 1000000 a b\<bar> \<le> (of_int (secs b - secs a) + 3) / 2 ^ 53"
    using s(2) share_sum_us [of "of_int (secs b - secs a)"] by (simp only: eq)
qed

theorem elapsed_us_right_witness:
  "0 \<le> elapsed_us \<lparr>secs = 3, parts = 999999\<rparr> \<lparr>secs = 4, parts = 0\<rparr>"
  by (rule elapsed_us_right) (simp add: readings_def stamp_ok_def not_later_def)

section \<open>Timing a command\<close>

text \<open>
  \<open>7_times.c\<close>: the exit status, the commands that were run and the printed text; \<open>None\<close> is a
  clock that cannot be read.  Without an argument \<open>system\<close> gets the null pointer and runs
  nothing.
\<close>

definition times_main :: "stamp option \<Rightarrow> stamp option \<Rightarrow> string list \<Rightarrow> int \<times> string list \<times> string option" where
  "times_main start stop argv =
     (case start of
        None \<Rightarrow> (1, [], None)
      | Some a \<Rightarrow>
          let cmds = take 1 (drop 1 argv)
          in case stop of
               None \<Rightarrow> (1, cmds, None)
             | Some b \<Rightarrow> (0, cmds, Some (show_lf (elapsed_ns a b) @ '' seconds'' @ [CHR 0x0A])))"

theorem times_of_command:
  assumes "readings BILLION a b" "times_main (Some a) stop (prog # cmd # rest) = (status, cmds, out)"
  shows "cmds = [cmd]" "status = 0 \<longleftrightarrow> stop \<noteq> None"
    "stop = Some b \<Longrightarrow> \<exists>t. 0 \<le> t \<and> out = Some (show_lf t @ '' seconds'' @ [CHR 0x0A]) \<and>
       \<bar>t - true_time BILLION a b\<bar> \<le> (of_int (secs b - secs a) + 2) / 2 ^ 53"
  using assms(2) elapsed_ns_right [OF assms(1)]
  by (cases stop; auto simp: times_main_def Let_def)+

theorem times_of_command_witness:
  "\<exists>t. 0 \<le> t \<and> times_main (Some \<lparr>secs = 1, parts = 5\<rparr>) (Some \<lparr>secs = 2, parts = 4\<rparr>) [''times'', ''ls''] =
    (0, [''ls''], Some (show_lf t @ '' seconds'' @ [CHR 0x0A]))"
proof -
  let ?a = "\<lparr>secs = 1, parts = 5\<rparr>" and ?b = "\<lparr>secs = 2, parts = 4\<rparr>"
  have r: "readings BILLION ?a ?b" by (simp add: readings_def stamp_ok_def not_later_def BILLION_def)
  obtain st cmds out where m: "times_main (Some ?a) (Some ?b) [''times'', ''ls''] = (st, cmds, out)"
    by (metis prod_cases3)
  show ?thesis using times_of_command [OF r m] m by auto
qed

section \<open>The thread function of the stand-alone program\<close>

text \<open>
  The loop with its counter of type \<open>int\<close>, which is incremented after every point, and its
  bound of type \<open>long long\<close>.
\<close>

function slice_loop ::
  "rand \<Rightarrow> real \<Rightarrow> real \<Rightarrow> real \<Rightarrow> real \<Rightarrow> int \<Rightarrow> int \<Rightarrow> 32 word \<Rightarrow> real \<Rightarrow> real result" where
  "slice_loop rr x1 y1 x2 y2 points_num i seed square =
     (if i < points_num
      then let (x, seed1) = draw rr x1 x2 seed;
               (y, seed2) = draw rr y1 y2 seed1;
               square' = (if y < func x then rnd (square + 1) else square)
           in if i = 2 ^ 31 - 1 then Inl Overflow
              else slice_loop rr x1 y1 x2 y2 points_num (i + 1) seed2 square'
      else Inr square)"
  by pat_completeness auto
termination
  by (relation "measure (\<lambda>(rr, x1, y1, x2, y2, n, i, seed, sq). nat (n - i))") auto

declare slice_loop.simps [simp del]

definition slice_share :: "rand \<Rightarrow> 32 word \<Rightarrow> real list \<Rightarrow> double result" where
  "slice_share rr now d_arg =
     (let x1 = d_arg ! 0; y1 = d_arg ! 1; x2 = d_arg ! 2; y2 = d_arg ! 3
      in bindS (to_long (d_arg ! 4)) (\<lambda>points_num.
         bindS (slice_loop rr x1 y1 x2 y2 points_num 0 now 0) (\<lambda>square.
           Inr (if points_num = 0 then None
                else Some (rnd (rnd (rnd (square / rnd (of_int points_num)) * rnd (x2 - x1)) * rnd (y2 - y1)))))))"

lemma slice_loop_fits:
  assumes "points \<le> 2 ^ 31 - 1"
  shows "slice_loop rr (d ! 0) (d ! 1) (d ! 2) (d ! 3) points i seed square =
    Inr (square_loop rr d (nat (points - i)) seed square)"
proof (induction "nat (points - i)" arbitrary: i seed square)
  case 0
  then show ?case by (simp add: slice_loop.simps [of _ _ _ _ _ points i])
next
  case (Suc k)
  then have n: "nat (points - i) = Suc (nat (points - (i + 1)))" "k = nat (points - (i + 1))" "i < points"
    by linarith+
  have "i \<noteq> 2 ^ 31 - 1" using n(3) assms by linarith
  moreover note Suc.hyps(1) [OF n(2)]
  ultimately show ?case
    unfolding n(1) using n(3) by (simp add: slice_loop.simps [of _ _ _ _ _ points i] split: prod.split)
qed

lemma slice_loop_overflows:
  assumes "2 ^ 31 - 1 < points" "i \<le> 2 ^ 31 - 1"
  shows "slice_loop rr x1 y1 x2 y2 points i seed square = Inl Overflow"
  using assms(2)
proof (induction "nat (2 ^ 31 - 1 - i)" arbitrary: i seed square)
  case 0
  then have "i = 2 ^ 31 - 1" by linarith
  then show ?case
    using assms(1) by (simp add: slice_loop.simps [of _ _ _ _ _ points "2147483647"] split: prod.split)
next
  case (Suc k)
  then have n: "k = nat (2 ^ 31 - 1 - (i + 1))" "i + 1 \<le> 2 ^ 31 - 1" by linarith+
  then have "i < points" "i \<noteq> 2 ^ 31 - 1" using assms(1) by linarith+
  moreover note Suc.hyps(1) [OF n]
  ultimately show ?case by (simp add: slice_loop.simps [of _ _ _ _ _ points i] split: prod.split)
qed

text \<open>The two copies of the thread function, here and in the worker, are the same function.\<close>

theorem same_thread_function: "slice_share rr now d = square_of_one_square rr now d"
proof (cases "to_long (d ! 4)")
  case (Inl e)
  then show ?thesis by (simp add: slice_share_def square_of_one_square_def)
next
  case (Inr n)
  show ?thesis
  proof (cases "n \<le> 2 ^ 31 - 1")
    case True
    from slice_loop_fits [OF this, of rr d 0 now 0] Inr True show ?thesis
      by (simp add: slice_share_def square_of_one_square_def)
  next
    case False
    then have "2 ^ 31 - 1 < n" by linarith
    from slice_loop_overflows [OF this, of 0 rr] Inr this show ?thesis
      by (simp add: slice_share_def square_of_one_square_def)
  qed
qed

section \<open>The stand-alone program\<close>

text \<open>
  One complete run: the slices, a share for each thread, the threads on the mutex until the main
  thread has joined them all, the time.  \<open>r\<close> is the estimate in \<open>res_square\<close> and \<open>out\<close> what was
  printed.
\<close>

inductive standalone ::
  "rand \<Rightarrow> (nat \<Rightarrow> 32 word) \<Rightarrow> string list \<Rightarrow> stamp \<Rightarrow> stamp \<Rightarrow> double \<Rightarrow> string \<Rightarrow> bool" for rr now where
  "main_args argv = Inr args \<Longrightarrow>
   \<forall>i < length args. slice_share rr (now i) (args ! i) = Inr (work i) \<Longrightarrow>
   (mc_step work)\<^sup>*\<^sup>* (mc_init (length args)) s \<Longrightarrow> main_at s = MRet r \<Longrightarrow>
   standalone rr now argv start stop r
     ((if length argv \<noteq> 2 then ''Only two params'' @ [CHR 0x0A] else '''') @ show_lf (elapsed_us start stop) @ '';'')"

lemma standalone_shares:
  "\<forall>i < length args. slice_share rr (now i) (args ! i) = Inr (work i) \<Longrightarrow> shares rr now args work"
  by (simp add: shares_def same_thread_function)

lemma main_args_number:
  assumes "- (2 ^ 31) \<le> n" "n < 2 ^ 31"
  shows "main_args [prog, show_int n] = mc_args default_task n"
  by (rule standalone_slices [OF assms])

lemma standalone_parts:
  assumes "1 \<le> n" "n \<le> NUM_PTS" "readings 1000000 start stop"
  shows "\<exists>r out. standalone rr now [prog, show_int n] start stop r out"
    "standalone rr now [prog, show_int n] start stop r out \<Longrightarrow>
      (\<exists>v. r = Some v \<and> 0 \<le> v) \<and> (\<exists>t. 0 \<le> t \<and> out = show_lf t @ '';'' \<and>
        \<bar>t - true_time 1000000 start stop\<bar> \<le> (of_int (secs stop - secs start) + 3) / 2 ^ 53)"
proof -
  have args: "main_args [prog, show_int n] = mc_args default_task n"
    using assms(1,2) by (intro main_args_number) (simp_all add: NUM_PTS_def)
  have p: "0 \<le> num_of_points default_task" "num_of_points default_task + n \<le> 2 ^ 52"
    "num_of_points default_task div n \<le> num_of_points default_task"
    using assms(1,2) zdiv_mono2 [of NUM_PTS 1 n] by (simp_all add: default_task_def NUM_PTS_def)
  then have d: "num_of_points default_task div n < 2 ^ 31" by (simp add: default_task_def NUM_PTS_def)
  have sq: "tx1 default_task \<le> tx2 default_task" "ty1 default_task \<le> ty2 default_task"
    by (simp_all add: default_task_def)
  obtain args where a: "mc_args default_task n = Inr args"
    using assms(1) by (simp add: mc_args_def)
  have le: "n \<le> num_of_points default_task" using assms(2) by (simp add: default_task_def)
  have pos: "0 < num_of_points default_task div n"
    using le assms(1) by (simp add: pos_imp_zdiv_pos_iff)
  have "\<exists>v. slice_share rr (now i) (args ! i) = Inr v" if "i < length args" for i
  proof -
    have "to_long (args ! i ! 4) = Inr (int (nat (num_of_points default_task div n)))"
      using thread_points [OF a that p(1,2)] pos by simp
    from square_value [OF this] show ?thesis using pos d by (simp add: same_thread_function)
  qed
  then obtain work where w: "\<forall>i < length args. slice_share rr (now i) (args ! i) = Inr (work i)" by metis
  obtain s r0 where "(mc_step work)\<^sup>*\<^sup>* (mc_init (length args)) s" "main_at s = MRet r0"
    using mc_run.finishes [OF refl] unfolding mc_final_def by blast
  then show "\<exists>r out. standalone rr now [prog, show_int n] start stop r out"
    using standalone.intros [OF _ w] args a by metis
  show "(\<exists>v. r = Some v \<and> 0 \<le> v) \<and> (\<exists>t. 0 \<le> t \<and> out = show_lf t @ '';'' \<and>
      \<bar>t - true_time 1000000 start stop\<bar> \<le> (of_int (secs stop - secs start) + 3) / 2 ^ 53)"
    if "standalone rr now [prog, show_int n] start stop r out"
    using that
  proof cases
    case (1 args' work' s')
    then have "mc_args default_task n = Inr args'" using args by simp
    from monte_carlo_estimate_parts(2) [OF this standalone_shares [OF 1(3)] p(1,2) d sq 1(4,5) le]
    have "\<exists>v. r = Some v \<and> 0 \<le> v" by blast
    moreover have "out = show_lf (elapsed_us start stop) @ '';''" using 1(1) by simp
    ultimately show ?thesis using elapsed_us_right [OF assms(3)] by blast
  qed
qed

text \<open>
  C26. With a number of threads from one to \<open>NUM_PTS\<close> every run ends with an estimate that is the sum of
  the shares of \<open>NUM_PTS / n\<close> points each, some run exists, and all that is printed is the
  time, which is not negative: the estimate itself is not shown.
\<close>

theorem standalone_prints_time:
  assumes "1 \<le> n" "n \<le> NUM_PTS" "readings 1000000 start stop"
  shows "(\<exists>r out. standalone rr now [prog, show_int n] start stop r out) \<and>
    (\<forall>r out. standalone rr now [prog, show_int n] start stop r out \<longrightarrow>
      (\<exists>v. r = Some v \<and> 0 \<le> v) \<and> (\<exists>t. 0 \<le> t \<and> out = show_lf t @ '';'' \<and>
        \<bar>t - true_time 1000000 start stop\<bar> \<le> (of_int (secs stop - secs start) + 3) / 2 ^ 53))"
  using standalone_parts [OF assms] by blast

theorem standalone_prints_time_witness:
  "\<exists>r out. standalone (\<lambda>s. (0, s)) (\<lambda>_. 0) [''mc'', show_int 4] \<lparr>secs = 1, parts = 0\<rparr> \<lparr>secs = 2, parts = 0\<rparr> r out"
  using standalone_prints_time [of 4 "\<lparr>secs = 1, parts = 0\<rparr>" "\<lparr>secs = 2, parts = 0\<rparr>" "\<lambda>s. (0, s)" "\<lambda>_. 0" "''mc''"]
  by (simp add: NUM_PTS_def readings_def stamp_ok_def not_later_def)

end
