(* ===== verification/SignalSetup.thy ===== *)
theory SignalSetup
  imports Signals Decimal
begin

text \<open>
  How the two programs of \<open>task_5/tiazhelkov.ve\<close> come to their loops: the arguments, the files, and the
  order in which the handlers are installed.  A signal without a handler ends the process,
  so the receiver, which shows its process number before it has any handler, can be ended by the
  very signal that introduces the sender.
\<close>

section \<open>Handlers\<close>

datatype signo = SIGINT | SIGUSR1 | SIGUSR2

datatype handler = Data_handler | End_handler | Pid_handler | Ack_handler

type_synonym handlers = "signo \<Rightarrow> handler option"

definition no_handlers :: handlers where
  "no_handlers = (\<lambda>_. None)"

definition sigaction :: "handlers \<Rightarrow> signo \<times> handler \<Rightarrow> handlers" where
  "sigaction h a = h(fst a := Some (snd a))"

text \<open>The calls of \<open>configure_signals\<close> in the receiver and in the sender.\<close>

definition rcv_calls :: "(signo \<times> handler) list" where
  "rcv_calls = [(SIGUSR1, Data_handler), (SIGUSR2, End_handler), (SIGINT, Pid_handler)]"

definition snd_calls :: "(signo \<times> handler) list" where
  "snd_calls = [(SIGINT, Ack_handler)]"

definition configure_signals :: "(signo \<times> handler) list \<Rightarrow> handlers" where
  "configure_signals calls = foldl sigaction no_handlers calls"

section \<open>The two starts\<close>

text \<open>\<open>Leaves\<close>: a usage line and status 0; \<open>Enters\<close>: the loop, with the handlers installed.\<close>

datatype 'a start =
    Leaves string
  | Killed signo
  | Asserted
  | Enters handlers 'a

text \<open>
  The receiver.  \<open>early\<close> is a signal that arrives after so many calls of \<open>sigaction\<close>, before the
  output file is opened; \<open>writable\<close> says which files can be opened.
\<close>

definition rcv_main :: "string list \<Rightarrow> (string \<Rightarrow> bool) \<Rightarrow> (nat \<times> signo) option \<Rightarrow> string start" where
  "rcv_main argv writable early =
     (if length argv \<noteq> 2 then Leaves ''Usage: ./sig_rcv outputFileName''
      else case early of
        Some (k, sig) \<Rightarrow>
          if configure_signals (take k rcv_calls) sig = None then Killed sig
          else if writable (argv ! 1) then Enters (configure_signals rcv_calls) (argv ! 1) else Asserted
      | None \<Rightarrow>
          if writable (argv ! 1) then Enters (configure_signals rcv_calls) (argv ! 1) else Asserted)"

text \<open>The sender; its result is the process number of the receiver and the file.\<close>

definition snd_main :: "string list \<Rightarrow> (string \<Rightarrow> bytes option) \<Rightarrow> (int \<times> bytes) start result" where
  "snd_main argv fs =
     (if length argv \<noteq> 3 then Inr (Leaves ''Usage: ./sig_snd filename rcv_pid'')
      else bindS (atoi (argv ! 2)) (\<lambda>rcv_pid.
        Inr (case fs (argv ! 1) of
               None \<Rightarrow> Asserted
             | Some f \<Rightarrow> Enters (configure_signals snd_calls) (rcv_pid, f))))"

text \<open>
  \<open>kill(rcv_pid, SIGUSR2)\<close> at the end: process number 0 means the group of the caller, the sender
  itself included.
\<close>

definition end_signal :: "handlers \<Rightarrow> int \<Rightarrow> signo option" where
  "end_signal h rcv_pid = (if rcv_pid = 0 \<and> h SIGUSR2 = None then Some SIGUSR2 else None)"

lemmas setup_defs = configure_signals_def rcv_calls_def snd_calls_def sigaction_def no_handlers_def

text \<open>When all handlers are installed, no signal of the protocol ends a process.\<close>

lemma configured:
  "configure_signals rcv_calls sig \<noteq> None" "configure_signals snd_calls SIGINT = Some Ack_handler"
  "configure_signals snd_calls SIGUSR2 = None"
  by (cases sig) (simp_all add: setup_defs)

lemma early_SIGINT: "configure_signals (take k rcv_calls) SIGINT = None \<longleftrightarrow> k < 3"
proof -
  have "k = 0 \<or> k = 1 \<or> k = 2 \<or> 3 \<le> k" by linarith
  then show ?thesis by (auto simp: setup_defs)
qed

text \<open>
  The handler that takes the sender's process number is installed last: the sender's first signal
  ends the receiver when it arrives before the third call of \<open>sigaction\<close>, although the receiver
  has shown its number before the first one; after that call it never does, and the receiver
  comes to its loop if its file can be opened.
\<close>

theorem start_race:
  assumes "length argv = 2"
  shows "rcv_main argv writable (Some (k, SIGINT)) = Killed SIGINT \<longleftrightarrow> k < 3"
    and "3 \<le> k \<Longrightarrow> rcv_main argv writable (Some (k, SIGINT)) =
      (if writable (argv ! 1) then Enters (configure_signals rcv_calls) (argv ! 1) else Asserted)"
  using assms early_SIGINT [of k] by (auto simp: rcv_main_def)

theorem start_race_witness:
  "rcv_main [''sig_rcv'', ''out''] (\<lambda>_. True) (Some (2, SIGINT)) = Killed SIGINT"
  by (subst start_race(1)) simp_all

text \<open>
  A second argument that is not a number is process number 0: with an empty file the sender is
  ended by its own end signal.
\<close>

theorem sender_ends_itself:
  assumes "atoi w = Inr 0" "fs name = Some []"
  shows "\<exists>h. snd_main [prog, name, w] fs = Inr (Enters h (0, [])) \<and> end_signal h 0 = Some SIGUSR2"
  using assms configured(3) by (simp add: snd_main_def end_signal_def)

theorem sender_ends_itself_witness:
  "\<exists>h. snd_main [''sig_snd'', ''f'', ''x''] [''f'' \<mapsto> []] = Inr (Enters h (0, [])) \<and>
    end_signal h 0 = Some SIGUSR2"
  by (rule sender_ends_itself) (simp_all add: atoi_def scan_int_def scan_sign_def skip_space_def is_digit_def is_space_def)

section \<open>The transfer from the command lines\<close>

text \<open>
  The state in which both loops begin, if both programs come that far and the number on the sender's
  command line is \<open>own\<close>, the number of the receiver, which has shown it.  With another number the
  sender's signals go to another process and never to the receiver, which stays in \<open>pause\<close>.
  \<open>k\<close> is the number of calls of \<open>sigaction\<close> the receiver has made when the sender's first signal
  arrives.
\<close>

definition session ::
  "int \<Rightarrow> string list \<Rightarrow> string list \<Rightarrow> (string \<Rightarrow> bool) \<Rightarrow> (string \<Rightarrow> bytes option) \<Rightarrow> nat \<Rightarrow> sig option" where
  "session own rargv sargv writable fs k =
     (case snd_main sargv fs of
        Inr (Enters _ (rcv_pid, f)) \<Rightarrow>
          if rcv_pid \<noteq> own then None
          else (case rcv_main rargv writable (Some (k, SIGINT)) of
                  Enters _ _ \<Rightarrow> Some (sig_start f)
                | _ \<Rightarrow> None)
      | _ \<Rightarrow> None)"

lemma session_iff:
  assumes "- (2 ^ 31) \<le> pid" "pid < 2 ^ 31"
  shows "session own [rprog, out] [sprog, name, show_int pid] writable fs k = Some s0 \<longleftrightarrow>
      pid = own \<and> 3 \<le> k \<and> writable out \<and> (\<exists>f. fs name = Some f \<and> s0 = sig_start f)"
proof -
  have rcv: "rcv_main [rprog, out] writable (Some (k, SIGINT)) =
      (if k < 3 then Killed SIGINT
       else if writable out then Enters (configure_signals rcv_calls) out else Asserted)"
    using early_SIGINT [of k] by (simp add: rcv_main_def)
  have snd: "snd_main [sprog, name, show_int pid] fs = Inr (case fs name of None \<Rightarrow> Asserted
      | Some f \<Rightarrow> Enters (configure_signals snd_calls) (pid, f))"
    using atoi_show [OF assms] by (simp add: snd_main_def)
  show ?thesis unfolding session_def rcv snd by (auto split: option.splits)
qed

text \<open>
  C13. From the two command lines: a session begins exactly when the sender was given the number of
  the receiver, both files can be opened and the receiver had installed all three handlers before the
  sender's first signal.  Under every timing of the signals after that, each call of \<open>fwrite\<close> writes
  as many bytes as a package of the named file has, and each package accounts for one call at
  most, in their order.  Under every timing that stores no package between the reading of its
  number \<open>VAL[3]\<close> and the copy of its bytes, what has arrived is a subsequence of the packages:
  nothing is invented, doubled or reordered.
\<close>

theorem session_transfers:
  assumes "- (2 ^ 31) \<le> pid" "pid < 2 ^ 31"
  shows "(session own [rprog, out] [sprog, name, show_int pid] writable fs k = Some s0 \<longleftrightarrow>
      pid = own \<and> 3 \<le> k \<and> writable out \<and> (\<exists>f. fs name = Some f \<and> s0 = sig_start f)) \<and>
    (session own [rprog, out] [sprog, name, show_int pid] writable fs k = Some s0 \<longrightarrow>
      (\<exists>f. fs name = Some f \<and>
        (sig_step\<^sup>*\<^sup>* s0 s \<longrightarrow>
          (\<exists>bs. r_out s = concat bs \<and> subseq (map length bs) (map length (file_packages f)))) \<and>
        (calm_step\<^sup>*\<^sup>* s0 s \<longrightarrow> (\<exists>ps. r_out s = concat ps \<and> subseq ps (file_packages f)))))"
proof (intro conjI impI)
  let ?S = "session own [rprog, out] [sprog, name, show_int pid] writable fs k = Some s0"
  note begins = session_iff [OF assms, of own rprog out sprog name writable fs k s0]
  show "?S \<longleftrightarrow> pid = own \<and> 3 \<le> k \<and> writable out \<and> (\<exists>f. fs name = Some f \<and> s0 = sig_start f)" by (rule begins)
  assume ?S
  then obtain f where "fs name = Some f" "s0 = sig_start f" using begins by blast
  then show "\<exists>f. fs name = Some f \<and>
      (sig_step\<^sup>*\<^sup>* s0 s \<longrightarrow>
        (\<exists>bs. r_out s = concat bs \<and> subseq (map length bs) (map length (file_packages f)))) \<and>
      (calm_step\<^sup>*\<^sup>* s0 s \<longrightarrow> (\<exists>ps. r_out s = concat ps \<and> subseq ps (file_packages f)))"
    using output_blocks output_subsequence by blast
qed

theorem session_transfers_witness:
  "session 42 [''sig_rcv'', ''out''] [''sig_snd'', ''in'', show_int 42] (\<lambda>_. True) [''in'' \<mapsto> ''abc''] 3 =
    Some (sig_start ''abc'') \<and>
   session 42 [''sig_rcv'', ''out''] [''sig_snd'', ''in'', show_int 43] (\<lambda>_. True) [''in'' \<mapsto> ''abc''] 3 = None"
proof -
  have "session 42 [''sig_rcv'', ''out''] [''sig_snd'', ''in'', show_int 43] (\<lambda>_. True) [''in'' \<mapsto> ''abc''] 3 \<noteq> Some s0" for s0
    using conjunct1 [OF session_transfers [of 43 42 "''sig_rcv''" "''out''" "''sig_snd''" "''in''" "\<lambda>_. True"
        "[''in'' \<mapsto> ''abc'']" 3 s0 s0]] by simp
  moreover have "session 42 [''sig_rcv'', ''out''] [''sig_snd'', ''in'', show_int 42] (\<lambda>_. True) [''in'' \<mapsto> ''abc''] 3 =
      Some (sig_start ''abc'')"
    using conjunct1 [OF session_transfers [of 42 42 "''sig_rcv''" "''out''" "''sig_snd''" "''in''" "\<lambda>_. True"
        "[''in'' \<mapsto> ''abc'']" 3 "sig_start ''abc''" "sig_start ''abc''"]] by simp
  ultimately show ?thesis by (metis not_None_eq)
qed

end
