(* ===== verification/Threads.thy ===== *)
theory Threads
  imports Prelude "HOL-Library.Multiset"
begin

text \<open>
  Four programs of \<open>task_4/examples\<close> on what a thread is: \<open>1_threads.c\<close> (two threads print until the
  process ends), \<open>0_pid_tid.c\<close> (five threads of one process), \<open>3_set_phread_affinity.c\<close> and
  \<open>9_set_pthread_affinity.c\<close> (a thread on one processor).
\<close>

section \<open>Two threads that print\<close>

text \<open>
  \<open>MStore\<close>: the thread runs, its number is not in \<open>tid\<close> yet; POSIX does not say which comes
  first.  \<open>iteration\<close> is \<open>None\<close> for a thread that does not exist.
\<close>

definition ROUNDS :: nat where
  "ROUNDS = 4294967295"

datatype creator_pc = MCreate nat | MStore nat | MReport nat | MSleep | MLeft

datatype shown_line = Created nat nat | Not_created nat | Iterated nat nat nat

record printers =
  creator :: creator_pc
  tid :: "nat list"
  iteration :: "nat option list"
  shown :: "shown_line list"

definition printers_start :: printers where
  "printers_start = \<lparr>creator = MCreate 0, tid = [0, 0], iteration = [None, None], shown = []\<rparr>"

definition next_thread :: "nat \<Rightarrow> creator_pc" where
  "next_thread k = (if k + 1 < 2 then MCreate (k + 1) else MSleep)"

text \<open>\<open>ids k\<close> is the number the system gives to thread \<open>k\<close>.\<close>

inductive printers_step :: "(nat \<Rightarrow> nat) \<Rightarrow> printers \<Rightarrow> printers \<Rightarrow> bool" for ids where
  create: "creator s = MCreate k \<Longrightarrow>
     printers_step ids s (s\<lparr>iteration := (iteration s)[k := Some 0], creator := MStore k\<rparr>)"
| no_thread: "creator s = MCreate k \<Longrightarrow>
     printers_step ids s (s\<lparr>shown := shown s @ [Not_created k], creator := next_thread k\<rparr>)"
| stores_tid: "creator s = MStore k \<Longrightarrow>
     printers_step ids s (s\<lparr>tid := (tid s)[k := ids k], creator := MReport k\<rparr>)"
| report: "creator s = MReport k \<Longrightarrow>
     printers_step ids s (s\<lparr>shown := shown s @ [Created k (tid s ! k)], creator := next_thread k\<rparr>)"
| thread_stuff: "creator s \<noteq> MLeft \<Longrightarrow> k < 2 \<Longrightarrow> iteration s ! k = Some i \<Longrightarrow> i < ROUNDS \<Longrightarrow>
     printers_step ids s (s\<lparr>shown := shown s @ [Iterated (if ids k = tid s ! 0 then 1 else 2) (ids k) i],
       iteration := (iteration s)[k := Some (i + 1)]\<rparr>)"
| leave: "creator s = MSleep \<Longrightarrow> printers_step ids s (s\<lparr>creator := MLeft\<rparr>)"

text \<open>The rounds that thread number \<open>d\<close> has shown, with the label it gave itself.\<close>

fun rounds_of :: "nat \<Rightarrow> shown_line list \<Rightarrow> (nat \<times> nat) list" where
  "rounds_of d [] = []"
| "rounds_of d (Iterated l e i # ls) = (if e = d then (l, i) # rounds_of d ls else rounds_of d ls)"
| "rounds_of d (_ # ls) = rounds_of d ls"

lemma rounds_of_append: "rounds_of d (xs @ ys) = rounds_of d xs @ rounds_of d ys"
  by (induction d xs rule: rounds_of.induct) simp_all

fun creator_ok :: "(nat \<Rightarrow> nat) \<Rightarrow> creator_pc \<Rightarrow> nat list \<Rightarrow> nat option list \<Rightarrow> bool" where
  "creator_ok ids (MCreate k) ts is \<longleftrightarrow> k < 2 \<and> (k = 0 \<longrightarrow> is ! 0 = None \<and> ts ! 0 = 0) \<and> is ! 1 = None"
| "creator_ok ids (MStore k) ts is \<longleftrightarrow> k < 2 \<and> (k = 0 \<longrightarrow> is ! 1 = None \<and> ts ! 0 = 0)"
| "creator_ok ids (MReport k) ts is \<longleftrightarrow> k < 2 \<and> (k = 0 \<longrightarrow> is ! 1 = None) \<and> ts ! k = ids k"
| "creator_ok ids _ ts is \<longleftrightarrow> True"

text \<open>A thread shows its rounds in order; its label changes at most once, from 2 to 1.\<close>

definition thread_shows :: "printers \<Rightarrow> nat \<Rightarrow> nat option \<Rightarrow> nat \<Rightarrow> bool \<Rightarrow> bool" where
  "thread_shows s d it first_label early \<longleftrightarrow>
     map snd (rounds_of d (shown s)) = [0..<(case it of None \<Rightarrow> 0 | Some i \<Rightarrow> i)] \<and>
     (\<exists>m n. map fst (rounds_of d (shown s)) = replicate m 2 @ replicate n first_label \<and> (early \<longrightarrow> n = 0))"

definition printers_inv :: "(nat \<Rightarrow> nat) \<Rightarrow> printers \<Rightarrow> bool" where
  "printers_inv ids s \<longleftrightarrow>
     length (tid s) = 2 \<and> length (iteration s) = 2 \<and> creator_ok ids (creator s) (tid s) (iteration s) \<and>
     (tid s ! 0 = 0 \<or> tid s ! 0 = ids 0) \<and>
     (\<forall>i. iteration s ! 0 = Some i \<longrightarrow> i \<le> ROUNDS) \<and> (\<forall>i. iteration s ! 1 = Some i \<longrightarrow> i \<le> ROUNDS) \<and>
     thread_shows s (ids 0) (iteration s ! 0) 1 (tid s ! 0 = 0) \<and>
     thread_shows s (ids 1) (iteration s ! 1) 2 False"

definition ids_ok :: "(nat \<Rightarrow> nat) \<Rightarrow> bool" where
  "ids_ok ids \<longleftrightarrow> ids 0 \<noteq> ids 1 \<and> ids 0 \<noteq> 0 \<and> ids 1 \<noteq> 0"

lemma thread_shows_other:
  "thread_shows s d it l e \<Longrightarrow> rounds_of d (shown t) = rounds_of d (shown s) \<Longrightarrow> (e' \<longrightarrow> e) \<Longrightarrow> thread_shows t d it l e'"
  unfolding thread_shows_def by metis

lemma thread_shows_update [simp]:
  "thread_shows (s\<lparr>creator := c\<rparr>) = thread_shows s" "thread_shows (s\<lparr>tid := ts\<rparr>) = thread_shows s"
  "thread_shows (s\<lparr>iteration := is\<rparr>) = thread_shows s"
  "thread_shows (s\<lparr>shown := shown s @ [Not_created k]\<rparr>) = thread_shows s"
  "thread_shows (s\<lparr>shown := shown s @ [Created k n]\<rparr>) = thread_shows s"
  by (simp_all add: thread_shows_def fun_eq_iff rounds_of_append)

lemma thread_shows_start: "thread_shows s d (Some 0) l e = thread_shows s d None l e"
  by (simp add: thread_shows_def)

lemma thread_shows_round:
  assumes "thread_shows s d (Some i) l e" "rounds_of d (shown t) = rounds_of d (shown s) @ [(c, i)]"
    and "c = (if e then 2 else l)"
  shows "thread_shows t d (Some (i + 1)) l e"
proof -
  obtain m n where r: "map fst (rounds_of d (shown s)) = replicate m 2 @ replicate n l" "e \<longrightarrow> n = 0"
    using assms(1) by (auto simp: thread_shows_def)
  have "map fst (rounds_of d (shown t)) =
      (if e then replicate (Suc m) 2 @ replicate 0 l else replicate m 2 @ replicate (Suc n) l)"
    using r assms(2,3) by (auto simp: replicate_append_same)
  then have "\<exists>m n. map fst (rounds_of d (shown t)) = replicate m 2 @ replicate n l \<and> (e \<longrightarrow> n = 0)"
    by (cases e) (metis, metis)
  moreover have "map snd (rounds_of d (shown t)) = [0..<i + 1]"
    using assms(1,2) by (simp add: thread_shows_def)
  ultimately show ?thesis by (simp add: thread_shows_def)
qed

lemma printers_inv_step:
  assumes ids: "ids_ok ids" and inv: "printers_inv ids s" and step: "printers_step ids s t"
  shows "printers_inv ids t"
  using step
proof cases
  case (create k)
  have l: "length (iteration s) = 2" using inv by (simp add: printers_inv_def)
  consider (first) "k = 0" | (second) "k = 1" using create inv by (auto simp: printers_inv_def less_2_cases_iff)
  then show ?thesis
  proof cases
    case first
    then have "iteration s ! 0 = None" using create inv by (simp add: printers_inv_def)
    then show ?thesis using create first inv l by (auto simp: printers_inv_def thread_shows_start)
  next
    case second
    then have "iteration s ! 1 = None" using create inv by (simp add: printers_inv_def)
    then show ?thesis using create second inv l by (auto simp: printers_inv_def thread_shows_start)
  qed
next
  case (no_thread k)
  then show ?thesis using inv
    by (auto simp: printers_inv_def next_thread_def rounds_of_append less_2_cases_iff elim: thread_shows_other)
next
  case (stores_tid k)
  then show ?thesis using inv
    by (auto simp: printers_inv_def less_2_cases_iff nth_list_update elim: thread_shows_other)
next
  case (report k)
  then show ?thesis using inv
    by (auto simp: printers_inv_def next_thread_def rounds_of_append less_2_cases_iff elim: thread_shows_other)
next
  case (thread_stuff k i)
  consider (first) "k = 0" | (second) "k = 1" using thread_stuff by linarith
  then show ?thesis
  proof cases
    case first
    have "thread_shows t (ids 0) (Some (i + 1)) 1 (tid s ! 0 = 0)"
      by (rule thread_shows_round) (use thread_stuff first ids inv in \<open>auto simp: printers_inv_def rounds_of_append ids_ok_def\<close>)
    moreover have "thread_shows t (ids 1) (iteration s ! 1) 2 False"
      by (rule thread_shows_other) (use thread_stuff first ids inv in \<open>auto simp: printers_inv_def rounds_of_append ids_ok_def\<close>)
    ultimately show ?thesis using thread_stuff first inv
      by (cases "creator s") (auto simp: printers_inv_def nth_list_update less_2_cases_iff)
  next
    case second
    have "thread_shows t (ids 1) (Some (i + 1)) 2 False"
      by (rule thread_shows_round) (use thread_stuff second ids inv in \<open>auto simp: printers_inv_def rounds_of_append ids_ok_def\<close>)
    moreover have "thread_shows t (ids 0) (iteration s ! 0) 1 (tid s ! 0 = 0)"
      by (rule thread_shows_other) (use thread_stuff second ids inv in \<open>auto simp: printers_inv_def rounds_of_append ids_ok_def\<close>)
    ultimately show ?thesis using thread_stuff second inv
      by (cases "creator s") (auto simp: printers_inv_def nth_list_update less_2_cases_iff)
  qed
next
  case leave
  then show ?thesis using inv by (auto simp: printers_inv_def elim: thread_shows_other)
qed

lemma printers_inv_start: "printers_inv ids printers_start"
  by (auto simp: printers_inv_def printers_start_def thread_shows_def less_2_cases_iff)

interpretation printers_run: trans_inv
  "\<lambda>s. ids_ok ids \<and> s = printers_start" "printers_step ids" "\<lambda>s. ids_ok ids \<and> printers_inv ids s" for ids
  by unfold_locales (use printers_inv_start printers_inv_step in blast)+

text \<open>
  Whatever the schedule: each thread shows its rounds 0, 1, 2, and so on, none missing and none
  twice; the second thread always calls itself 2; the first one calls itself 1, but may call
  itself 2 for some rounds at the start, as long as its number is not stored.
\<close>

theorem threads_in_order:
  assumes "ids_ok ids" "(printers_step ids)\<^sup>*\<^sup>* printers_start s"
  shows "\<exists>a b m. map snd (rounds_of (ids 0) (shown s)) = [0..<a] \<and> map snd (rounds_of (ids 1) (shown s)) = [0..<b] \<and>
    a \<le> ROUNDS \<and> b \<le> ROUNDS \<and> m \<le> a \<and>
    map fst (rounds_of (ids 0) (shown s)) = replicate m 2 @ replicate (a - m) 1 \<and>
    map fst (rounds_of (ids 1) (shown s)) = replicate b 2"
proof -
  have inv: "printers_inv ids s" using printers_run.reach_inv assms by blast
  define a where "a = (case iteration s ! 0 of None \<Rightarrow> 0 | Some i \<Rightarrow> i)"
  define b where "b = (case iteration s ! 1 of None \<Rightarrow> 0 | Some i \<Rightarrow> i)"
  obtain m n where A: "map snd (rounds_of (ids 0) (shown s)) = [0..<a]"
    "map fst (rounds_of (ids 0) (shown s)) = replicate m 2 @ replicate n 1"
    using inv by (auto simp: printers_inv_def thread_shows_def a_def)
  obtain m' n' where B: "map snd (rounds_of (ids 1) (shown s)) = [0..<b]"
    "map fst (rounds_of (ids 1) (shown s)) = replicate m' 2 @ replicate n' 2"
    using inv by (auto simp: printers_inv_def thread_shows_def b_def)
  have "length (rounds_of (ids 0) (shown s)) = a" "length (rounds_of (ids 1) (shown s)) = b"
    using arg_cong [OF A(1), of length] arg_cong [OF B(1), of length] by simp_all
  then have "m + n = a" "m' + n' = b"
    using arg_cong [OF A(2), of length] arg_cong [OF B(2), of length] by simp_all
  moreover have "a \<le> ROUNDS" "b \<le> ROUNDS"
    using inv by (auto simp: a_def b_def printers_inv_def split: option.split)
  ultimately show ?thesis using A B
    by (intro exI [of _ a] exI [of _ b] exI [of _ m]) (auto simp: replicate_add [symmetric])
qed

theorem threads_in_order_witness:
  "rounds_of 7 (shown printers_start) = [] \<and> ids_ok (\<lambda>k. 7 + k)"
proof -
  have i: "ids_ok (\<lambda>k. 7 + k)" by (simp add: ids_ok_def)
  from threads_in_order [OF i rtranclp.rtrancl_refl] i show ?thesis by (auto simp: printers_start_def)
qed

text \<open>The wrong label is possible: the first thread shows its first round before its number is stored.\<close>

theorem wrong_label:
  assumes "ids_ok ids"
  shows "\<exists>s. (printers_step ids)\<^sup>*\<^sup>* printers_start s \<and> shown s = [Iterated 2 (ids 0) 0]"
proof -
  let ?a = "printers_start\<lparr>iteration := [Some 0, None], creator := MStore 0\<rparr>"
  have "printers_step ids printers_start ?a"
    using printers_step.create [of printers_start 0 ids] by (simp add: printers_start_def)
  moreover have "printers_step ids ?a (?a\<lparr>shown := [Iterated 2 (ids 0) 0], iteration := [Some 1, None]\<rparr>)"
    using printers_step.thread_stuff [of ?a 0 0 ids] assms
    by (simp add: printers_start_def ids_ok_def ROUNDS_def)
  ultimately have "(printers_step ids)\<^sup>*\<^sup>* printers_start (?a\<lparr>shown := [Iterated 2 (ids 0) 0], iteration := [Some 1, None]\<rparr>)"
    by (meson converse_rtranclp_into_rtranclp rtranclp.rtrancl_refl)
  then show ?thesis by (rule exI [of _ "?a\<lparr>shown := [Iterated 2 (ids 0) 0], iteration := [Some 1, None]\<rparr>", OF conjI]) simp
qed

theorem wrong_label_witness:
  "\<exists>s. (printers_step (\<lambda>k. 7 + k))\<^sup>*\<^sup>* printers_start s \<and> shown s = [Iterated 2 7 0]"
  using wrong_label [of "\<lambda>k. 7 + k"] by (simp add: ids_ok_def)

section \<open>Five threads of one process\<close>

text \<open>
  \<open>0_pid_tid.c\<close>: a line is a process number and a thread number; that of the first thread is
  the number of the process.  \<open>tids k\<close> is the number the system gives to thread \<open>k\<close>.
\<close>

definition NUM_THREADS :: nat where
  "NUM_THREADS = 5"

datatype teller_pc = TBefore | TCreate nat | TJoin nat | TAfter

record tellers =
  teller :: teller_pc
  ready :: "nat list"
  told :: "(nat \<times> nat) list"

definition tellers_start :: tellers where
  "tellers_start = \<lparr>teller = TBefore, ready = [], told = []\<rparr>"

fun exists_thread :: "teller_pc \<Rightarrow> nat \<Rightarrow> bool" where
  "exists_thread TBefore k \<longleftrightarrow> False"
| "exists_thread (TCreate j) k \<longleftrightarrow> k < j"
| "exists_thread _ k \<longleftrightarrow> k < NUM_THREADS"

inductive tellers_step :: "nat \<Rightarrow> (nat \<Rightarrow> nat) \<Rightarrow> tellers \<Rightarrow> tellers \<Rightarrow> bool" for pid tids where
  before: "teller s = TBefore \<Longrightarrow> tellers_step pid tids s (s\<lparr>told := told s @ [(pid, pid)], teller := TCreate 0\<rparr>)"
| new_thread: "teller s = TCreate k \<Longrightarrow> k < NUM_THREADS \<Longrightarrow> tellers_step pid tids s (s\<lparr>teller := TCreate (k + 1)\<rparr>)"
| all_created: "teller s = TCreate NUM_THREADS \<Longrightarrow> tellers_step pid tids s (s\<lparr>teller := TJoin 0\<rparr>)"
| thread_func: "exists_thread (teller s) k \<Longrightarrow> k \<notin> set (ready s) \<Longrightarrow>
     tellers_step pid tids s (s\<lparr>told := told s @ [(pid, tids k)], ready := ready s @ [k]\<rparr>)"
| joins: "teller s = TJoin k \<Longrightarrow> k < NUM_THREADS \<Longrightarrow> k \<in> set (ready s) \<Longrightarrow>
     tellers_step pid tids s (s\<lparr>teller := TJoin (k + 1)\<rparr>)"
| after: "teller s = TJoin NUM_THREADS \<Longrightarrow> tellers_step pid tids s (s\<lparr>told := told s @ [(pid, pid)], teller := TAfter\<rparr>)"

fun teller_ok :: "teller_pc \<Rightarrow> nat list \<Rightarrow> bool" where
  "teller_ok TBefore ks \<longleftrightarrow> ks = []"
| "teller_ok (TCreate j) ks \<longleftrightarrow> j \<le> NUM_THREADS \<and> set ks \<subseteq> {..<j}"
| "teller_ok (TJoin j) ks \<longleftrightarrow> j \<le> NUM_THREADS \<and> {..<j} \<subseteq> set ks \<and> set ks \<subseteq> {..<NUM_THREADS}"
| "teller_ok TAfter ks \<longleftrightarrow> set ks = {..<NUM_THREADS}"

definition told_lines :: "nat \<Rightarrow> (nat \<Rightarrow> nat) \<Rightarrow> teller_pc \<Rightarrow> nat list \<Rightarrow> (nat \<times> nat) list" where
  "told_lines pid tids pc ks = (if pc = TBefore then [] else (pid, pid) # map (\<lambda>k. (pid, tids k)) ks) @
     (if pc = TAfter then [(pid, pid)] else [])"

definition tellers_inv :: "nat \<Rightarrow> (nat \<Rightarrow> nat) \<Rightarrow> tellers \<Rightarrow> bool" where
  "tellers_inv pid tids s \<longleftrightarrow> distinct (ready s) \<and> teller_ok (teller s) (ready s) \<and>
     told s = told_lines pid tids (teller s) (ready s)"

definition tellers_final :: "tellers \<Rightarrow> bool" where
  "tellers_final s \<longleftrightarrow> teller s = TAfter"

fun teller_rank :: "teller_pc \<Rightarrow> nat" where
  "teller_rank TBefore = 2 * NUM_THREADS + 3"
| "teller_rank (TCreate j) = NUM_THREADS + 2 + (NUM_THREADS - j)"
| "teller_rank (TJoin j) = 1 + (NUM_THREADS - j)"
| "teller_rank TAfter = 0"

definition tellers_rank :: "tellers \<Rightarrow> nat" where
  "tellers_rank s = teller_rank (teller s) + (NUM_THREADS - length (ready s))"

lemma teller_ok_subset: "teller_ok pc ks \<Longrightarrow> set ks \<subseteq> {..<NUM_THREADS}"
  by (cases pc) auto

lemma told_at_most: "distinct ks \<Longrightarrow> set ks \<subseteq> {..<n} \<Longrightarrow> k < n \<Longrightarrow> k \<notin> set ks \<Longrightarrow> length ks < n"
  using card_mono [of "{..<n}" "insert k (set ks)"] distinct_card [of ks] by simp

lemma exists_thread_less: "teller_ok pc ks \<Longrightarrow> exists_thread pc k \<Longrightarrow> k < NUM_THREADS"
  by (cases pc) auto

lemma tellers_step_ok:
  assumes "tellers_inv pid tids s" "tellers_step pid tids s t"
  shows "tellers_inv pid tids t \<and> tellers_rank t < tellers_rank s"
  using assms(2)
proof cases
  case (thread_func k)
  have k: "k < NUM_THREADS" using assms(1) thread_func exists_thread_less by (auto simp: tellers_inv_def)
  have "length (ready s) < NUM_THREADS"
    by (rule told_at_most [of _ _ k])
      (use assms(1) thread_func k teller_ok_subset in \<open>auto simp: tellers_inv_def\<close>)
  then have "tellers_rank t < tellers_rank s" using thread_func by (simp add: tellers_rank_def)
  moreover have "teller s \<noteq> TBefore" "teller s \<noteq> TAfter"
    using thread_func assms(1) by (auto simp: tellers_inv_def)
  then have "tellers_inv pid tids t"
    using thread_func assms(1) k by (cases "teller s") (auto simp: tellers_inv_def told_lines_def)
  ultimately show ?thesis by blast
next
  case (joins k)
  then show ?thesis using assms(1)
    by (auto simp: tellers_inv_def tellers_rank_def told_lines_def less_Suc_eq)
qed (use assms(1) in \<open>auto simp: tellers_inv_def tellers_rank_def told_lines_def\<close>)

lemma tellers_progress:
  assumes "tellers_inv pid tids s" "\<not> tellers_final s"
  shows "\<exists>t. tellers_step pid tids s t"
proof (cases "teller s")
  case TBefore
  then show ?thesis using tellers_step.before by blast
next
  case (TCreate k)
  then have "k \<le> NUM_THREADS" using assms(1) by (simp add: tellers_inv_def)
  then consider "k = NUM_THREADS" | "k < NUM_THREADS" by linarith
  then show ?thesis using TCreate tellers_step.new_thread tellers_step.all_created by cases blast+
next
  case (TJoin k)
  then have "k \<le> NUM_THREADS" using assms(1) by (simp add: tellers_inv_def)
  then consider "k = NUM_THREADS" | "k < NUM_THREADS" "k \<in> set (ready s)" | "k < NUM_THREADS" "k \<notin> set (ready s)"
    by linarith
  then show ?thesis
  proof cases
    case 3
    then have "exists_thread (teller s) k" using TJoin by simp
    with 3 show ?thesis using tellers_step.thread_func by blast
  qed (use TJoin tellers_step.after tellers_step.joins in blast)+
qed (use assms(2) in \<open>simp add: tellers_final_def\<close>)

interpretation tellers_run: live_inv "\<lambda>s. s = tellers_start" "tellers_step pid tids" "tellers_inv pid tids"
  tellers_final tellers_rank for pid tids
proof unfold_locales
  show "tellers_inv pid tids s" if "s = tellers_start" for s
    using that by (simp add: tellers_inv_def tellers_start_def told_lines_def)
qed (use tellers_step_ok tellers_progress in blast)+

text \<open>
  No schedule gets stuck or runs for more than 18 steps; at the end the line of the first thread
  comes first and last, and between them stands one line for each of the five threads, in
  any order, all with the same process number.
\<close>

theorem threads_share_pid:
  assumes "(tellers_step pid tids ^^ n) tellers_start s"
  shows "n \<le> 18 \<and> ((\<nexists>t. tellers_step pid tids s t) \<longrightarrow> (\<exists>ks. distinct ks \<and> set ks = {..<5} \<and>
    told s = (pid, pid) # map (\<lambda>k. (pid, tids k)) ks @ [(pid, pid)]))"
proof -
  have i0: "tellers_inv pid tids tellers_start" by (rule tellers_run.init_inv [OF refl])
  have inv: "tellers_inv pid tids s" using tellers_run.steps_inv i0 assms by (meson relpowp_imp_rtranclp)
  have "tellers_rank tellers_start = 18" by (simp add: tellers_rank_def tellers_start_def NUM_THREADS_def)
  then have "n \<le> 18" using tellers_run.run_length [OF assms i0] by simp
  moreover have "\<exists>ks. distinct ks \<and> set ks = {..<5} \<and> told s = (pid, pid) # map (\<lambda>k. (pid, tids k)) ks @ [(pid, pid)]"
    if "\<nexists>t. tellers_step pid tids s t"
  proof -
    have "tellers_final s" using tellers_progress inv that by blast
    then show ?thesis using inv
      by (intro exI [of _ "ready s"]) (auto simp: tellers_inv_def tellers_final_def told_lines_def NUM_THREADS_def)
  qed
  ultimately show ?thesis by blast
qed

theorem threads_share_pid_witness: "(0 :: nat) \<le> 18 \<and> (\<exists>t. tellers_step 10 (\<lambda>k. 11 + k) tellers_start t)"
proof -
  have "(tellers_step 10 (\<lambda>k. 11 + k) ^^ 0) tellers_start tellers_start" by simp
  from threads_share_pid [OF this] show ?thesis by (auto simp: tellers_start_def)
qed

section \<open>Processors\<close>

text \<open>\<open>CPU_SET\<close> leaves the set alone when the number does not fit into it.\<close>

definition CPU_SETSIZE :: nat where
  "CPU_SETSIZE = 1024"

definition EINVAL :: int where
  "EINVAL = 22"

definition one_cpu :: "nat \<Rightarrow> nat set" where
  "one_cpu k = (if k < CPU_SETSIZE then {k} else {})"

text \<open>The call fails when no processor of the set is there; the mask of the thread is then kept.\<close>

definition setaffinity :: "nat set \<Rightarrow> nat set \<Rightarrow> nat set \<Rightarrow> int \<times> nat set" where
  "setaffinity online allowed cpuset = (if cpuset \<inter> online = {} then (EINVAL, allowed) else (0, cpuset \<inter> online))"

definition stick_this_thread_to_core :: "nat set \<Rightarrow> nat set \<Rightarrow> int \<Rightarrow> int \<times> nat set" where
  "stick_this_thread_to_core online allowed core_id =
     (let num_cores = int (card online)
      in if core_id < 0 \<or> num_cores \<le> core_id then (EINVAL, allowed)
         else setaffinity online allowed (one_cpu (nat core_id)))"

text \<open>
  The thread ends up on exactly the processor that was asked for, or the call reports \<open>EINVAL\<close> and
  changes nothing.  With the processors \<open>0\<close> to \<open>n - 1\<close> it succeeds for exactly these; with a gap
  among them, a number below the count can fail and the highest processors cannot be reached.
\<close>

theorem stick_exact:
  "stick_this_thread_to_core online allowed c =
     (if 0 \<le> c \<and> c < int (card online) \<and> nat c \<in> online \<and> nat c < CPU_SETSIZE then (0, {nat c}) else (EINVAL, allowed))"
  by (auto simp: stick_this_thread_to_core_def setaffinity_def one_cpu_def Let_def)

theorem stick_range: "n \<le> CPU_SETSIZE \<Longrightarrow> fst (stick_this_thread_to_core {..<n} allowed c) = 0 \<longleftrightarrow> 0 \<le> c \<and> c < int n"
  by (auto simp: stick_exact EINVAL_def)

theorem stick_range_witness: "fst (stick_this_thread_to_core {..<4} {0, 1} 3) = 0"
  by (subst stick_range) (simp_all add: CPU_SETSIZE_def)

text \<open>
  The program that binds a thread to processor 2, does not look at the result and then burns:
  \<open>main\<close> waits for a thread that never ends.
\<close>

datatype burner_pc = BNone | BBind | BBurn | BEnd
datatype burner_main = BCreate | BJoin | BReturn

record burner =
  burn_main :: burner_main
  burn_thread :: burner_pc
  cpu_mask :: "nat set"

definition burner_start :: "nat set \<Rightarrow> burner" where
  "burner_start allowed = \<lparr>burn_main = BCreate, burn_thread = BNone, cpu_mask = allowed\<rparr>"

inductive burner_step :: "nat set \<Rightarrow> burner \<Rightarrow> burner \<Rightarrow> bool" for online where
  creates: "burn_main s = BCreate \<Longrightarrow> burner_step online s (s\<lparr>burn_main := BJoin, burn_thread := BBind\<rparr>)"
| binds: "burn_thread s = BBind \<Longrightarrow>
     burner_step online s (s\<lparr>cpu_mask := snd (setaffinity online (cpu_mask s) (one_cpu 2)), burn_thread := BBurn\<rparr>)"
| burns: "burn_thread s = BBurn \<Longrightarrow> burner_step online s (s\<lparr>burn_thread := BBurn\<rparr>)"
| returns: "burn_main s = BJoin \<Longrightarrow> burn_thread s = BEnd \<Longrightarrow> burner_step online s (s\<lparr>burn_main := BReturn\<rparr>)"

definition burner_inv :: "nat set \<Rightarrow> nat set \<Rightarrow> burner \<Rightarrow> bool" where
  "burner_inv online allowed s \<longleftrightarrow> burn_main s \<noteq> BReturn \<and> burn_thread s \<noteq> BEnd \<and>
     (burn_main s = BCreate \<longleftrightarrow> burn_thread s = BNone) \<and>
     cpu_mask s = (if burn_thread s = BBurn \<and> 2 \<in> online then {2} else allowed)"

interpretation burner_run: trans_inv "\<lambda>s. s = burner_start allowed" "burner_step online" "burner_inv online allowed"
  for online allowed
proof unfold_locales
  show "burner_inv online allowed s" if "s = burner_start allowed" for s
    using that by (simp add: burner_inv_def burner_start_def)
  show "burner_inv online allowed t" if "burner_inv online allowed s" "burner_step online s t" for s t
    using that(2,1)
    by cases (auto simp: burner_inv_def setaffinity_def one_cpu_def CPU_SETSIZE_def)
qed

text \<open>It never ends and never stops, on processor 2 if there is one and else wherever it was allowed to run.\<close>

theorem burner_burns:
  assumes "(burner_step online)\<^sup>*\<^sup>* (burner_start allowed) s"
  shows "burn_main s \<noteq> BReturn \<and> (\<exists>t. burner_step online s t) \<and>
    (burn_thread s = BBurn \<longrightarrow> cpu_mask s = (if 2 \<in> online then {2} else allowed))"
proof -
  have inv: "burner_inv online allowed s" using burner_run.reach_inv [OF refl assms] .
  then have "\<exists>t. burner_step online s t"
    by (cases "burn_thread s") (auto simp: burner_inv_def intro: burner_step.intros)
  with inv show ?thesis by (auto simp: burner_inv_def)
qed

theorem burner_burns_witness: "\<exists>t. burner_step {0, 1} (burner_start {0, 1}) t"
  using burner_burns [of "{0, 1}" "{0, 1}" "burner_start {0, 1}"] by simp

end
