(* ===== verification/Spec2Isabelle.thy ===== *)
theory Spec2Isabelle
  imports ShellRun DuplexPipe Fifo MqPosix Shmem Signals SendFile MonteCarlo Cluster Daemon ProdCons Counting
    Chat EchoServer TokenServer ExecPipes TextPipe ListDir Udp Processes
    CntSem Greetings Readiness MonteSingle WatchDir Tools
    Timing SignalSetup Threads
begin

text \<open>
  The programs of an operating-systems course: a shell, five ways to carry a file from one
  process to another, a file server, a directory daemon and a distributed Monte Carlo
  integration.  The programs do not call each other; they share the kernel objects and
  the C library they use, and those are modelled once.

  \<^bold>\<open>Shared theories.\<close>
  \<^item> \<open>Prelude\<close>: bytes, the error type, \<open>chunks\<close> (a file cut by a buffer), and the interfaces
    \<open>chunk_codec\<close> (a medium that carries one chunk), \<open>trans_inv\<close> (a transition system with an
    invariant) and \<open>live_inv\<close> (one that always moves on: it cannot get stuck, reaches its end
    from everywhere and bounds the length of its runs).
  \<^item> \<open>Channel\<close>: the abstract specification of every transfer, a bounded channel; the interfaces
    \<open>simulation\<close> (a system with an invariant whose steps are invisible or abstract steps) and
    \<open>medium\<close> (one that refines the channel: nothing lost, doubled, reordered or made up, never
    more under way than there is room for).  \<open>Fifo\<close>, \<open>TextPipe\<close> (bytes, 65536), \<open>MqPosix\<close> (messages,
    three), \<open>Shmem\<close> (slot contents, one) and \<open>ProdCons\<close> (numbers, ten) are interpretations.
  \<^item> \<open>CLib\<close>: blocks of memory, C strings, \<open>strcmp\<close>, \<open>strncpy\<close>, \<open>fread\<close>, \<open>strtok\<close>.  A block
    is the list of its bytes; an access behind its end is the value \<open>Inl OutOfBounds\<close>.
  \<^item> \<open>Kernel\<close>: descriptor tables (\<open>descriptor_table\<close>: the lowest free number is taken) and
    pipes (\<open>byte_stream\<close>: first in, first out), each an interface with its interpretation.
  \<^item> \<open>Double\<close>: rounding to 53 bits, to the nearest, ties to even, with the interface \<open>rounding\<close>
    (monotone, exact on what is representable); \<open>Decimal\<close>: \<open>atoi\<close>, \<open>%d\<close> and \<open>%lf\<close> both ways.

  \<^bold>\<open>The programs\<close>, each in the order of its source.
  \<^item> \<open>ShellParse\<close>, \<open>ShellRun\<close> (\<open>task_1/Tyazhelkov/cmdline.c\<close>): \<open>parse_cmdline\<close> against a reference
    parser, its round trip with a printer; \<open>seq_pipe\<close> with its forks, pipes and descriptor
    table refines the abstract pipeline of programs, as long as every output fits into a pipe,
    since each child is waited for before the next is started; the session of lines at a
    terminal that the shell and the first command of each line read from in turn, with the
    contents of the fresh heap blocks as a parameter of every line.
  \<^item> \<open>DuplexPipe\<close> (\<open>task_2/Tyazhelkov\<close>): the object of two pipes and the echo of a file through
    a child, as a step relation of parent and child.
  \<^item> \<open>Fifo\<close>, \<open>MqPosix\<close>, \<open>Shmem\<close> (\<open>task_3\<close>): a file through a named pipe, a message queue, and a
    shared memory object with three semaphores.  Each is a step function per program and
    an interleaving relation; the theorems say for every file what the output is, in every
    schedule, and that no schedule gets stuck; for the last two under the condition that nothing
    in the file reads as the string \<open>quit\<close>, with what becomes of the others
    (\<open>mq_quit_in_file\<close>, \<open>shm_quit_in_file\<close>).
  \<^item> \<open>Signals\<close> (\<open>task_5/tiazhelkov.ve\<close>): a file in packages of three bytes inside the value of
    a signal; what every, some and no schedule can do.  The receiver reads the length of a
    package before it copies its bytes, and a handler may run in between: under every schedule
    the lengths are those of packages, and under the schedules without that (\<open>calm_step\<close>) the
    bytes too; \<open>signal_can_tear\<close> is one of the others.  \<open>SignalSetup\<close>: both programs from the
    command line to their loops, with the number of the receiver as the sender is given it, and
    the race between the handlers and the first signal.
  \<^item> \<open>Daemon\<close> (\<open>task_6/tiazhelkov.ve\<close>): \<open>main_daemon\<close> (\<open>main.c\<close>), the configuration, the walk
    \<open>add_watcher_recursive\<close> over a tree, the cutting of the inotify buffer into events, and
    the commands that answer an event.
  \<^item> \<open>FifoServer\<close> (\<open>task_7/tiazhelkov.ve\<close>): registration, requests and the descriptor set.
    \<open>SendFile\<close>: the threads that send files, as an interleaving with the clients that open and
    read their FIFOs; \<open>open\<close> waits for a reader and \<open>write\<close> for room, and which clients read is
    a parameter.
  \<^item> \<open>MonteCarlo\<close> (\<open>monte_carlo/monte_carlo.c\<close>, \<open>task_8/tiazhelkov.ve/src/monte_carlo.c\<close>): slices,
    thread function, and the interleaving of the threads on a mutex, which refines an atomic
    accumulator; \<open>Cluster\<close>
    (\<open>task_8/tiazhelkov.ve/src/server.c\<close>, \<open>worker.c\<close>): invitation, registration, tasks,
    messages and results, up to the composition of server, message, worker and threads.
    \<open>Timing\<close>: the stand-alone program up to the line it prints, \<open>task_4/examples/7_times.c\<close>, and
    how right a difference of two clock readings in \<open>double\<close> is.
  \<^item> \<open>ProdCons\<close>, \<open>Counting\<close> (\<open>task_4/examples/10_prod_cons_cond_var.c\<close>,
    \<open>2_multithread_counting_nosync.c\<close>, \<open>3_mutex_lock.c\<close>): the bounded buffer on a mutex and two
    condition variables, with and without waits that end by themselves; two threads that
    count on one variable, with and without the mutex.
  \<^item> \<open>Chat\<close>, \<open>EchoServer\<close> (\<open>task_8/examples/tcp_serv.c\<close>, \<open>tcp_client.c\<close>; \<open>Myserver.c\<close>,
    \<open>Mytcp_client.c\<close>): a chat by turns over a connection whose reads may be short; the echo of
    a thread, and which connections the threads serve when all read the same array.
  \<^item> \<open>TokenServer\<close>, \<open>Greetings\<close> (\<open>task_3/examples/mq_server.c\<close>, \<open>mq_client.c\<close>; \<open>posix_mq_client.c\<close>,
    \<open>posix_mq_server.c\<close>, \<open>sender.c\<close>, \<open>receiver.c\<close>, \<open>mmap_parent_child.c\<close>, \<open>shm_server_posix.c\<close>): a server
    that numbers the requests of any number of clients until its descriptors run out; a single
    message over a queue or through shared memory, with every outcome the order of the two
    processes allows.
  \<^item> \<open>ExecPipes\<close>, \<open>TextPipe\<close>, \<open>Processes\<close> (\<open>task_1/examples\<close>: \<open>10_exec_pipes.c\<close>; \<open>8_pipe.c\<close>,
    \<open>9_fifo_writer.c\<close>, \<open>9_fifo_reader.c\<close>; \<open>2_fork_wait_exit.c\<close>, \<open>3_reap_zombies.c\<close>, \<open>4_exec_dir.c\<close>, and
    \<open>task_6/examples/8_prctl_set_subreaper.c\<close>): the pipeline of the shell on fixed commands;
    text over a pipe or a FIFO with short reads; \<open>fork\<close>, \<open>wait\<close> and who collects an orphan.
  \<^item> \<open>CntSem\<close> (\<open>task_4/examples/6_posix_cnt_sem.c\<close>): any number of processes on a counting
    semaphore.  \<open>Udp\<close> (\<open>task_8/examples/udp_client.c\<close>, \<open>udp_serv.c\<close>): a question and an answer over a
    network that loses datagrams.  \<open>Readiness\<close> (\<open>task_7/examples\<close>): \<open>select\<close>, \<open>poll\<close>, \<open>epoll\<close>.
  \<^item> \<open>Threads\<close> (\<open>task_4/examples\<close>: \<open>1_threads.c\<close>, \<open>0_pid_tid.c\<close>, \<open>3_set_phread_affinity.c\<close>,
    \<open>9_set_pthread_affinity.c\<close>): threads that print, and threads bound to a processor.
  \<^item> \<open>ListDir\<close>, \<open>WatchDir\<close> (\<open>task_6/examples/5_listdir_recursively.c\<close>, \<open>2_inotify.c\<close>): a walk that
    closes no directory; one round of events.  \<open>MonteSingle\<close>
    (\<open>task_4/examples/4_monte-carlo_singlethread.c\<close>): the estimate without threads, exact up to
    its last rounding.  \<open>Tools\<close>: \<open>strtok\<close>, \<open>touch\<close>, a string object, \<open>/proc\<close>, a timed
    wait and memory from \<open>brk\<close>.

  \<^bold>\<open>How the code appears.\<close>  A struct is a record, an enumeration of control points a
  datatype, a function that may fail a function into \<open>'a result\<close>, whose errors name the
  undefined behaviour or the failed call.  Programs that run side by side are an inductive
  step relation on one state; a wait is a step that is not there.  Numbers have the range
  of their type where the code can leave it: \<open>Inl Overflow\<close>, or \<open>32 word\<close> for what wraps.
  What comes from outside (datagrams, signals, the contents of fresh memory, \<open>rand_r\<close>, the
  result of a system call) is an argument of the definitions, and the theorems hold for all
  of its values or say for which.

  \<^bold>\<open>Bounds and termination.\<close>  No definition uses fuel: loops over data recurse on the data, the
  others have a measure; endless loops are modelled by one round (\<open>FifoServer\<close>, \<open>Daemon\<close>) or
  run over the list of what arrives, and the end of that list is the error \<open>Blocked\<close>.
  Termination of the concurrent programs is the rank of \<open>live_inv\<close>.

  \<^bold>\<open>Not modelled.\<close>  The other examples of the course (\<open>task_*/examples\<close>), which make a single
  system call (\<open>write\<close>, \<open>mallopt\<close>, \<open>system\<close>, \<open>perror\<close>) or do not compile
  (\<open>6_baseline_for_hw.c\<close>, \<open>8_daemon_template.c\<close>, \<open>shm_client_posix.c\<close>, the header
  \<open>2_task_2_struct.c\<close>); the thread pool of \<open>task_7\<close>, a submodule that is not part of the
  repository and appears as the list of its jobs and, in \<open>SendFile\<close>, as those that its four
  threads are running; most messages on the terminal.  Of
  floating point: overflow, subnormal numbers, signed zeros, and exponents in text.  What C leaves undefined ends a
  model with an error: a store behind a field or an array, a descriptor that does not fit a
  descriptor set, a store through a pointer that was never set (\<open>PUndefined\<close> in \<open>Processes\<close>).
  Of the kernel: \<open>waitpid\<close> is taken to return when the child it waits for has ended, \<open>mq_receive\<close>
  not to fail, \<open>chdir\<close> to the watched directory to succeed, and a directory tree to have
  no links that lead back into it.
\<close>

end
